(* ===== verification/Rust_Prelude.thy ===== *)
theory Rust_Prelude
  imports Main "HOL-Library.Word" "HOL-Library.Sublist"
begin

text \<open>
  The part of Rust the modelled code uses, and the lemmas every component shares.

  \<^item> Machine integers: \<open>u8\<close>, \<open>u16\<close>, \<open>u32\<close>, \<open>u64\<close> are words of that width; a \<open>usize\<close> is a
    natural number whose arithmetic (\<open>usize_add\<close>, \<open>usize_sub\<close>, \<open>usize_mul\<close>) is written out
    for a 64-bit target: with overflow checks it panics, without them it wraps.
  \<^item> The compilation target is an argument: \<open>debug\<close> says whether \<^verbatim>\<open>debug_assert!\<close> and the
    overflow checks are compiled in (Cargo's dev and release profiles), \<open>big_endian\<close> is the
    byte order of the machine.
  \<^item> The result of a call is an \<open>outcome\<close>: a value, an \<^verbatim>\<open>Err\<close>, a panic, or undefined
    behaviour (an access through a raw pointer outside the object it points into). A method
    with \<^verbatim>\<open>&mut self\<close> is a function from the state to an outcome and a new state, so an
    early return keeps what was written before it.
  \<^item> Memory: a block of bytes is a list, a raw pointer into it is an offset. Every raw read
    and write carries its bounds as a condition and is undefined behaviour outside them;
    checked slicing panics outside them.

  The locale \<open>byte_codec\<close> states what a fixed-width byte encoding promises; the lemmas about
  reading a field back after writes to a block are proved from it once.
\<close>

unbundle bit_operations_syntax

named_theorems rust_simps \<open>symbolic execution of modelled Rust code\<close>
named_theorems mem_simps \<open>reading bytes back after writes to a block of memory\<close>

section \<open>Machine integers and the compilation target\<close>

type_synonym u8 = "8 word"
type_synonym u16 = "16 word"
type_synonym u32 = "32 word"
type_synonym u64 = "64 word"
type_synonym usize = nat
type_synonym block = "u8 list"

record target =
  debug :: bool
  big_endian :: bool

section \<open>Outcomes of calls\<close>

datatype ('e, 'a) outcome = Ok 'a | Err 'e | Panic | UB

type_synonym ('s, 'e, 'a) op = "'s \<Rightarrow> ('e, 'a) outcome \<times> 's"

fun obind :: "('e, 'a) outcome \<Rightarrow> ('a \<Rightarrow> ('e, 'b) outcome) \<Rightarrow> ('e, 'b) outcome" where
  "obind (Ok a) f = f a"
| "obind (Err e) f = Err e"
| "obind Panic f = Panic"
| "obind UB f = UB"

fun map_err :: "('e \<Rightarrow> 'f) \<Rightarrow> ('e, 'a) outcome \<Rightarrow> ('f, 'a) outcome" where
  "map_err g (Ok a) = Ok a"
| "map_err g (Err e) = Err (g e)"
| "map_err g Panic = Panic"
| "map_err g UB = UB"

definition op_ret :: "'a \<Rightarrow> ('s, 'e, 'a) op" where
  "op_ret a s = (Ok a, s)"

definition op_err :: "'e \<Rightarrow> ('s, 'e, 'a) op" where
  "op_err e s = (Err e, s)"

definition op_out :: "('e, 'a) outcome \<Rightarrow> ('s, 'e, 'a) op" where
  "op_out r s = (r, s)"

definition op_read :: "('s \<Rightarrow> ('e, 'a) outcome) \<Rightarrow> ('s, 'e, 'a) op" where
  "op_read f s = (f s, s)"

definition op_bind :: "('s, 'e, 'a) op \<Rightarrow> ('a \<Rightarrow> ('s, 'e, 'b) op) \<Rightarrow> ('s, 'e, 'b) op" where
  "op_bind f g s =
     (case f s of
        (Ok a, s') \<Rightarrow> g a s'
      | (Err e, s') \<Rightarrow> (Err e, s')
      | (Panic, s') \<Rightarrow> (Panic, s')
      | (UB, s') \<Rightarrow> (UB, s'))"

definition op_map_err :: "('e \<Rightarrow> 'f) \<Rightarrow> ('s, 'e, 'a) op \<Rightarrow> ('s, 'f, 'a) op" where
  "op_map_err g f s = (map_err g (fst (f s)), snd (f s))"

lemma op_simps [rust_simps]:
  "op_ret a s = (Ok a, s)"
  "op_err e s = (Err e, s)"
  "op_out r s = (r, s)"
  "op_read f s = (f s, s)"
  by (simp_all add: op_ret_def op_err_def op_out_def op_read_def)

lemma op_bind_simps [rust_simps]:
  "f s = (Ok a, s') \<Longrightarrow> op_bind f g s = g a s'"
  "f s = (Err e, s') \<Longrightarrow> op_bind f g s = (Err e, s')"
  "f s = (Panic, s') \<Longrightarrow> op_bind f g s = (Panic, s')"
  "f s = (UB, s') \<Longrightarrow> op_bind f g s = (UB, s')"
  by (simp_all add: op_bind_def)

lemma obind_Ok [simp]: "obind r Ok = r"
  by (cases r) simp_all

lemma obind_assoc: "obind (obind r f) g = obind r (\<lambda>a. obind (f a) g)"
  by (cases r) simp_all

lemma obind_eq_Ok: "obind r f = Ok b \<longleftrightarrow> (\<exists>a. r = Ok a \<and> f a = Ok b)"
  by (cases r) auto

lemma op_bind_eq_Ok:
  "op_bind f g s = (Ok b, t) \<longleftrightarrow> (\<exists>a s'. f s = (Ok a, s') \<and> g a s' = (Ok b, t))"
  by (auto simp: op_bind_def split: prod.splits outcome.splits)

lemma map_err_eq_Ok [simp]: "map_err g r = Ok a \<longleftrightarrow> r = Ok a"
  by (cases r) auto

text \<open>\<^verbatim>\<open>assert!\<close> panics in every build, \<^verbatim>\<open>debug_assert!\<close> in a debug build only.\<close>

definition rust_assert :: "bool \<Rightarrow> ('e, unit) outcome" where
  "rust_assert b = (if b then Ok () else Panic)"

definition debug_assert :: "target \<Rightarrow> bool \<Rightarrow> ('e, unit) outcome" where
  "debug_assert t b = (if debug t \<and> \<not> b then Panic else Ok ())"

lemma asserts_hold [rust_simps]:
  "b \<Longrightarrow> rust_assert b = Ok ()"
  "b \<Longrightarrow> debug_assert t b = Ok ()"
  by (simp_all add: rust_assert_def debug_assert_def)

section \<open>Arithmetic on \<open>usize\<close>\<close>

definition overflow :: "target \<Rightarrow> usize \<Rightarrow> ('e, usize) outcome" where
  "overflow t wrapped = (if debug t then Panic else Ok wrapped)"

definition usize_add :: "target \<Rightarrow> usize \<Rightarrow> usize \<Rightarrow> ('e, usize) outcome" where
  "usize_add t a b = (if a + b < 2 ^ 64 then Ok (a + b) else overflow t ((a + b) mod 2 ^ 64))"

definition usize_sub :: "target \<Rightarrow> usize \<Rightarrow> usize \<Rightarrow> ('e, usize) outcome" where
  "usize_sub t a b = (if b \<le> a then Ok (a - b) else overflow t ((a + 2 ^ 64 - b) mod 2 ^ 64))"

definition usize_mul :: "target \<Rightarrow> usize \<Rightarrow> usize \<Rightarrow> ('e, usize) outcome" where
  "usize_mul t a b = (if a * b < 2 ^ 64 then Ok (a * b) else overflow t ((a * b) mod 2 ^ 64))"

lemma usize_in_range [rust_simps]:
  "a + b < 2 ^ 64 \<Longrightarrow> usize_add t a b = Ok (a + b)"
  "b \<le> a \<Longrightarrow> usize_sub t a b = Ok (a - b)"
  "a * b < 2 ^ 64 \<Longrightarrow> usize_mul t a b = Ok (a * b)"
  by (simp_all add: usize_add_def usize_sub_def usize_mul_def)

section \<open>Little-endian encoding\<close>

fun le_enc :: "nat \<Rightarrow> nat \<Rightarrow> block" where
  "le_enc 0 k = []"
| "le_enc (Suc n) k = of_nat (k mod 256) # le_enc n (k div 256)"

fun le_dec :: "block \<Rightarrow> nat" where
  "le_dec [] = 0"
| "le_dec (b # bs) = unat b + 256 * le_dec bs"

lemma length_le_enc [simp]: "length (le_enc n k) = n"
  by (induction n arbitrary: k) simp_all

lemma unat_of_nat_byte: "unat (of_nat (k mod 256) :: u8) = k mod 256"
  by (simp add: unat_of_nat)

lemma le_dec_le_enc: "le_dec (le_enc n k) = k mod 256 ^ n"
proof (induction n arbitrary: k)
  case 0
  show ?case by simp
next
  case (Suc n)
  have "k mod 256 ^ Suc n = k mod 256 + 256 * ((k div 256) mod 256 ^ n)"
    by (simp add: mod_mult2_eq)
  then show ?case by (simp add: Suc unat_of_nat_byte)
qed

lemma le_enc_le_dec: "le_enc (length bs) (le_dec bs) = bs"
proof (induction bs)
  case Nil
  show ?case by simp
next
  case (Cons b bs)
  have b: "unat b < 256" using unsigned_less [where ?'a = nat and w = b] by simp
  then have "(unat b + 256 * le_dec bs) mod 256 = unat b" by simp
  moreover from b have "(unat b + 256 * le_dec bs) div 256 = le_dec bs" by simp
  ultimately show ?case by (simp only: list.size le_dec.simps le_enc.simps add_Suc_right add_0_right Cons) simp
qed

lemma le_enc_zero: "le_enc n 0 = replicate n 0"
  by (induction n) simp_all

lemma le_dec_zero: "le_dec (replicate n 0) = 0"
  by (induction n) simp_all

lemma le_dec_bound: "le_dec bs < 256 ^ length bs"
proof (induction bs)
  case Nil
  show ?case by simp
next
  case (Cons b bs)
  have "unat b < 256" using unsigned_less [where ?'a = nat and w = b] by simp
  moreover have "le_dec bs + 1 \<le> 256 ^ length bs" using Cons by simp
  then have "256 * (le_dec bs + 1) \<le> 256 * 256 ^ length bs" by (rule mult_le_mono2)
  ultimately show ?case by simp
qed

text \<open>
  What the code relies on of the target: \<^verbatim>\<open>to_le_bytes\<close> and \<^verbatim>\<open>from_le_bytes\<close> are little-endian
  everywhere; a native load decodes in the machine's byte order, and \<^verbatim>\<open>to_le\<close> swaps the bytes
  on a big-endian machine only.
\<close>

definition to_le_bytes :: "'w::len word \<Rightarrow> block" where
  "to_le_bytes w = le_enc (LENGTH('w) div 8) (unat w)"

definition from_le_bytes :: "block \<Rightarrow> 'w::len word" where
  "from_le_bytes bs = of_nat (le_dec bs)"

definition from_ne_bytes :: "target \<Rightarrow> block \<Rightarrow> 'w::len word" where
  "from_ne_bytes t bs = from_le_bytes (if big_endian t then rev bs else bs)"

definition swap_bytes :: "'w::len word \<Rightarrow> 'w word" where
  "swap_bytes w = from_le_bytes (rev (to_le_bytes w))"

definition to_le :: "target \<Rightarrow> 'w::len word \<Rightarrow> 'w word" where
  "to_le t w = (if big_endian t then swap_bytes w else w)"

lemma length_to_le_bytes [simp]:
  "length (to_le_bytes (w :: 'w::len word)) = LENGTH('w) div 8"
  by (simp add: to_le_bytes_def)

lemma from_to_le_bytes:
  assumes "8 dvd LENGTH('w::len)"
  shows "from_le_bytes (to_le_bytes (w :: 'w word)) = w"
proof -
  have "(256::nat) ^ (LENGTH('w) div 8) = 2 ^ LENGTH('w)"
    using assms by (simp add: power_mult [of "2::nat" 8, simplified, symmetric])
  then show ?thesis
    using unsigned_less [where ?'a = nat and w = w] by (simp add: from_le_bytes_def to_le_bytes_def le_dec_le_enc)
qed

lemma to_from_le_bytes:
  assumes "8 dvd LENGTH('w::len)" and "length bs = LENGTH('w) div 8"
  shows "to_le_bytes (from_le_bytes bs :: 'w word) = bs"
proof -
  have "(256::nat) ^ (LENGTH('w) div 8) = 2 ^ LENGTH('w)"
    using assms(1) by (simp add: power_mult [of "2::nat" 8, simplified, symmetric])
  with le_dec_bound [of bs] assms(2) have "unat (of_nat (le_dec bs) :: 'w word) = le_dec bs"
    by (simp add: unat_of_nat)
  with le_enc_le_dec [of bs] assms(2) show ?thesis
    by (simp add: from_le_bytes_def to_le_bytes_def)
qed

lemma to_le_from_ne_bytes:
  assumes "8 dvd LENGTH('w::len)" and "length bs = LENGTH('w) div 8"
  shows "to_le t (from_ne_bytes t bs :: 'w word) = from_le_bytes bs"
  using to_from_le_bytes [where 'w = 'w, of "rev bs"] assms
  by (simp add: to_le_def from_ne_bytes_def swap_bytes_def)

section \<open>Blocks of memory\<close>

definition bytes_at :: "block \<Rightarrow> usize \<Rightarrow> nat \<Rightarrow> block" where
  "bytes_at b off n = take n (drop off b)"

definition patch :: "block \<Rightarrow> usize \<Rightarrow> block \<Rightarrow> block" where
  "patch b off bs = take off b @ bs @ drop (off + length bs) b"

lemma length_patch [mem_simps]:
  "off + length bs \<le> length b \<Longrightarrow> length (patch b off bs) = length b"
  by (simp add: patch_def)

lemma length_bytes_at [mem_simps]:
  "off + n \<le> length b \<Longrightarrow> length (bytes_at b off n) = n"
  by (simp add: bytes_at_def)

lemma nth_bytes_at: "i < n \<Longrightarrow> off + n \<le> length b \<Longrightarrow> bytes_at b off n ! i = b ! (off + i)"
  by (simp add: bytes_at_def)

lemma nth_patch:
  "off + length bs \<le> length b \<Longrightarrow> i < length b \<Longrightarrow>
   patch b off bs ! i = (if off \<le> i \<and> i < off + length bs then bs ! (i - off) else b ! i)"
  by (auto simp: patch_def nth_append min_def)

lemma bytes_at_patch_same [mem_simps]:
  "off + length bs \<le> length b \<Longrightarrow> n = length bs \<Longrightarrow> bytes_at (patch b off bs) off n = bs"
  by (simp add: bytes_at_def patch_def)

lemma bytes_at_patch_disjoint [mem_simps]:
  assumes "off + length bs \<le> length b" and "o' + n \<le> off \<or> off + length bs \<le> o'"
  shows "bytes_at (patch b off bs) o' n = bytes_at b o' n"
proof (cases "o' + n \<le> length b")
  case True
  show ?thesis
    by (rule nth_equalityI)
      (use assms True in \<open>auto simp: length_bytes_at length_patch nth_bytes_at nth_patch\<close>)
next
  case False
  with assms show ?thesis by (auto simp: bytes_at_def patch_def)
qed

lemma bytes_at_patch_inside [mem_simps]:
  assumes "off + length bs \<le> length b" and "off \<le> o'" and "o' + n \<le> off + length bs"
  shows "bytes_at (patch b off bs) o' n = bytes_at bs (o' - off) n"
  by (rule nth_equalityI)
    (use assms in \<open>auto simp: length_bytes_at length_patch nth_bytes_at nth_patch\<close>)

lemma bytes_at_bytes_at [mem_simps]:
  "i + n \<le> m \<Longrightarrow> bytes_at (bytes_at b off m) i n = bytes_at b (off + i) n"
  by (simp add: bytes_at_def min_def drop_take add.commute)

text \<open>
  Raw access: \<open>ptr_read\<close> is a load through a pointer, \<open>ptr_write\<close> is
  \<^verbatim>\<open>ptr::copy_nonoverlapping\<close> from a buffer outside the block, \<open>ptr_copy\<close> is \<^verbatim>\<open>ptr::copy\<close>
  within it (the source is read before the destination is written). \<open>slice_range\<close> is
  \<^verbatim>\<open>&bytes[a..b]\<close>.
\<close>

definition ptr_read :: "block \<Rightarrow> usize \<Rightarrow> nat \<Rightarrow> ('e, block) outcome" where
  "ptr_read b off n = (if off + n \<le> length b then Ok (bytes_at b off n) else UB)"

definition ptr_write :: "usize \<Rightarrow> block \<Rightarrow> (block, 'e, unit) op" where
  "ptr_write off bs b = (if off + length bs \<le> length b then (Ok (), patch b off bs) else (UB, b))"

definition ptr_copy :: "usize \<Rightarrow> usize \<Rightarrow> nat \<Rightarrow> (block, 'e, unit) op" where
  "ptr_copy src dst n = op_bind (op_read (\<lambda>b. ptr_read b src n)) (ptr_write dst)"

definition slice_range :: "block \<Rightarrow> usize \<Rightarrow> usize \<Rightarrow> ('e, block) outcome" where
  "slice_range b lo hi = (if lo \<le> hi \<and> hi \<le> length b then Ok (bytes_at b lo (hi - lo)) else Panic)"

text \<open>\<^verbatim>\<open>bytes[lo..hi].copy_from_slice(src)\<close>, which also panics on a length mismatch.\<close>

definition slice_write :: "usize \<Rightarrow> usize \<Rightarrow> block \<Rightarrow> (block, 'e, unit) op" where
  "slice_write lo hi src b =
     (if lo \<le> hi \<and> hi \<le> length b \<and> length src = hi - lo then (Ok (), patch b lo src)
      else (Panic, b))"

text \<open>\<^verbatim>\<open>bytes[i]\<close> and \<^verbatim>\<open>bytes[i] = v\<close>.\<close>

definition index_read :: "block \<Rightarrow> usize \<Rightarrow> ('e, u8) outcome" where
  "index_read b i = (if i < length b then Ok (b ! i) else Panic)"

definition index_write :: "usize \<Rightarrow> u8 \<Rightarrow> (block, 'e, unit) op" where
  "index_write i v b = (if i < length b then (Ok (), b[i := v]) else (Panic, b))"

lemma raw_access [rust_simps]:
  "off + n \<le> length b \<Longrightarrow> ptr_read b off n = Ok (bytes_at b off n)"
  "off + length bs \<le> length b \<Longrightarrow> ptr_write off bs b = (Ok (), patch b off bs)"
  "lo \<le> hi \<Longrightarrow> hi \<le> length b \<Longrightarrow> slice_range b lo hi = Ok (bytes_at b lo (hi - lo))"
  "lo \<le> hi \<Longrightarrow> hi \<le> length b \<Longrightarrow> length src = hi - lo \<Longrightarrow>
     slice_write lo hi src b = (Ok (), patch b lo src)"
  "i < length b \<Longrightarrow> index_read b i = Ok (b ! i)"
  "i < length b \<Longrightarrow> index_write i v b = (Ok (), patch b i [v])"
  by (simp_all add: ptr_read_def ptr_write_def slice_range_def slice_write_def index_read_def
      index_write_def patch_def upd_conv_take_nth_drop)

lemma ptr_copy_in_bounds [rust_simps]:
  "src + n \<le> length b \<Longrightarrow> dst + n \<le> length b \<Longrightarrow>
     ptr_copy src dst n b = (Ok (), patch b dst (bytes_at b src n))"
  by (simp add: ptr_copy_def op_bind_def op_read_def ptr_read_def ptr_write_def length_bytes_at)

section \<open>The contract of a byte encoding\<close>

text \<open>
  A fixed-width encoding of values as bytes. From the two laws follow the facts the header
  fields and the cells need: a field reads back as written, a write elsewhere does not change
  it, and equal bytes mean equal values.
\<close>

locale byte_codec =
  fixes enc :: "'v \<Rightarrow> block"
    and dec :: "block \<Rightarrow> 'v"
    and width :: nat
  assumes length_enc: "length (enc v) = width"
    and dec_enc: "dec (enc v) = v"
    and enc_dec: "length bs = width \<Longrightarrow> enc (dec bs) = bs"
begin

lemma get_put_same: "off + width \<le> length b \<Longrightarrow> dec (bytes_at (patch b off (enc v)) off width) = v"
  by (simp add: bytes_at_patch_same length_enc dec_enc)

lemma get_put_other:
  "off + width \<le> length b \<Longrightarrow> o' + n \<le> off \<or> off + width \<le> o' \<Longrightarrow>
   bytes_at (patch b off (enc v)) o' n = bytes_at b o' n"
  by (simp add: bytes_at_patch_disjoint length_enc)

lemma put_get_same: "off + width \<le> length b \<Longrightarrow> patch b off (enc (dec (bytes_at b off width))) = b"
  by (simp add: enc_dec length_bytes_at)
    (simp add: patch_def bytes_at_def flip: drop_drop take_add append_assoc, simp add: add.commute)

lemma enc_inject: "enc v = enc w \<longleftrightarrow> v = w"
  using dec_enc by metis

end

interpretation u16_codec: byte_codec "to_le_bytes :: u16 \<Rightarrow> block" from_le_bytes 2
  by unfold_locales (simp_all add: from_to_le_bytes to_from_le_bytes)

interpretation u64_codec: byte_codec "to_le_bytes :: u64 \<Rightarrow> block" from_le_bytes 8
  by unfold_locales (simp_all add: from_to_le_bytes to_from_le_bytes)

interpretation u8_codec: byte_codec "\<lambda>v :: u8. [v]" hd 1
  by unfold_locales (auto simp: length_Suc_conv)

section \<open>Lists\<close>

definition insert_at :: "nat \<Rightarrow> 'a \<Rightarrow> 'a list \<Rightarrow> 'a list" where
  "insert_at i x xs = take i xs @ x # drop i xs"

lemma length_insert_at [simp]: "length (insert_at i x xs) = Suc (length xs)"
  by (simp add: insert_at_def)

lemma insert_at_length [simp]: "insert_at (length xs) x xs = xs @ [x]"
  by (simp add: insert_at_def)

lemma set_insert_at [simp]: "set (insert_at i x xs) = insert x (set xs)"
proof -
  have "set xs = set (take i xs) \<union> set (drop i xs)"
    by (metis append_take_drop_id set_append)
  then show ?thesis by (auto simp: insert_at_def)
qed

lemma map_insert_at: "map f (insert_at i x xs) = insert_at i (f x) (map f xs)"
  by (simp add: insert_at_def take_map drop_map)

lemma nth_insert_at:
  "i \<le> length xs \<Longrightarrow> j \<le> length xs \<Longrightarrow>
   insert_at i x xs ! j = (if j < i then xs ! j else if j = i then x else xs ! (j - 1))"
  by (auto simp: insert_at_def nth_append nth_Cons' min_def)

lemma sum_list_insert_at:
  "sum_list (insert_at i (x :: nat) xs) = x + sum_list xs"
proof -
  have "sum_list xs = sum_list (take i xs) + sum_list (drop i xs)"
    by (metis append_take_drop_id sum_list_append)
  then show ?thesis by (simp add: insert_at_def)
qed

lemma sorted_wrt_insert_at:
  assumes "sorted_wrt R xs" and "\<And>y. y \<in> set (take i xs) \<Longrightarrow> R y x"
    and "\<And>y. y \<in> set (drop i xs) \<Longrightarrow> R x y"
  shows "sorted_wrt R (insert_at i x xs)"
proof -
  from assms(1) have "sorted_wrt R (take i xs @ drop i xs)" by simp
  then have "sorted_wrt R (take i xs)" "sorted_wrt R (drop i xs)"
    "\<forall>a\<in>set (take i xs). \<forall>b\<in>set (drop i xs). R a b"
    unfolding sorted_wrt_append by blast+
  with assms(2,3) show ?thesis
    unfolding insert_at_def sorted_wrt_append by auto
qed

end
