(* ===== verification/Page_Mod.thy ===== *)
theory Page_Mod
  imports Rust_Prelude
begin

text \<open>
  The page module, \<^verbatim>\<open>page/mod.rs\<close>: page and slot identifiers, the little-endian readers and
  writers every page layout goes through, and the two packed bytes of a page header: the
  page-type byte (kind in the low nibble, subtype in the high one) and the flags byte (one bit
  per page state). The lemmas show that the codecs agree on either byte order of the machine,
  that the two nibbles of the page-type byte are independent, and that the flags byte is a
  set of states.
\<close>

section \<open>Definitions\<close>

subsection \<open>Identifiers\<close>

type_synonym RawPage = block

datatype PageID = PageID (pid: u64)

definition PageID_into :: "PageID \<Rightarrow> u64" where
  "PageID_into p = pid p"

text \<open>\<^verbatim>\<open>self.0 * PAGE_SIZE as u64\<close>: a multiplication on \<^verbatim>\<open>u64\<close>, checked in a debug build.\<close>

definition to_offset :: "target \<Rightarrow> PageID \<Rightarrow> ('e, u64) outcome" where
  "to_offset t p =
     (if unat (pid p) * 4096 < 2 ^ 64 then Ok (pid p * 4096)
      else if debug t then Panic else Ok (pid p * 4096))"

definition PageID_from :: "u64 \<Rightarrow> PageID" where
  "PageID_from value = PageID value"

datatype SlotID = SlotID (sid: u16)

subsection \<open>Little-endian readers and writers\<close>

definition read_u16_le :: "block \<Rightarrow> ('e, u16) outcome" where
  "read_u16_le bytes = obind (slice_range bytes 0 2) (\<lambda>buf. Ok (from_le_bytes buf))"

definition write_u16_le :: "u16 \<Rightarrow> (block, 'e, unit) op" where
  "write_u16_le value = slice_write 0 2 (to_le_bytes value)"

definition read_u16_le_unsafe :: "target \<Rightarrow> block \<Rightarrow> usize \<Rightarrow> ('e, u16) outcome" where
  "read_u16_le_unsafe t b ptr =
     obind (ptr_read b ptr 2) (\<lambda>bs. Ok (to_le t (from_ne_bytes t bs)))"

definition write_u16_le_unsafe :: "usize \<Rightarrow> u16 \<Rightarrow> (block, 'e, unit) op" where
  "write_u16_le_unsafe b_ptr value = ptr_write b_ptr (to_le_bytes value)"

definition read_u64_le_unsafe :: "target \<Rightarrow> block \<Rightarrow> usize \<Rightarrow> ('e, u64) outcome" where
  "read_u64_le_unsafe t b ptr =
     obind (ptr_read b ptr 8) (\<lambda>bs. Ok (to_le t (from_ne_bytes t bs)))"

definition write_u64_le_unsafe :: "usize \<Rightarrow> u64 \<Rightarrow> (block, 'e, unit) op" where
  "write_u64_le_unsafe b_ptr value = ptr_write b_ptr (to_le_bytes value)"

subsection \<open>Page kinds\<close>

definition PAGE_TYPE_MASK :: u8 where "PAGE_TYPE_MASK = 15"
definition SUBTYPE_MASK :: u8 where "SUBTYPE_MASK = 240"

definition PT_UNDEFINED :: u8 where "PT_UNDEFINED = 0"
definition PT_HEAP :: u8 where "PT_HEAP = 1"
definition PT_INDEX_INTERNAL :: u8 where "PT_INDEX_INTERNAL = 2"
definition PT_INDEX_MINI_LEAF :: u8 where "PT_INDEX_MINI_LEAF = 3"
definition PT_INDEX_LEAF :: u8 where "PT_INDEX_LEAF = 4"
definition PT_META :: u8 where "PT_META = 5"
definition PT_FREE :: u8 where "PT_FREE = 6"

datatype PageKind = Heap | IndexInternal | IndexMiniLeaf | IndexLeaf | Meta | Free | Undefined

text \<open>The discriminant, \<^verbatim>\<open>kind as u8\<close>.\<close>

fun PageKind_as_u8 :: "PageKind \<Rightarrow> u8" where
  "PageKind_as_u8 Heap = 0x01"
| "PageKind_as_u8 IndexInternal = 0x02"
| "PageKind_as_u8 IndexMiniLeaf = 0x03"
| "PageKind_as_u8 IndexLeaf = 0x04"
| "PageKind_as_u8 Meta = 0x05"
| "PageKind_as_u8 Free = 0x06"
| "PageKind_as_u8 Undefined = 0xFF"

text \<open>\<^verbatim>\<open>impl From<PageKind> for u8\<close>, \<^verbatim>\<open>kind.into()\<close>.\<close>

fun PageKind_into_u8 :: "PageKind \<Rightarrow> u8" where
  "PageKind_into_u8 Undefined = PT_UNDEFINED"
| "PageKind_into_u8 Heap = PT_HEAP"
| "PageKind_into_u8 IndexInternal = PT_INDEX_INTERNAL"
| "PageKind_into_u8 IndexMiniLeaf = PT_INDEX_MINI_LEAF"
| "PageKind_into_u8 IndexLeaf = PT_INDEX_LEAF"
| "PageKind_into_u8 Meta = PT_META"
| "PageKind_into_u8 Free = PT_FREE"

definition PageKind_from_u8 :: "u8 \<Rightarrow> PageKind option" where
  "PageKind_from_u8 pt =
     (if pt = PT_UNDEFINED then Some Undefined
      else if pt = PT_HEAP then Some Heap
      else if pt = PT_INDEX_INTERNAL then Some IndexInternal
      else if pt = PT_INDEX_MINI_LEAF then Some IndexMiniLeaf
      else if pt = PT_INDEX_LEAF then Some IndexLeaf
      else if pt = PT_META then Some Meta
      else if pt = PT_FREE then Some Free
      else None)"

fun uses_slotted_page_layout :: "PageKind \<Rightarrow> bool" where
  "uses_slotted_page_layout Heap = False"
| "uses_slotted_page_layout IndexInternal = True"
| "uses_slotted_page_layout IndexMiniLeaf = True"
| "uses_slotted_page_layout IndexLeaf = True"
| "uses_slotted_page_layout Meta = False"
| "uses_slotted_page_layout Free = False"
| "uses_slotted_page_layout Undefined = False"

subsection \<open>The page-type byte\<close>

datatype PageType = PageType (pt_raw: u8)

definition PageType_new :: "u8 \<Rightarrow> u8 \<Rightarrow> PageType" where
  "PageType_new pt pst =
     (let page_type = pt AND PAGE_TYPE_MASK;
          sub_type = push_bit 4 (pst AND PAGE_TYPE_MASK)
      in PageType (page_type OR sub_type))"

definition PageType_raw :: "PageType \<Rightarrow> u8" where
  "PageType_raw self = pt_raw self"

definition page_type :: "PageType \<Rightarrow> u8" where
  "page_type self = pt_raw self AND PAGE_TYPE_MASK"

definition page_kind :: "PageType \<Rightarrow> PageKind" where
  "page_kind self =
     (case PageKind_from_u8 (page_type self) of Some k \<Rightarrow> k | None \<Rightarrow> Undefined)"

definition page_sub_type :: "PageType \<Rightarrow> u8" where
  "page_sub_type self = drop_bit 4 (pt_raw self AND SUBTYPE_MASK)"

definition PageType_set_page_type :: "PageType \<Rightarrow> u8 \<Rightarrow> PageType" where
  "PageType_set_page_type self pt =
     PageType ((pt_raw self AND NOT PAGE_TYPE_MASK) OR (pt AND PAGE_TYPE_MASK))"

definition set_subtype_page_bits :: "PageType \<Rightarrow> u8 \<Rightarrow> PageType" where
  "set_subtype_page_bits self pst =
     PageType ((pt_raw self AND NOT SUBTYPE_MASK) OR push_bit 4 (pst AND PAGE_TYPE_MASK))"

definition PageType_into_u8 :: "PageType \<Rightarrow> u8" where
  "PageType_into_u8 pt = pt_raw pt"

definition PageType_from_u8 :: "u8 \<Rightarrow> PageType" where
  "PageType_from_u8 raw = PageType raw"

subsection \<open>The flags byte\<close>

definition NO_STATE :: u8 where "NO_STATE = 0"
definition FAST_PARENT :: u8 where "FAST_PARENT = 1"
definition DELETED :: u8 where "DELETED = 2"
definition HALF_DELETED :: u8 where "HALF_DELETED = 4"
definition INCOMPLETE_SPLIT :: u8 where "INCOMPLETE_SPLIT = 8"
definition HAS_OVERFLOW :: u8 where "HAS_OVERFLOW = 16"

datatype PageStates = NoState | FastParent | Deleted | HalfDeleted | IncompleteSplit | HasOverflow

instantiation PageStates :: enum
begin

definition enum_PageStates :: "PageStates list" where
  "enum_PageStates = [NoState, FastParent, Deleted, HalfDeleted, IncompleteSplit, HasOverflow]"

definition enum_all_PageStates :: "(PageStates \<Rightarrow> bool) \<Rightarrow> bool" where
  "enum_all_PageStates P \<longleftrightarrow> P NoState \<and> P FastParent \<and> P Deleted \<and> P HalfDeleted \<and> P IncompleteSplit \<and> P HasOverflow"

definition enum_ex_PageStates :: "(PageStates \<Rightarrow> bool) \<Rightarrow> bool" where
  "enum_ex_PageStates P \<longleftrightarrow> P NoState \<or> P FastParent \<or> P Deleted \<or> P HalfDeleted \<or> P IncompleteSplit \<or> P HasOverflow"

instance
proof
  have u: "UNIV = {NoState, FastParent, Deleted, HalfDeleted, IncompleteSplit, HasOverflow}"
    using PageStates.exhaust by blast
  show "UNIV = set (enum_class.enum :: PageStates list)" by (simp add: enum_PageStates_def u)
  show "distinct (enum_class.enum :: PageStates list)" by (simp add: enum_PageStates_def)
  show "enum_class.enum_all P \<longleftrightarrow> Ball UNIV P" for P :: "PageStates \<Rightarrow> bool"
    by (simp add: enum_all_PageStates_def u)
  show "enum_class.enum_ex P \<longleftrightarrow> Bex UNIV P" for P :: "PageStates \<Rightarrow> bool"
    by (simp add: enum_ex_PageStates_def u)
qed

end

definition PageStates_from_u8 :: "u8 \<Rightarrow> PageStates option" where
  "PageStates_from_u8 pf =
     (if pf = FAST_PARENT then Some FastParent
      else if pf = DELETED then Some Deleted
      else if pf = HALF_DELETED then Some HalfDeleted
      else if pf = INCOMPLETE_SPLIT then Some IncompleteSplit
      else if pf = HAS_OVERFLOW then Some HasOverflow
      else None)"

fun state_bit :: "PageStates \<Rightarrow> u8" where
  "state_bit FastParent = FAST_PARENT"
| "state_bit Deleted = DELETED"
| "state_bit HalfDeleted = HALF_DELETED"
| "state_bit IncompleteSplit = INCOMPLETE_SPLIT"
| "state_bit HasOverflow = HAS_OVERFLOW"
| "state_bit NoState = NO_STATE"

datatype PageFlags = PageFlags (pf_raw: u8)

definition PageFlags_new :: "PageStates \<Rightarrow> PageFlags" where
  "PageFlags_new pf = PageFlags (state_bit pf)"

definition set_flag :: "PageFlags \<Rightarrow> PageStates \<Rightarrow> PageFlags" where
  "set_flag self pf = PageFlags (pf_raw self OR state_bit pf)"

definition clear_flag :: "PageFlags \<Rightarrow> PageStates \<Rightarrow> PageFlags" where
  "clear_flag self pf = PageFlags (pf_raw self AND NOT (state_bit pf))"

definition has_flag :: "PageFlags \<Rightarrow> PageStates \<Rightarrow> bool" where
  "has_flag self pf \<longleftrightarrow> pf_raw self AND state_bit pf \<noteq> 0"

definition extract_all_flags :: "PageFlags \<Rightarrow> PageStates list" where
  "extract_all_flags self =
     (let flags = [];
          flags = (if has_flag self FastParent then flags @ [FastParent] else flags);
          flags = (if has_flag self Deleted then flags @ [Deleted] else flags);
          flags = (if has_flag self HalfDeleted then flags @ [Deleted] else flags);
          flags = (if has_flag self IncompleteSplit then flags @ [IncompleteSplit] else flags);
          flags = (if has_flag self HasOverflow then flags @ [HasOverflow] else flags)
      in flags)"

subsection \<open>Index levels\<close>

datatype IndexLevel = IndexLevel (lvl: u8)

definition IndexLevel_MAX :: u8 where "IndexLevel_MAX = 15"

definition IndexLevel_new :: "u8 \<Rightarrow> ('e, IndexLevel) outcome" where
  "IndexLevel_new level = obind (rust_assert (level \<le> IndexLevel_MAX)) (\<lambda>_. Ok (IndexLevel level))"

definition IndexLevel_into :: "IndexLevel \<Rightarrow> u8" where
  "IndexLevel_into self = lvl self"

definition IndexLevel_from :: "u8 \<Rightarrow> ('e, IndexLevel) outcome" where
  "IndexLevel_from value = IndexLevel_new value"

section \<open>Lemmas\<close>

subsection \<open>Readers and writers\<close>

lemma read_unsafe_in_bounds [rust_simps]:
  "ptr + 2 \<le> length b \<Longrightarrow> read_u16_le_unsafe t b ptr = Ok (from_le_bytes (bytes_at b ptr 2))"
  "ptr + 8 \<le> length b \<Longrightarrow> read_u64_le_unsafe t b ptr = Ok (from_le_bytes (bytes_at b ptr 8))"
  by (simp_all add: read_u16_le_unsafe_def read_u64_le_unsafe_def rust_simps
      to_le_from_ne_bytes length_bytes_at)

lemma write_unsafe_in_bounds [rust_simps]:
  "ptr + 2 \<le> length b \<Longrightarrow> write_u16_le_unsafe ptr v b = (Ok (), patch b ptr (to_le_bytes v))"
  "ptr + 8 \<le> length b \<Longrightarrow> write_u64_le_unsafe ptr w b = (Ok (), patch b ptr (to_le_bytes w))"
  by (simp_all add: write_u16_le_unsafe_def write_u64_le_unsafe_def rust_simps)

lemma raw_codec_UB:
  "length b < ptr + 2 \<Longrightarrow> read_u16_le_unsafe t b ptr = UB"
  "length b < ptr + 2 \<Longrightarrow> write_u16_le_unsafe ptr v b = (UB, b)"
  by (simp_all add: read_u16_le_unsafe_def write_u16_le_unsafe_def ptr_read_def ptr_write_def)

subsection \<open>Nibbles\<close>

lemma bit_masks [simp]:
  "bit PAGE_TYPE_MASK n \<longleftrightarrow> n < 4"
  "bit SUBTYPE_MASK n \<longleftrightarrow> 4 \<le> n \<and> n < 8"
proof -
  have low: "PAGE_TYPE_MASK = mask 4"
    by (simp add: PAGE_TYPE_MASK_def mask_eq_exp_minus_1)
  show "bit PAGE_TYPE_MASK n \<longleftrightarrow> n < 4"
    unfolding low by (auto simp: bit_simps)
  have high: "SUBTYPE_MASK = push_bit 4 (mask 4)"
    by (simp add: SUBTYPE_MASK_def mask_eq_exp_minus_1 push_bit_eq_mult)
  show "bit SUBTYPE_MASK n \<longleftrightarrow> 4 \<le> n \<and> n < 8"
    unfolding high by (auto simp: bit_simps)
qed

lemmas page_type_defs =
  PageType_new_def page_type_def page_sub_type_def PageType_set_page_type_def
  set_subtype_page_bits_def Let_def

lemma page_type_new: "page_type (PageType_new pt pst) = pt AND PAGE_TYPE_MASK"
  by (rule bit_eqI) (auto simp: page_type_defs bit_simps)

lemma page_sub_type_new: "page_sub_type (PageType_new pt pst) = pst AND PAGE_TYPE_MASK"
  by (rule bit_eqI) (auto simp: page_type_defs bit_simps)

lemma set_page_type_nibbles:
  "page_type (PageType_set_page_type x pt) = pt AND PAGE_TYPE_MASK"
  "page_sub_type (PageType_set_page_type x pt) = page_sub_type x"
  by (rule bit_eqI, auto simp: page_type_defs bit_simps)+

lemma set_subtype_nibbles:
  "page_sub_type (set_subtype_page_bits x pst) = pst AND PAGE_TYPE_MASK"
  "page_type (set_subtype_page_bits x pst) = page_type x"
  by (rule bit_eqI, auto simp: page_type_defs bit_simps)+

lemma set_subtype_kind: "page_kind (set_subtype_page_bits x pst) = page_kind x"
  by (simp add: page_kind_def set_subtype_nibbles)

lemma low_nibble_idem: "v \<le> 15 \<Longrightarrow> v AND PAGE_TYPE_MASK = (v :: u8)"
proof -
  assume "v \<le> 15"
  then have "unat v < 2 ^ 4" by (simp add: word_le_nat_alt)
  then have "take_bit 4 v = v"
    by (metis take_bit_nat_eq_self_iff unsigned_take_bit_eq word_eq_iff_unsigned)
  moreover have "PAGE_TYPE_MASK = mask 4"
    by (simp add: PAGE_TYPE_MASK_def mask_eq_exp_minus_1)
  ultimately show ?thesis by (simp add: take_bit_eq_mask)
qed

lemma low_nibble_le: "v AND PAGE_TYPE_MASK \<le> (15 :: u8)"
  by (simp add: PAGE_TYPE_MASK_def word_and_le1)

lemma page_sub_type_le: "page_sub_type x \<le> 15"
proof -
  have "page_sub_type x = page_sub_type x AND PAGE_TYPE_MASK"
    by (rule bit_eqI) (auto simp: page_type_defs bit_simps)
  then show ?thesis by (metis low_nibble_le)
qed

subsection \<open>Page kinds\<close>

lemmas kind_consts =
  PT_UNDEFINED_def PT_HEAP_def PT_INDEX_INTERNAL_def PT_INDEX_MINI_LEAF_def PT_INDEX_LEAF_def
  PT_META_def PT_FREE_def

lemma kind_from_into: "PageKind_from_u8 (PageKind_into_u8 k) = Some k"
  by (cases k) (simp_all add: PageKind_from_u8_def kind_consts)

lemma kind_into_le: "PageKind_into_u8 k \<le> 15"
  by (cases k) (simp_all add: kind_consts)

lemma page_kind_from_kind: "page_kind (PageType_from_u8 (PageKind_into_u8 k)) = k"
  by (simp add: page_kind_def page_type_def PageType_from_u8_def low_nibble_idem kind_into_le
      kind_from_into)

subsection \<open>Flags\<close>

lemmas flag_consts =
  NO_STATE_def FAST_PARENT_def DELETED_def HALF_DELETED_def INCOMPLETE_SPLIT_def HAS_OVERFLOW_def

fun state_index :: "PageStates \<Rightarrow> nat option" where
  "state_index NoState = None"
| "state_index FastParent = Some 0"
| "state_index Deleted = Some 1"
| "state_index HalfDeleted = Some 2"
| "state_index IncompleteSplit = Some 3"
| "state_index HasOverflow = Some 4"

lemma state_bit_push: "state_bit s = (case state_index s of None \<Rightarrow> 0 | Some k \<Rightarrow> push_bit k 1)"
  by (cases s) (simp_all add: flag_consts push_bit_eq_mult)

lemma state_index_bound: "state_index s = Some n \<Longrightarrow> n < 8"
  by (cases s) auto

lemma state_index_inj: "state_index s = Some n \<Longrightarrow> state_index s' = Some n \<Longrightarrow> s = s'"
  by (cases s; cases s') auto

lemma state_index_None: "state_index s = None \<longleftrightarrow> s = NoState"
  by (cases s) auto

lemma bit_state_bit: "bit (state_bit s) n \<longleftrightarrow> state_index s = Some n"
  unfolding state_bit_push
  by (cases "state_index s") (auto simp: bit_simps dest: state_index_bound)

lemma has_flag_iff_bit: "has_flag f s \<longleftrightarrow> (\<exists>n. state_index s = Some n \<and> bit (pf_raw f) n)"
proof -
  have "has_flag f s \<longleftrightarrow> (\<exists>n. bit (pf_raw f AND state_bit s) n)"
    unfolding has_flag_def by (metis bit_0_eq bit_eqI bot_apply bot_bool_def)
  then show ?thesis by (auto simp: bit_and_iff bit_state_bit)
qed

lemma has_flag_set_flag: "has_flag (set_flag f s) s' \<longleftrightarrow> has_flag f s' \<or> (s' = s \<and> s \<noteq> NoState)"
  unfolding has_flag_iff_bit set_flag_def
  by (auto simp: bit_or_iff bit_state_bit simp flip: state_index_None dest: state_index_inj)

lemma has_flag_clear_flag: "has_flag (clear_flag f s) s' \<longleftrightarrow> has_flag f s' \<and> s' \<noteq> s"
  unfolding has_flag_iff_bit clear_flag_def
  by (auto simp: bit_and_iff bit_not_iff bit_state_bit dest: state_index_inj state_index_bound)

section \<open>Properties\<close>

text \<open>
  The raw little-endian codec. On a little-endian and on a big-endian machine, a
  \<^verbatim>\<open>u16\<close> written with \<^verbatim>\<open>write_u16_le_unsafe\<close> inside a block is read back by
  \<^verbatim>\<open>read_u16_le_unsafe\<close>, every field that does not overlap it keeps its value, and the
  block keeps its length.
\<close>

theorem u16_codec_roundtrip:
  assumes "ptr + 2 \<le> length b"
  shows "\<exists>b'. write_u16_le_unsafe ptr v b = (Ok (), b') \<and> length b' = length b \<and>
           read_u16_le_unsafe t b' ptr = Ok v \<and>
           (\<forall>q. q + 2 \<le> ptr \<or> ptr + 2 \<le> q \<longrightarrow>
              read_u16_le_unsafe t b' q = read_u16_le_unsafe t b q)"
proof (intro exI conjI allI impI)
  show "write_u16_le_unsafe ptr v b = (Ok (), patch b ptr (to_le_bytes v))"
    using assms by (simp add: rust_simps)
  show len: "length (patch b ptr (to_le_bytes v)) = length b"
    using assms by (simp add: length_patch)
  show "read_u16_le_unsafe t (patch b ptr (to_le_bytes v)) ptr = Ok v"
    using assms len by (simp add: rust_simps u16_codec.get_put_same)
  fix q assume "q + 2 \<le> ptr \<or> ptr + 2 \<le> q"
  then show "read_u16_le_unsafe t (patch b ptr (to_le_bytes v)) q = read_u16_le_unsafe t b q"
    using assms len u16_codec.get_put_other [OF assms, of q 2 v]
    by (cases "q + 2 \<le> length b") (auto simp: rust_simps raw_codec_UB)
qed

theorem u16_codec_roundtrip_witness:
  "\<exists>b'. write_u16_le_unsafe 1 0x1234 [1, 2, 3, 4 :: u8] = ((Ok () :: (unit, unit) outcome), b') \<and>
     length b' = 4 \<and>
     read_u16_le_unsafe \<lparr>debug = True, big_endian = True\<rparr> b' 1 = (Ok 0x1234 :: (unit, u16) outcome)"
  using u16_codec_roundtrip [where ptr = 1 and b = "[1, 2, 3, 4]" and v = "0x1234" and 'a = unit and
      t = "\<lparr>debug = True, big_endian = True\<rparr>" and 'b = unit] by auto


text \<open>
  C33: The page-type byte is a pair of independent nibbles. The kind written by
  \<^verbatim>\<open>PageType::new\<close> or \<^verbatim>\<open>set_page_type\<close> is the kind read back, each setter leaves the other
  nibble alone, values are cut to four bits, and the two nibbles determine the byte.
\<close>

theorem page_type_byte_fields:
  "page_kind (PageType_new (PageKind_into_u8 k) s) = k \<and>
   page_sub_type (PageType_new (PageKind_into_u8 k) s) = s AND 15 \<and>
   page_kind (PageType_set_page_type x (PageKind_into_u8 k)) = k \<and>
   page_sub_type (PageType_set_page_type x (PageKind_into_u8 k)) = page_sub_type x \<and>
   page_sub_type (set_subtype_page_bits x s) = s AND 15 \<and>
   page_kind (set_subtype_page_bits x s) = page_kind x \<and>
   PageType_new (page_type x) (page_sub_type x) = x \<and>
   PageType_from_u8 (PageType_into_u8 x) = x"
proof -
  have "pt_raw (PageType_new (page_type x) (page_sub_type x)) = pt_raw x"
    by (rule bit_eqI) (auto simp: page_type_defs bit_simps)
  then have "PageType_new (page_type x) (page_sub_type x) = x" by (simp add: PageType.expand)
  moreover have "s AND PAGE_TYPE_MASK = s AND 15" by (simp add: PAGE_TYPE_MASK_def)
  ultimately show ?thesis
    by (simp add: page_kind_def page_type_new page_sub_type_new set_page_type_nibbles set_subtype_nibbles
        low_nibble_idem [OF kind_into_le] kind_from_into PageType_from_u8_def PageType_into_u8_def)
qed

text \<open>The states a flags byte holds.\<close>

definition flags_of :: "PageFlags \<Rightarrow> PageStates set" where
  "flags_of f = {s. has_flag f s}"

lemma flags_of_enum [code]: "flags_of f = set (filter (has_flag f) enum_class.enum)"
  by (simp add: flags_of_def enum_UNIV)

text \<open>
  C34: The flags byte implements a set of page states: a new byte holds its one state,
  \<^verbatim>\<open>set_flag\<close> inserts, \<^verbatim>\<open>clear_flag\<close> removes, \<^verbatim>\<open>NoState\<close> is no element, and the bit of a state is
  decoded to that state again.
\<close>

theorem flags_byte_is_set:
  "flags_of (PageFlags_new s) = {s} - {NoState} \<and>
   flags_of (set_flag f s) = flags_of f \<union> ({s} - {NoState}) \<and>
   flags_of (clear_flag f s) = flags_of f - {s} \<and>
   PageStates_from_u8 (state_bit s) = (if s = NoState then None else Some s)"
proof -
  have "has_flag (PageFlags_new s) s' \<longleftrightarrow> s' = s \<and> s \<noteq> NoState" for s'
    using has_flag_set_flag [of "PageFlags 0" s s']
    by (simp add: has_flag_def set_flag_def PageFlags_new_def)
  then have "flags_of (PageFlags_new s) = {s} - {NoState}" by (auto simp: flags_of_def)
  moreover have "PageStates_from_u8 (state_bit s) = (if s = NoState then None else Some s)"
    by (cases s) (simp_all add: PageStates_from_u8_def flag_consts)
  ultimately show ?thesis
    by (auto simp: flags_of_def has_flag_set_flag has_flag_clear_flag)
qed

text \<open>
  \<^verbatim>\<open>extract_all_flags\<close> lists every state that is set except \<^verbatim>\<open>HalfDeleted\<close>, for which it pushes
  \<^verbatim>\<open>Deleted\<close>: a half-deleted page is reported as deleted, and \<^verbatim>\<open>HalfDeleted\<close> is never reported.
\<close>

theorem extract_all_flags_result:
  "set (extract_all_flags f) =
     (flags_of f - {HalfDeleted}) \<union> (if HalfDeleted \<in> flags_of f then {Deleted} else {})"
proof -
  have no: "\<not> has_flag f NoState" by (simp add: has_flag_iff_bit)
  have "s \<in> set (extract_all_flags f) \<longleftrightarrow>
      s \<in> (flags_of f - {HalfDeleted}) \<union> (if HalfDeleted \<in> flags_of f then {Deleted} else {})" for s
    using no by (cases s) (simp_all add: extract_all_flags_def flags_of_def Let_def)
  then show ?thesis by blast
qed

text \<open>
  C35: File offsets of pages. Below page id \<^verbatim>\<open>2^52\<close> the offset is exact, so two pages never share
  a byte of the file; from there on the multiplication overflows: a debug build panics and a
  release build returns the offset of another page.
\<close>

theorem to_offset_pages_disjoint:
  assumes "unat (pid p) < 2 ^ 52" and "p \<noteq> q"
  shows "if unat (pid q) < 2 ^ 52
         then \<exists>a b. to_offset t p = (Ok a :: ('e, u64) outcome) \<and> to_offset t q = (Ok b :: ('e, u64) outcome) \<and>
                {unat a ..< unat a + 4096} \<inter> {unat b ..< unat b + 4096} = {}
         else to_offset t q = (if debug t then Panic else to_offset t (PageID (take_bit 52 (pid q))) :: ('e, u64) outcome)"
proof -
  have exact: "unat (pid r * 4096) = unat (pid r) * 4096" if "unat (pid r) < 2 ^ 52" for r
    using that by (simp add: unat_word_ariths)
  have ne: "unat (pid p) \<noteq> unat (pid q)"
    using assms(2) by (metis PageID.expand unsigned_word_eqI)
  show ?thesis
  proof (cases "unat (pid q) < 2 ^ 52")
    case True
    have "{unat (pid p) * 4096 ..< unat (pid p) * 4096 + 4096} \<inter>
          {unat (pid q) * 4096 ..< unat (pid q) * 4096 + 4096} = {}"
      using ne by (auto simp: neq_iff)
    then show ?thesis using True assms(1) by (simp add: to_offset_def exact)
  next
    case False
    have small: "unat (take_bit 52 (pid q)) = unat (pid q) mod 2 ^ 52"
      by (metis take_bit_eq_mod unsigned_take_bit_eq)
    have "unat (take_bit 52 (pid q) * 4096) = unat (pid q * 4096)"
      using small by (simp add: unat_word_ariths mult_mod_left)
    then have "take_bit 52 (pid q) * 4096 = pid q * 4096" by (rule unsigned_word_eqI)
    moreover have "unat (pid q) mod 2 ^ 52 < 2 ^ 52" by simp
    ultimately show ?thesis using False small by (simp add: to_offset_def)
  qed
qed

theorem to_offset_pages_disjoint_witness:
  "to_offset \<lparr>debug = False, big_endian = False\<rparr> (PageID (2 ^ 52 + 3)) =
     (to_offset \<lparr>debug = False, big_endian = False\<rparr> (PageID 3) :: (unit, u64) outcome)"
  using to_offset_pages_disjoint [of "PageID 1" "PageID (2 ^ 52 + 3)" "\<lparr>debug = False, big_endian = False\<rparr>",
      where 'e = unit]
  by simp

end
