(* ===== verification/Slotted_Page.thy ===== *)
theory Slotted_Page
  imports Page_Mod
begin

text \<open>
  The raw slotted page, \<^verbatim>\<open>page/slotted_page.rs\<close>: a block of 4096 bytes laid out as
  \<^verbatim>\<open>header | slot array growing upward | free space | cells growing downward | special area\<close>.

  \<^verbatim>\<open>SlottedPageMut\<close> and \<^verbatim>\<open>SlottedPageRef\<close> each hold one reference to the page, so a method is
  modelled on the bytes referred to: a \<^verbatim>\<open>&mut self\<close> method is an \<open>op\<close> on them, a \<^verbatim>\<open>&self\<close>
  method reads them. The read-only view has its own copies of the readers, which are modelled
  separately (prefix \<open>ref_\<close>). Every raw pointer access keeps its bounds, every subtraction its
  underflow, every \<^verbatim>\<open>assert!\<close> and \<^verbatim>\<open>debug_assert!\<close> its panic.
\<close>

section \<open>Layout constants\<close>

definition PAGE_SIZE :: usize where "PAGE_SIZE = 4096"
definition PAGE_SIZE_U16 :: u16 where "PAGE_SIZE_U16 = of_nat PAGE_SIZE"
definition ENTRY_SIZE :: usize where "ENTRY_SIZE = 4"
definition ENTRY_SIZE_U16 :: u16 where "ENTRY_SIZE_U16 = of_nat ENTRY_SIZE"

definition LSN_OFFSET :: usize where "LSN_OFFSET = 0"
definition LSN_SIZE :: usize where "LSN_SIZE = 8"
definition CHECKSUM_OFFSET :: usize where "CHECKSUM_OFFSET = LSN_OFFSET + LSN_SIZE"
definition CHECKSUM_SIZE :: usize where "CHECKSUM_SIZE = 2"
definition PAGE_TYPE_OFFSET :: usize where "PAGE_TYPE_OFFSET = CHECKSUM_OFFSET + CHECKSUM_SIZE"
definition PAGE_TYPE_SIZE :: usize where "PAGE_TYPE_SIZE = 1"
definition FLAGS_OFFSET :: usize where "FLAGS_OFFSET = PAGE_TYPE_OFFSET + PAGE_TYPE_SIZE"
definition FLAGS_SIZE :: usize where "FLAGS_SIZE = 1"
definition FREE_START_OFFSET :: usize where "FREE_START_OFFSET = FLAGS_OFFSET + FLAGS_SIZE"
definition FREE_START_SIZE :: usize where "FREE_START_SIZE = 2"
definition FREE_END_OFFSET :: usize where "FREE_END_OFFSET = FREE_START_OFFSET + FREE_START_SIZE"
definition FREE_END_SIZE :: usize where "FREE_END_SIZE = 2"
definition SPECIAL_OFFSET :: usize where "SPECIAL_OFFSET = FREE_END_OFFSET + FREE_END_SIZE"
definition SPECIAL_SIZE :: usize where "SPECIAL_SIZE = 2"
definition SIZE_VERSION_OFFSET :: usize where "SIZE_VERSION_OFFSET = SPECIAL_OFFSET + SPECIAL_SIZE"
definition SIZE_VERSION_SIZE :: usize where "SIZE_VERSION_SIZE = 2"
definition TXID_OFFSET :: usize where "TXID_OFFSET = SIZE_VERSION_OFFSET + SIZE_VERSION_SIZE"
definition TXID_SIZE :: usize where "TXID_SIZE = 4"
definition HEADER_SIZE :: usize where "HEADER_SIZE = TXID_OFFSET + TXID_SIZE"
definition HEADER_SIZE_U16 :: u16 where "HEADER_SIZE_U16 = of_nat HEADER_SIZE"

lemmas layout_defs =
  PAGE_SIZE_def PAGE_SIZE_U16_def ENTRY_SIZE_def LSN_OFFSET_def LSN_SIZE_def CHECKSUM_OFFSET_def
  CHECKSUM_SIZE_def PAGE_TYPE_OFFSET_def PAGE_TYPE_SIZE_def FLAGS_OFFSET_def FLAGS_SIZE_def
  FREE_START_OFFSET_def FREE_START_SIZE_def FREE_END_OFFSET_def FREE_END_SIZE_def
  SPECIAL_OFFSET_def SPECIAL_SIZE_def SIZE_VERSION_OFFSET_def SIZE_VERSION_SIZE_def
  TXID_OFFSET_def TXID_SIZE_def HEADER_SIZE_def HEADER_SIZE_U16_def

datatype PageError =
    EmptySlotDir
  | SlotIDOutOfBounds
  | CorruptCell
  | SpecialOffsetIsZero
  | SlotIndexNotInRange
  | NoContigiousSpace
  | NotEnoughFreeSpace
  | InvalidFreeEnd
  | InvalidFreeStart

record SlotEntry =
  se_offset :: u16
  se_length :: u16

definition SlotEntry_new :: "u16 \<Rightarrow> u16 \<Rightarrow> SlotEntry" where
  "SlotEntry_new off len = \<lparr>se_offset = off, se_length = len\<rparr>"

text \<open>A pointer into the page is an offset from its first byte.\<close>

record SlotRef =
  sr_ptr :: usize
  sr_size :: usize

record SlotDirIter =
  it_ptr :: usize
  it_size :: usize
  it_pos :: usize

text \<open>The two views borrow the bytes of a page and have nothing else.\<close>

type_synonym SlottedPageMut = RawPage
type_synonym SlottedPageRef = RawPage

type_synonym 'a page_op = "(SlottedPageMut, PageError, 'a) op"

section \<open>The mutable view\<close>

subsection \<open>Header\<close>

definition from_bytes :: "RawPage \<Rightarrow> SlottedPageMut" where
  "from_bytes bytes = bytes"

definition wipe_page :: "unit page_op" where
  "wipe_page p = (Ok (), replicate (length p) 0)"

definition set_page_type :: "u8 \<Rightarrow> unit page_op" where
  "set_page_type pt = index_write PAGE_TYPE_OFFSET pt"

definition get_page_type :: "RawPage \<Rightarrow> ('e, u8) outcome" where
  "get_page_type p = index_read p PAGE_TYPE_OFFSET"

definition init_new :: "u8 \<Rightarrow> unit page_op" where
  "init_new pt =
     op_bind (index_write PAGE_TYPE_OFFSET (PageKind_as_u8 Undefined)) (\<lambda>_.
     op_bind (slice_write FREE_START_OFFSET (FREE_START_OFFSET + FREE_START_SIZE)
                (to_le_bytes HEADER_SIZE_U16)) (\<lambda>_.
     op_bind (slice_write FREE_END_OFFSET (FREE_END_OFFSET + FREE_END_SIZE)
                (to_le_bytes (of_nat PAGE_SIZE :: u16))) (\<lambda>_.
     set_page_type pt)))"

definition free_start :: "target \<Rightarrow> RawPage \<Rightarrow> ('e, usize) outcome" where
  "free_start t p = obind (read_u16_le_unsafe t p FREE_START_OFFSET) (\<lambda>w. Ok (unat w))"

definition free_end :: "target \<Rightarrow> RawPage \<Rightarrow> ('e, usize) outcome" where
  "free_end t p = obind (read_u16_le_unsafe t p FREE_END_OFFSET) (\<lambda>w. Ok (unat w))"

definition free_contiguous_space :: "target \<Rightarrow> RawPage \<Rightarrow> ('e, usize) outcome" where
  "free_contiguous_space t p =
     obind (free_end t p) (\<lambda>fe. obind (free_start t p) (\<lambda>fs. usize_sub t fe fs))"

definition free_fragmented_space :: "RawPage \<Rightarrow> usize" where
  "free_fragmented_space p = 0"

definition set_free_start :: "target \<Rightarrow> usize \<Rightarrow> unit page_op" where
  "set_free_start t off =
     op_bind (op_out (debug_assert t (off \<ge> HEADER_SIZE))) (\<lambda>_.
     op_bind (op_out (debug_assert t (off \<le> PAGE_SIZE))) (\<lambda>_.
     write_u16_le_unsafe FREE_START_OFFSET (of_nat off)))"

definition increment_free_start :: "target \<Rightarrow> usize \<Rightarrow> usize page_op" where
  "increment_free_start t n =
     op_bind (op_read (free_start t)) (\<lambda>cur_fs.
     op_bind (op_out (usize_add t cur_fs n)) (\<lambda>new_fs.
     op_bind (op_read (free_end t)) (\<lambda>fe.
     op_bind (op_out (debug_assert t (new_fs \<le> fe))) (\<lambda>_.
     op_bind (op_out (debug_assert t (new_fs \<ge> HEADER_SIZE))) (\<lambda>_.
     if new_fs < HEADER_SIZE then op_err InvalidFreeStart
     else op_bind (write_u16_le_unsafe FREE_START_OFFSET (of_nat new_fs)) (\<lambda>_.
          op_ret new_fs))))))"

definition set_free_end :: "target \<Rightarrow> usize \<Rightarrow> unit page_op" where
  "set_free_end t off =
     op_bind (op_out (debug_assert t (off \<ge> HEADER_SIZE))) (\<lambda>_.
     op_bind (op_read (free_start t)) (\<lambda>fs.
     if off < fs \<or> off < HEADER_SIZE then op_err InvalidFreeEnd
     else write_u16_le_unsafe FREE_END_OFFSET (of_nat off)))"

definition get_special_offset :: "target \<Rightarrow> RawPage \<Rightarrow> ('e, u16) outcome" where
  "get_special_offset t p = read_u16_le_unsafe t p SPECIAL_OFFSET"

definition set_special_offset :: "u16 \<Rightarrow> unit page_op" where
  "set_special_offset special =
     op_bind (op_out (rust_assert (special < PAGE_SIZE_U16))) (\<lambda>_.
     write_u16_le_unsafe SPECIAL_OFFSET (PAGE_SIZE_U16 - special))"

definition set_flags :: "u8 \<Rightarrow> unit page_op" where
  "set_flags flags = index_write FLAGS_OFFSET flags"

definition set_lsn :: "u64 \<Rightarrow> unit page_op" where
  "set_lsn lsn = write_u64_le_unsafe LSN_OFFSET lsn"

subsection \<open>Slot directory\<close>

definition SlotRef_new :: "usize \<Rightarrow> usize \<Rightarrow> SlotRef" where
  "SlotRef_new start sz = \<lparr>sr_ptr = start, sr_size = sz\<rparr>"

definition slot_count :: "SlotRef \<Rightarrow> usize" where
  "slot_count sd = (if sr_size sd = 0 then 0 else sr_size sd div ENTRY_SIZE)"

definition SlotDirIter_new :: "usize \<Rightarrow> usize \<Rightarrow> SlotDirIter" where
  "SlotDirIter_new ptr sz = \<lparr>it_ptr = ptr, it_size = sz, it_pos = 0\<rparr>"

definition slot_iter :: "SlotRef \<Rightarrow> SlotDirIter" where
  "slot_iter sd = SlotDirIter_new (sr_ptr sd) (sr_size sd)"

definition iter_slot_count :: "SlotDirIter \<Rightarrow> usize" where
  "iter_slot_count it = it_size it div ENTRY_SIZE"

text \<open>
  \<open>it_pos\<close> is below \<open>it_size div 4\<close> where it is used, so neither \<^verbatim>\<open>self.pos * ENTRY_SIZE\<close> nor
  \<^verbatim>\<open>self.pos += 1\<close> can overflow a \<^verbatim>\<open>usize\<close>.
\<close>

definition next_entry ::
    "target \<Rightarrow> RawPage \<Rightarrow> SlotDirIter \<Rightarrow> ('e, SlotEntry option \<times> SlotDirIter) outcome" where
  "next_entry t p it =
     (if it_pos it \<ge> iter_slot_count it then Ok (None, it)
      else let start = it_ptr it + it_pos it * ENTRY_SIZE in
           obind (read_u16_le_unsafe t p start) (\<lambda>off.
           obind (read_u16_le_unsafe t p (start + 2)) (\<lambda>len.
           Ok (Some \<lparr>se_offset = off, se_length = len\<rparr>, it\<lparr>it_pos := it_pos it + 1\<rparr>))))"

definition slot_dir_ref :: "target \<Rightarrow> RawPage \<Rightarrow> ('e, SlotRef) outcome" where
  "slot_dir_ref t p =
     obind (free_start t p) (\<lambda>fs.
     obind (rust_assert (fs \<ge> HEADER_SIZE)) (\<lambda>_.
     obind (usize_sub t fs HEADER_SIZE) (\<lambda>sz.
     Ok (SlotRef_new HEADER_SIZE sz))))"

definition append_slot_entry :: "target \<Rightarrow> u16 \<Rightarrow> u16 \<Rightarrow> unit page_op" where
  "append_slot_entry t sz off =
     op_bind (op_read (free_start t)) (\<lambda>fs.
     op_bind (op_read (free_end t)) (\<lambda>fe.
     op_bind (op_out (usize_sub t fe fs)) (\<lambda>room.
     if room < ENTRY_SIZE then op_err NotEnoughFreeSpace
     else op_bind (ptr_write fs (to_le_bytes off)) (\<lambda>_.
          op_bind (ptr_write (fs + 2) (to_le_bytes sz)) (\<lambda>_.
          op_bind (increment_free_start t ENTRY_SIZE) (\<lambda>_.
          op_ret ()))))))"

definition insert_slot_entry_at_index :: "target \<Rightarrow> usize \<Rightarrow> SlotEntry \<Rightarrow> unit page_op" where
  "insert_slot_entry_at_index t idx entry =
     op_bind (op_read (free_start t)) (\<lambda>old_fs.
     op_bind (op_read (free_end t)) (\<lambda>fe.
     op_bind (op_out (usize_sub t fe old_fs)) (\<lambda>room.
     if room < ENTRY_SIZE then op_err NotEnoughFreeSpace
     else op_bind (op_out (usize_sub t old_fs HEADER_SIZE)) (\<lambda>dir_size.
     let slot_count = dir_size div ENTRY_SIZE in
     if idx > slot_count then op_err SlotIndexNotInRange
     else if idx = slot_count then append_slot_entry t (se_length entry) (se_offset entry)
     else op_bind (op_out (usize_mul t idx ENTRY_SIZE)) (\<lambda>idx_bytes.
          op_bind (op_out (usize_add t HEADER_SIZE idx_bytes)) (\<lambda>index_offset.
          op_bind (ptr_copy index_offset (index_offset + ENTRY_SIZE)
                     ((slot_count - idx) * ENTRY_SIZE)) (\<lambda>_.
          op_bind (ptr_write index_offset (to_le_bytes (se_offset entry))) (\<lambda>_.
          op_bind (ptr_write (index_offset + 2) (to_le_bytes (se_length entry))) (\<lambda>_.
          op_bind (increment_free_start t ENTRY_SIZE) (\<lambda>_.
          op_ret ()))))))))))"

subsection \<open>Special area\<close>

definition get_special_ref :: "target \<Rightarrow> RawPage \<Rightarrow> (PageError, block) outcome" where
  "get_special_ref t p =
     obind (get_special_offset t p) (\<lambda>w.
     let s_offset = unat w in
     if s_offset = 0 then Err SpecialOffsetIsZero
     else obind (usize_sub t PAGE_SIZE s_offset) (\<lambda>sz.
          obind (rust_assert (sz \<le> PAGE_SIZE)) (\<lambda>_.
          slice_range p s_offset (s_offset + sz))))"

text \<open>
  The mutable slice is represented by the range it borrows; \<^verbatim>\<open>&mut self.bytes[a..b]\<close> checks
  the range as reading it does.
\<close>

definition get_special_mut :: "target \<Rightarrow> RawPage \<Rightarrow> (PageError, usize \<times> usize) outcome" where
  "get_special_mut t p =
     obind (get_special_offset t p) (\<lambda>w.
     let s_offset = unat w in
     if s_offset = 0 then Err SpecialOffsetIsZero
     else obind (usize_sub t PAGE_SIZE s_offset) (\<lambda>sz.
          obind (rust_assert (sz \<le> PAGE_SIZE)) (\<lambda>_.
          obind (slice_range p s_offset (s_offset + sz)) (\<lambda>_.
          Ok (s_offset, s_offset + sz)))))"

subsection \<open>Cells\<close>

definition add_cell_append_slot_entry :: "target \<Rightarrow> block \<Rightarrow> unit page_op" where
  "add_cell_append_slot_entry t cell =
     op_bind (op_read (free_start t)) (\<lambda>fs.
     op_bind (op_read (free_end t)) (\<lambda>fe.
     op_bind (op_out (usize_add t (length cell) ENTRY_SIZE)) (\<lambda>need.
     op_bind (op_out (usize_sub t fe fs)) (\<lambda>room.
     if need > room then op_err NoContigiousSpace
     else op_bind (op_out (usize_sub t fe (length cell))) (\<lambda>cell_start_offset.
          op_bind (op_out (rust_assert (length cell \<le> 65535))) (\<lambda>_.
          op_bind (op_out (rust_assert (cell_start_offset \<le> 65535))) (\<lambda>_.
          op_bind (append_slot_entry t (of_nat (length cell)) (of_nat cell_start_offset)) (\<lambda>_.
          op_bind (ptr_write cell_start_offset cell) (\<lambda>_.
          op_bind (set_free_end t cell_start_offset) (\<lambda>_.
          op_ret ()))))))))))"

definition add_cell_at_slot_entry_index :: "target \<Rightarrow> usize \<Rightarrow> block \<Rightarrow> unit page_op" where
  "add_cell_at_slot_entry_index t index cell =
     op_bind (op_read (free_start t)) (\<lambda>fs.
     op_bind (op_read (free_end t)) (\<lambda>fe.
     op_bind (op_out (usize_add t (length cell) ENTRY_SIZE)) (\<lambda>need.
     op_bind (op_out (usize_sub t fe fs)) (\<lambda>room.
     if need > room then op_err NoContigiousSpace
     else op_bind (op_out (usize_sub t fe (length cell))) (\<lambda>cell_start_offset.
          op_bind (op_out (rust_assert (length cell \<le> 65535))) (\<lambda>_.
          op_bind (op_out (rust_assert (cell_start_offset \<le> 65535))) (\<lambda>_.
          op_bind (insert_slot_entry_at_index t index
                     (SlotEntry_new (of_nat cell_start_offset) (of_nat (length cell)))) (\<lambda>_.
          op_bind (ptr_write cell_start_offset cell) (\<lambda>_.
          op_bind (set_free_end t cell_start_offset) (\<lambda>_.
          op_ret ()))))))))))"

definition cell_slice_from_id :: "target \<Rightarrow> RawPage \<Rightarrow> SlotID \<Rightarrow> (PageError, block) outcome" where
  "cell_slice_from_id t p slot_id =
     obind (slot_dir_ref t p) (\<lambda>slot_dir.
     let count = slot_count slot_dir in
     if count = 0 then Err EmptySlotDir
     else let idx = unat (sid slot_id) in
     if idx \<ge> count then Err SlotIDOutOfBounds
     else let base = sr_ptr slot_dir + idx * ENTRY_SIZE in
     obind (read_u16_le_unsafe t p base) (\<lambda>off.
     obind (read_u16_le_unsafe t p (base + 2)) (\<lambda>len.
     let cell_end = unat off + unat len in
     if cell_end > PAGE_SIZE then Err CorruptCell else slice_range p (unat off) cell_end)))"

definition cell_slice_from_entry :: "target \<Rightarrow> RawPage \<Rightarrow> SlotEntry \<Rightarrow> ('e, block) outcome" where
  "cell_slice_from_entry t p se =
     (let off = unat (se_offset se); len = unat (se_length se) in
      obind (debug_assert t (off + len < PAGE_SIZE)) (\<lambda>_.
      slice_range p off (off + len)))"

section \<open>The read-only view\<close>

definition ref_from_bytes :: "RawPage \<Rightarrow> SlottedPageRef" where
  "ref_from_bytes bytes = bytes"

definition ref_get_page_type :: "RawPage \<Rightarrow> ('e, u8) outcome" where
  "ref_get_page_type p = index_read p PAGE_TYPE_OFFSET"

definition ref_free_start :: "target \<Rightarrow> RawPage \<Rightarrow> ('e, usize) outcome" where
  "ref_free_start t p = obind (read_u16_le_unsafe t p FREE_START_OFFSET) (\<lambda>w. Ok (unat w))"

definition ref_free_end :: "target \<Rightarrow> RawPage \<Rightarrow> ('e, usize) outcome" where
  "ref_free_end t p = obind (read_u16_le_unsafe t p FREE_END_OFFSET) (\<lambda>w. Ok (unat w))"

definition ref_free_contiguous_space :: "target \<Rightarrow> RawPage \<Rightarrow> ('e, usize) outcome" where
  "ref_free_contiguous_space t p =
     obind (ref_free_end t p) (\<lambda>fe. obind (ref_free_start t p) (\<lambda>fs. usize_sub t fe fs))"

definition ref_free_fragmented_space :: "RawPage \<Rightarrow> usize" where
  "ref_free_fragmented_space p = 0"

definition ref_get_special_offset :: "target \<Rightarrow> RawPage \<Rightarrow> ('e, u16) outcome" where
  "ref_get_special_offset t p = read_u16_le_unsafe t p SPECIAL_OFFSET"

definition get_flags :: "RawPage \<Rightarrow> ('e, u8) outcome" where
  "get_flags p = index_read p FLAGS_OFFSET"

definition get_lsn :: "target \<Rightarrow> RawPage \<Rightarrow> ('e, u64) outcome" where
  "get_lsn t p = read_u64_le_unsafe t p LSN_OFFSET"

definition ref_slot_dir_ref :: "target \<Rightarrow> RawPage \<Rightarrow> ('e, SlotRef) outcome" where
  "ref_slot_dir_ref t p =
     obind (ref_free_start t p) (\<lambda>fs.
     obind (rust_assert (fs \<ge> HEADER_SIZE)) (\<lambda>_.
     obind (usize_sub t fs HEADER_SIZE) (\<lambda>sz.
     Ok (SlotRef_new HEADER_SIZE sz))))"

definition ref_cell_slice_from_id :: "target \<Rightarrow> RawPage \<Rightarrow> SlotID \<Rightarrow> (PageError, block) outcome" where
  "ref_cell_slice_from_id t p slot_id =
     obind (ref_slot_dir_ref t p) (\<lambda>slot_dir.
     let count = slot_count slot_dir in
     if count = 0 then Err EmptySlotDir
     else let idx = unat (sid slot_id) in
     if idx \<ge> count then Err SlotIDOutOfBounds
     else let base = sr_ptr slot_dir + idx * ENTRY_SIZE in
     obind (read_u16_le_unsafe t p base) (\<lambda>off.
     obind (read_u16_le_unsafe t p (base + 2)) (\<lambda>len.
     let cell_end = unat off + unat len in
     if cell_end > PAGE_SIZE then Err CorruptCell else slice_range p (unat off) cell_end)))"

definition ref_cell_slice_from_entry :: "target \<Rightarrow> RawPage \<Rightarrow> SlotEntry \<Rightarrow> ('e, block) outcome" where
  "ref_cell_slice_from_entry t p se =
     (let off = unat (se_offset se); len = unat (se_length se) in
      obind (debug_assert t (off + len < PAGE_SIZE)) (\<lambda>_.
      slice_range p off (off + len)))"

definition special_size :: "target \<Rightarrow> RawPage \<Rightarrow> ('e, usize) outcome" where
  "special_size t p =
     obind (ref_get_special_offset t p) (\<lambda>w.
     let off = unat w in
     if off = 0 then Ok 0
     else obind (debug_assert t (off \<le> PAGE_SIZE)) (\<lambda>_. usize_sub t PAGE_SIZE off))"

definition ref_get_special_ref :: "target \<Rightarrow> RawPage \<Rightarrow> (PageError, block) outcome" where
  "ref_get_special_ref t p =
     obind (ref_get_special_offset t p) (\<lambda>w.
     let s_offset = unat w in
     if s_offset = 0 then Err SpecialOffsetIsZero
     else obind (usize_sub t PAGE_SIZE s_offset) (\<lambda>sz.
          obind (rust_assert (sz \<le> PAGE_SIZE)) (\<lambda>_.
          slice_range p s_offset (s_offset + sz))))"

text \<open>
  \<^verbatim>\<open>for se in slot_dir.iter()\<close>: the entries \<^verbatim>\<open>Iterator::next\<close> yields until it returns \<^verbatim>\<open>None\<close>.
\<close>

definition iter_next ::
    "target \<Rightarrow> RawPage \<Rightarrow> SlotDirIter \<Rightarrow> ('e, SlotEntry option \<times> SlotDirIter) outcome" where
  "iter_next t p it = next_entry t p it"

lemma next_entry_Some:
  "next_entry t p it = Ok (Some e, it') \<Longrightarrow>
   it_pos it < iter_slot_count it \<and> it' = it\<lparr>it_pos := it_pos it + 1\<rparr>"
  by (auto simp: next_entry_def obind_eq_Ok Let_def split: if_splits)

function iter_collect :: "target \<Rightarrow> RawPage \<Rightarrow> SlotDirIter \<Rightarrow> ('e, SlotEntry list) outcome" where
  "iter_collect t p it =
     (case iter_next t p it of
        Ok (None, it') \<Rightarrow> Ok []
      | Ok (Some e, it') \<Rightarrow> obind (iter_collect t p it') (\<lambda>es. Ok (e # es))
      | Err x \<Rightarrow> Err x
      | Panic \<Rightarrow> Panic
      | UB \<Rightarrow> UB)"
  by pat_completeness auto
termination
  by (relation "measure (\<lambda>(t, p, it). iter_slot_count it - it_pos it)")
    (auto simp: iter_next_def iter_slot_count_def dest!: next_entry_Some)

declare iter_collect.simps [simp del]

end
