(* ===== verification/Slotted_Cells.thy ===== *)
theory Slotted_Cells
  imports Slotted_Page
begin

text \<open>
  Correctness of the slotted page. A page is read as an abstract one: the sequence of its
  cells in slot order, the free bytes between the slot array and the cells, and the bytes no
  cell operation may touch. \<open>wf_page\<close> is the layout invariant of the header, \<open>wf_cells\<close> adds
  that every slot names a cell area, that cell areas do not overlap and that they fill the
  page from \<open>free_end\<close> to the special area.
\<close>

section \<open>What a page means\<close>

definition word_at :: "block \<Rightarrow> usize \<Rightarrow> u16" where
  "word_at b off = from_le_bytes (bytes_at b off 2)"

definition fs_of :: "RawPage \<Rightarrow> nat" where "fs_of p = unat (word_at p FREE_START_OFFSET)"
definition fe_of :: "RawPage \<Rightarrow> nat" where "fe_of p = unat (word_at p FREE_END_OFFSET)"
definition special_of :: "RawPage \<Rightarrow> nat" where "special_of p = unat (word_at p SPECIAL_OFFSET)"

definition limit_of :: "RawPage \<Rightarrow> nat" where
  "limit_of p = (if special_of p = 0 then PAGE_SIZE else special_of p)"

definition count_of :: "RawPage \<Rightarrow> nat" where
  "count_of p = (fs_of p - HEADER_SIZE) div ENTRY_SIZE"

definition entry_at :: "block \<Rightarrow> usize \<Rightarrow> SlotEntry" where
  "entry_at b off = \<lparr>se_offset = word_at b off, se_length = word_at b (off + 2)\<rparr>"

definition entries_of :: "RawPage \<Rightarrow> SlotEntry list" where
  "entries_of p = map (\<lambda>i. entry_at p (HEADER_SIZE + i * ENTRY_SIZE)) [0..<count_of p]"

definition cell_of :: "RawPage \<Rightarrow> SlotEntry \<Rightarrow> block" where
  "cell_of p se = bytes_at p (unat (se_offset se)) (unat (se_length se))"

definition cells_of :: "RawPage \<Rightarrow> block list" where
  "cells_of p = map (cell_of p) (entries_of p)"

definition areas_disjoint :: "SlotEntry \<Rightarrow> SlotEntry \<Rightarrow> bool" where
  "areas_disjoint a b \<longleftrightarrow>
     unat (se_offset a) + unat (se_length a) \<le> unat (se_offset b) \<or>
     unat (se_offset b) + unat (se_length b) \<le> unat (se_offset a)"

definition wf_page :: "RawPage \<Rightarrow> bool" where
  "wf_page p \<longleftrightarrow> length p = PAGE_SIZE \<and> HEADER_SIZE \<le> fs_of p \<and> fs_of p \<le> fe_of p \<and>
     fe_of p \<le> limit_of p \<and> limit_of p \<le> PAGE_SIZE \<and> ENTRY_SIZE dvd (fs_of p - HEADER_SIZE)"

definition entry_ok :: "RawPage \<Rightarrow> SlotEntry \<Rightarrow> bool" where
  "entry_ok p se \<longleftrightarrow> fe_of p \<le> unat (se_offset se) \<and>
     unat (se_offset se) + unat (se_length se) \<le> limit_of p"

definition wf_cells :: "RawPage \<Rightarrow> bool" where
  "wf_cells p \<longleftrightarrow> wf_page p \<and> list_all (entry_ok p) (entries_of p) \<and>
     sorted_wrt areas_disjoint (entries_of p) \<and>
     fe_of p + sum_list (map (\<lambda>se. unat (se_length se)) (entries_of p)) = limit_of p"

text \<open>The abstract page and its operations.\<close>

record abs_page =
  a_cells :: "block list"
  a_room :: nat
  a_head :: block
  a_tail :: block
  a_special :: block

definition abs_of :: "RawPage \<Rightarrow> abs_page" where
  "abs_of p = \<lparr>a_cells = cells_of p, a_room = fe_of p - fs_of p, a_head = bytes_at p 0 12,
     a_tail = bytes_at p 16 8, a_special = bytes_at p (limit_of p) (PAGE_SIZE - limit_of p)\<rparr>"

definition abs_insert :: "nat \<Rightarrow> block \<Rightarrow> abs_page \<Rightarrow> (PageError, unit) outcome \<times> abs_page" where
  "abs_insert i cell a =
     (if length cell + ENTRY_SIZE > a_room a then (Err NoContigiousSpace, a)
      else if i > length (a_cells a) then (Err SlotIndexNotInRange, a)
      else (Ok (), a\<lparr>a_cells := insert_at i cell (a_cells a),
                     a_room := a_room a - (length cell + ENTRY_SIZE)\<rparr>))"

definition abs_append :: "block \<Rightarrow> abs_page \<Rightarrow> (PageError, unit) outcome \<times> abs_page" where
  "abs_append cell a = abs_insert (length (a_cells a)) cell a"

definition abs_lookup :: "nat \<Rightarrow> abs_page \<Rightarrow> (PageError, block) outcome" where
  "abs_lookup i a =
     (if a_cells a = [] then Err EmptySlotDir
      else if i \<ge> length (a_cells a) then Err SlotIDOutOfBounds
      else Ok (a_cells a ! i))"

section \<open>Reading words\<close>

lemma word_at_patch_same:
  "off + 2 \<le> length b \<Longrightarrow> word_at (patch b off (to_le_bytes (v :: u16))) off = v"
  by (simp add: word_at_def u16_codec.get_put_same)

lemma word_at_patch_other:
  "off + length bs \<le> length b \<Longrightarrow> q + 2 \<le> off \<or> off + length bs \<le> q \<Longrightarrow>
   word_at (patch b off bs) q = word_at b q"
  by (simp add: word_at_def bytes_at_patch_disjoint)

lemma word_at_patch_inside:
  "off + length bs \<le> length b \<Longrightarrow> off \<le> q \<Longrightarrow> q + 2 \<le> off + length bs \<Longrightarrow>
   word_at (patch b off bs) q = word_at bs (q - off)"
  by (simp add: word_at_def bytes_at_patch_inside)

lemma word_at_bytes_at: "q + 2 \<le> n \<Longrightarrow> word_at (bytes_at b off n) q = word_at b (off + q)"
  by (simp add: word_at_def bytes_at_bytes_at)

lemmas word_at_simps =
  word_at_patch_same word_at_patch_other word_at_patch_inside word_at_bytes_at

lemma u16_bound: "unat (w :: u16) < 65536"
  using unsigned_less [where ?'a = nat and w = w] by simp

lemma fields_bound: "fs_of p < 65536" "fe_of p < 65536" "special_of p < 65536"
  by (simp_all add: fs_of_def fe_of_def special_of_def u16_bound)

lemma unat_of_nat_u16: "n < 65536 \<Longrightarrow> unat (of_nat n :: u16) = n"
  by (simp add: unat_of_nat)

lemma header_reads [rust_simps]:
  assumes "length p = PAGE_SIZE"
  shows "free_start t p = Ok (fs_of p)" and "free_end t p = Ok (fe_of p)"
    and "get_special_offset t p = Ok (word_at p SPECIAL_OFFSET)"
  using assms
  by (simp_all add: free_start_def free_end_def get_special_offset_def fs_of_def fe_of_def
      word_at_def rust_simps layout_defs)

lemma wf_pageD:
  assumes "wf_page p"
  shows "length p = 4096" "24 \<le> fs_of p" "fs_of p \<le> fe_of p" "fe_of p \<le> limit_of p"
    "limit_of p \<le> 4096" "fs_of p = 24 + count_of p * 4"
  using assms by (auto simp: wf_page_def count_of_def layout_defs)

lemma length_entries [simp]: "length (entries_of p) = count_of p"
  by (simp add: entries_of_def)

lemma length_cells [simp]: "length (cells_of p) = count_of p"
  by (simp add: cells_of_def)

lemma cells_Nil_iff: "cells_of p = [] \<longleftrightarrow> count_of p = 0"
  by (metis length_0_conv length_cells)

lemma nth_entries: "i < count_of p \<Longrightarrow> entries_of p ! i = entry_at p (24 + i * 4)"
  by (simp add: entries_of_def layout_defs)

section \<open>Inserting a slot entry\<close>

text \<open>The page after the pointer writes of \<open>insert_slot_entry_at_index\<close>.\<close>

definition put_entry :: "RawPage \<Rightarrow> nat \<Rightarrow> SlotEntry \<Rightarrow> RawPage" where
  "put_entry p idx e =
     (let io = 24 + idx * 4;
          p1 = patch p (io + 4) (bytes_at p io ((count_of p - idx) * 4));
          p2 = patch p1 io (to_le_bytes (se_offset e));
          p3 = patch p2 (io + 2) (to_le_bytes (se_length e))
      in patch p3 12 (to_le_bytes (of_nat (fs_of p + 4) :: u16)))"

lemma patch_Nil: "off \<le> length b \<Longrightarrow> patch b off [] = b"
  by (simp add: patch_def)

lemma increment_free_start_ok:
  assumes "length p = 4096" and "24 \<le> fs_of p" and "fs_of p + n \<le> fe_of p"
  shows "increment_free_start t n p =
     (Ok (fs_of p + n), patch p 12 (to_le_bytes (of_nat (fs_of p + n) :: u16)))"
  using assms fields_bound [of p]
  by (simp add: increment_free_start_def rust_simps layout_defs)

lemma fields_patch_body [mem_simps]:
  assumes "24 \<le> off" and "off + length bs \<le> length p"
  shows "fs_of (patch p off bs) = fs_of p" "fe_of (patch p off bs) = fe_of p"
    "special_of (patch p off bs) = special_of p" "limit_of (patch p off bs) = limit_of p"
    "count_of (patch p off bs) = count_of p"
  using assms
  by (simp_all add: fs_of_def fe_of_def special_of_def limit_of_def count_of_def word_at_simps
      layout_defs)

lemma append_slot_entry_ok:
  assumes wf: "wf_page p" and room: "4 \<le> fe_of p - fs_of p"
  shows "append_slot_entry t len off p =
    (Ok (), put_entry p (count_of p) \<lparr>se_offset = off, se_length = len\<rparr>)"
proof -
  note D = wf_pageD [OF wf]
  let ?p1 = "patch p (fs_of p) (to_le_bytes off)"
  let ?p2 = "patch ?p1 (fs_of p + 2) (to_le_bytes len)"
  have len1: "length ?p1 = 4096" using D room by (simp add: length_patch)
  have len2: "length ?p2 = 4096" using D room len1 by (simp add: length_patch)
  have f2: "fs_of ?p2 = fs_of p" "fe_of ?p2 = fe_of p"
    using D room len1 by (simp_all add: fields_patch_body)
  have inc: "increment_free_start t ENTRY_SIZE ?p2 =
      (Ok (fs_of p + 4), patch ?p2 12 (to_le_bytes (of_nat (fs_of p + 4) :: u16)))"
    using increment_free_start_ok [of ?p2 4 t] len2 f2 D room by (simp add: ENTRY_SIZE_def)
  have nil: "patch p (24 + count_of p * 4 + 4) (bytes_at p (24 + count_of p * 4) 0) = p"
    using D room by (simp add: bytes_at_def patch_Nil)
  show ?thesis
    using D room len1 len2 inc nil
    by (simp add: append_slot_entry_def rust_simps layout_defs put_entry_def Let_def)
qed

lemma insert_slot_entry_ok:
  assumes wf: "wf_page p" and room: "4 \<le> fe_of p - fs_of p" and idx: "idx \<le> count_of p"
  shows "insert_slot_entry_at_index t idx e p = (Ok (), put_entry p idx e)"
proof (cases "idx = count_of p")
  case True
  obtain off len where "e = \<lparr>se_offset = off, se_length = len\<rparr>" by (cases e) auto
  with True show ?thesis
    using append_slot_entry_ok [OF wf room, of t len off] wf_pageD(1-5) [OF wf] room
    by (simp add: insert_slot_entry_at_index_def rust_simps layout_defs count_of_def Let_def)
next
  case False
  note D = wf_pageD [OF wf]
  with idx False have idx': "idx < count_of p" by simp
  let ?io = "24 + idx * 4"
  let ?bs = "bytes_at p ?io ((count_of p - idx) * 4)"
  let ?p1 = "patch p (?io + 4) ?bs"
  let ?p2 = "patch ?p1 ?io (to_le_bytes (se_offset e))"
  let ?p3 = "patch ?p2 (?io + 2) (to_le_bytes (se_length e))"
  have bs: "length ?bs = (count_of p - idx) * 4" using D room idx' by (simp add: length_bytes_at)
  have len1: "length ?p1 = 4096" using D room bs idx' by (simp add: length_patch)
  have len2: "length ?p2 = 4096" using D room len1 idx' by (simp add: length_patch)
  have len3: "length ?p3 = 4096" using D room len2 idx' by (simp add: length_patch)
  have f1: "fs_of ?p1 = fs_of p" "fe_of ?p1 = fe_of p"
    using D room bs idx' by (simp_all add: fields_patch_body)
  have f2: "fs_of ?p2 = fs_of p" "fe_of ?p2 = fe_of p"
    using D room len1 idx' f1 by (simp_all add: fields_patch_body)
  have f3: "fs_of ?p3 = fs_of p" "fe_of ?p3 = fe_of p"
    using D room len2 idx' f2 by (simp_all add: fields_patch_body)
  have cnt: "(fs_of p - 24) div 4 = count_of p" by (simp add: count_of_def layout_defs)
  have cpy: "ptr_copy ?io (?io + 4) ((count_of p - idx) * 4) p = (Ok (), ?p1)"
    using D room idx' by (simp add: ptr_copy_in_bounds)
  have inc: "increment_free_start t ENTRY_SIZE ?p3 =
      (Ok (fs_of p + 4), patch ?p3 12 (to_le_bytes (of_nat (fs_of p + 4) :: u16)))"
    using increment_free_start_ok [of ?p3 4 t] len3 f3 D room by (simp add: ENTRY_SIZE_def)
  show ?thesis
    using D(1,2,3) room idx' len1 len2 inc cpy cnt D(4-6)
    by (simp add: insert_slot_entry_at_index_def rust_simps layout_defs put_entry_def Let_def
        del: add_2_eq_Suc')
qed

text \<open>Reading the page after an entry was put in: every word of it, and the bytes outside.\<close>

lemma put_entry_reads:
  assumes wf: "wf_page p" and room: "4 \<le> fe_of p - fs_of p" and idx: "idx \<le> count_of p"
  shows length_put_entry: "length (put_entry p idx e) = 4096"
    and put_entry_fs_word: "word_at (put_entry p idx e) 12 = of_nat (fs_of p + 4)"
    and put_entry_offset: "word_at (put_entry p idx e) (24 + idx * 4) = se_offset e"
    and put_entry_length: "word_at (put_entry p idx e) (26 + idx * 4) = se_length e"
    and put_entry_before: "24 \<le> q \<Longrightarrow> q + 2 \<le> 24 + idx * 4 \<Longrightarrow>
          word_at (put_entry p idx e) q = word_at p q"
    and put_entry_after: "28 + idx * 4 \<le> q \<Longrightarrow> q + 2 \<le> fs_of p + 4 \<Longrightarrow>
          word_at (put_entry p idx e) q = word_at p (q - 4)"
    and put_entry_outside: "o' + n \<le> 12 \<or> 14 \<le> o' \<and> (o' + n \<le> 24 \<or> fs_of p + 4 \<le> o') \<Longrightarrow>
          bytes_at (put_entry p idx e) o' n = bytes_at p o' n"
proof -
  note D = wf_pageD [OF wf]
  define io where "io = 24 + idx * 4"
  define bs where "bs = bytes_at p io ((count_of p - idx) * 4)"
  define p1 where "p1 = patch p (io + 4) bs"
  define p2 where "p2 = patch p1 io (to_le_bytes (se_offset e))"
  define p3 where "p3 = patch p2 (io + 2) (to_le_bytes (se_length e))"
  have eq: "put_entry p idx e = patch p3 12 (to_le_bytes (of_nat (fs_of p + 4) :: u16))"
    by (simp add: put_entry_def Let_def io_def bs_def p1_def p2_def p3_def)
  have io: "24 \<le> io" "io + (count_of p - idx) * 4 = fs_of p" "io = 24 + idx * 4"
    using D(6) idx by (simp_all add: io_def algebra_simps)
  have bs: "length bs = (count_of p - idx) * 4" using D(1,3,4,5) room io by (simp add: bs_def length_bytes_at)
  note B = D(1,3,4,5) room io(1,2) bs
  have len1: "length p1 = 4096" using B by (simp add: p1_def length_patch)
  have len2: "length p2 = 4096" using B len1 by (simp add: p2_def length_patch)
  have len3: "length p3 = 4096" using B len2 by (simp add: p3_def length_patch)
  show "length (put_entry p idx e) = 4096" using len3 by (simp add: eq length_patch)
  show "word_at (put_entry p idx e) 12 = of_nat (fs_of p + 4)"
    unfolding eq by (rule word_at_patch_same) (simp add: len3)
  have top: "word_at (put_entry p idx e) q = word_at p3 q" if "14 \<le> q" for q
    using that len3 by (simp add: eq word_at_patch_other)
  have "word_at (put_entry p idx e) io = se_offset e"
    using B len1 len2 by (simp add: top p3_def word_at_patch_other) (simp add: p2_def word_at_patch_same)
  then show "word_at (put_entry p idx e) (24 + idx * 4) = se_offset e" by (simp add: io_def)
  have "word_at (put_entry p idx e) (io + 2) = se_length e"
    using B len2 by (simp add: top p3_def word_at_patch_same)
  then show "word_at (put_entry p idx e) (26 + idx * 4) = se_length e" by (simp add: io_def)
  have low: "word_at (put_entry p idx e) q = word_at p1 q" if "24 \<le> q" "q + 2 \<le> io \<or> io + 4 \<le> q" for q
    using that B len1 len2 by (auto simp add: top p3_def p2_def word_at_patch_other)
  show "word_at (put_entry p idx e) q = word_at p q" if "24 \<le> q" "q + 2 \<le> 24 + idx * 4"
    using that B by (simp add: low io(3)) (simp add: p1_def word_at_patch_other io(3))
  show "word_at (put_entry p idx e) q = word_at p (q - 4)"
    if "28 + idx * 4 \<le> q" "q + 2 \<le> fs_of p + 4"
  proof -
    from that io have q: "io + 4 \<le> q" "24 \<le> q" by simp_all
    then have "word_at (put_entry p idx e) q = word_at p1 q" by (simp add: low)
    also have "\<dots> = word_at bs (q - (io + 4))"
      unfolding p1_def by (rule word_at_patch_inside) (use B q that in auto)
    also have "\<dots> = word_at p (io + (q - (io + 4)))"
      unfolding bs_def by (rule word_at_bytes_at) (use B q that in auto)
    finally show ?thesis using q by simp
  qed
  show "bytes_at (put_entry p idx e) o' n = bytes_at p o' n"
    if "o' + n \<le> 12 \<or> 14 \<le> o' \<and> (o' + n \<le> 24 \<or> fs_of p + 4 \<le> o')"
    using that B len1 len2 len3 by (auto simp: eq p3_def p2_def p1_def bytes_at_patch_disjoint)
qed

lemma put_entry_fields:
  assumes "wf_page p" and "4 \<le> fe_of p - fs_of p" and "idx \<le> count_of p"
  shows "fs_of (put_entry p idx e) = fs_of p + 4" "fe_of (put_entry p idx e) = fe_of p"
    "special_of (put_entry p idx e) = special_of p" "limit_of (put_entry p idx e) = limit_of p"
    "count_of (put_entry p idx e) = count_of p + 1"
proof -
  note D = wf_pageD [OF assms(1)] and R = put_entry_reads [OF assms, where e = e]
  show fs: "fs_of (put_entry p idx e) = fs_of p + 4"
    using D assms(2) R(2) unat_of_nat_u16 [of "fs_of p + 4"] by (simp add: fs_of_def layout_defs)
  show "fe_of (put_entry p idx e) = fe_of p"
    using R(7) [of 14 2] by (simp add: fe_of_def layout_defs word_at_def)
  show sp: "special_of (put_entry p idx e) = special_of p"
    using R(7) [of 16 2] by (simp add: special_of_def layout_defs word_at_def)
  then show "limit_of (put_entry p idx e) = limit_of p" by (simp add: limit_of_def)
  from D(6) have "(fs_of p + 4 - 24) div 4 = count_of p + 1" by simp
  then show "count_of (put_entry p idx e) = count_of p + 1"
    by (simp add: count_of_def fs layout_defs)
qed

lemma put_entry_entries:
  assumes "wf_page p" and "4 \<le> fe_of p - fs_of p" and "idx \<le> count_of p"
  shows "entries_of (put_entry p idx e) = insert_at idx e (entries_of p)"
proof (rule nth_equalityI)
  note D = wf_pageD [OF assms(1)] and R = put_entry_reads [OF assms, where e = e]
    and F = put_entry_fields [OF assms, where e = e]
  show "length (entries_of (put_entry p idx e)) = length (insert_at idx e (entries_of p))"
    by (simp add: F)
  fix j assume "j < length (entries_of (put_entry p idx e))"
  then have j: "j \<le> count_of p" by (simp add: F)
  then have l: "entries_of (put_entry p idx e) ! j = entry_at (put_entry p idx e) (24 + j * 4)"
    by (simp add: nth_entries F)
  consider "j < idx" | "j = idx" | "idx < j" by linarith
  then show "entries_of (put_entry p idx e) ! j = insert_at idx e (entries_of p) ! j"
  proof cases
    case 1
    then show ?thesis
      using assms(3) R(5) [of "24 + j * 4"] R(5) [of "26 + j * 4"]
      by (simp add: l nth_insert_at nth_entries entry_at_def)
  next
    case 2
    have "entry_at (put_entry p idx e) (24 + idx * 4) = e"
      using R(3,4) by (simp add: entry_at_def)
    with 2 l show ?thesis using assms(3) by (simp add: nth_insert_at)
  next
    case 3
    then obtain k where k: "j = Suc k" by (cases j) auto
    show ?thesis
      using 3 k j l D(6) assms(3) R(6) [of "28 + k * 4"] R(6) [of "30 + k * 4"]
      by (simp add: nth_insert_at nth_entries entry_at_def)
  qed
qed

section \<open>Adding a cell\<close>

definition put_cell :: "RawPage \<Rightarrow> nat \<Rightarrow> block \<Rightarrow> RawPage" where
  "put_cell p idx c =
     (let off = fe_of p - length c;
          p1 = put_entry p idx \<lparr>se_offset = of_nat off, se_length = of_nat (length c)\<rparr>;
          p2 = patch p1 off c
      in patch p2 14 (to_le_bytes (of_nat off :: u16)))"

lemma entries_patch_body:
  assumes "fs_of p \<le> off" and "off + length bs \<le> length p" and "24 \<le> fs_of p"
  shows "entries_of (patch p off bs) = entries_of p"
proof (rule nth_equalityI)
  have cnt: "count_of (patch p off bs) = count_of p"
    using assms by (simp add: fields_patch_body)
  then show "length (entries_of (patch p off bs)) = length (entries_of p)" by simp
  fix i assume "i < length (entries_of (patch p off bs))"
  then have i: "i < count_of p" by (simp add: cnt)
  then have "i < (fs_of p - 24) div 4" by (simp add: count_of_def layout_defs)
  then have "24 + i * 4 + 4 \<le> fs_of p" using assms(3) by linarith
  then show "entries_of (patch p off bs) ! i = entries_of p ! i"
    using i assms by (simp add: nth_entries cnt entry_at_def word_at_patch_other)
qed

lemma patch_free_end:
  assumes "length p = 4096"
  shows "fs_of (patch p 14 (to_le_bytes (w :: u16))) = fs_of p"
    "fe_of (patch p 14 (to_le_bytes w)) = unat w"
    "special_of (patch p 14 (to_le_bytes w)) = special_of p"
    "limit_of (patch p 14 (to_le_bytes w)) = limit_of p"
    "entries_of (patch p 14 (to_le_bytes w)) = entries_of p"
proof -
  show fs: "fs_of (patch p 14 (to_le_bytes w)) = fs_of p"
    using assms by (simp add: fs_of_def layout_defs word_at_patch_other)
  show "fe_of (patch p 14 (to_le_bytes w)) = unat w"
    using assms by (simp add: fe_of_def layout_defs word_at_patch_same)
  show sp: "special_of (patch p 14 (to_le_bytes w)) = special_of p"
    using assms by (simp add: special_of_def layout_defs word_at_patch_other)
  then show "limit_of (patch p 14 (to_le_bytes w)) = limit_of p" by (simp add: limit_of_def)
  show "entries_of (patch p 14 (to_le_bytes w)) = entries_of p"
    using assms by (simp add: entries_of_def count_of_def fs entry_at_def word_at_patch_other layout_defs)
qed

text \<open>What is on the page after a cell was added at a slot.\<close>

lemma put_cell_reads:
  assumes wf: "wf_page p" and room: "length c + 4 \<le> fe_of p - fs_of p" and idx: "idx \<le> count_of p"
  shows length_put_cell: "length (put_cell p idx c) = 4096"
    and put_cell_fs: "fs_of (put_cell p idx c) = fs_of p + 4"
    and put_cell_fe: "fe_of (put_cell p idx c) = fe_of p - length c"
    and put_cell_special: "special_of (put_cell p idx c) = special_of p"
    and put_cell_limit: "limit_of (put_cell p idx c) = limit_of p"
    and put_cell_entries: "entries_of (put_cell p idx c) =
          insert_at idx \<lparr>se_offset = of_nat (fe_of p - length c), se_length = of_nat (length c)\<rparr>
            (entries_of p)"
    and put_cell_new: "bytes_at (put_cell p idx c) (fe_of p - length c) (length c) = c"
    and put_cell_outside: "o' + n \<le> 12 \<or> 16 \<le> o' \<and> o' + n \<le> 24 \<or> fe_of p \<le> o' \<Longrightarrow>
          bytes_at (put_cell p idx c) o' n = bytes_at p o' n"
proof -
  note D = wf_pageD [OF wf]
  from room have room4: "4 \<le> fe_of p - fs_of p" by simp
  define off where "off = fe_of p - length c"
  define e where "e = \<lparr>se_offset = of_nat off :: u16, se_length = of_nat (length c)\<rparr>"
  define p1 where "p1 = put_entry p idx e"
  define p2 where "p2 = patch p1 off c"
  have eq: "put_cell p idx c = patch p2 14 (to_le_bytes (of_nat off :: u16))"
    by (simp add: put_cell_def Let_def off_def e_def p1_def p2_def)
  note R = put_entry_reads [OF wf room4 idx, where e = e, folded p1_def]
    and F = put_entry_fields [OF wf room4 idx, where e = e, folded p1_def]
    and E = put_entry_entries [OF wf room4 idx, of e, folded p1_def]
  have off: "fs_of p + 4 \<le> off" "off + length c = fe_of p" "fe_of p \<le> 4096"
    using D room by (simp_all add: off_def)
  have len2: "length p2 = 4096" using R(1) off by (simp add: p2_def length_patch)
  have F2: "fs_of p2 = fs_of p + 4" "special_of p2 = special_of p" "limit_of p2 = limit_of p"
    using R(1) off D(2) F by (simp_all add: p2_def fields_patch_body)
  have E2: "entries_of p2 = entries_of p1"
    unfolding p2_def by (rule entries_patch_body) (use R(1) off D(2) F(1) in auto)
  note P = patch_free_end [OF len2, of "of_nat off", folded eq]
  show "length (put_cell p idx c) = 4096" using len2 by (simp add: eq length_patch)
  show "fs_of (put_cell p idx c) = fs_of p + 4" by (simp add: P F2)
  show "fe_of (put_cell p idx c) = fe_of p - length c"
    using off unat_of_nat_u16 [of off] by (simp add: P(2) off_def)
  show "special_of (put_cell p idx c) = special_of p" by (simp add: P F2)
  show "limit_of (put_cell p idx c) = limit_of p" by (simp add: P F2)
  show "entries_of (put_cell p idx c) =
      insert_at idx \<lparr>se_offset = of_nat (fe_of p - length c), se_length = of_nat (length c)\<rparr>
        (entries_of p)"
    by (simp add: P(5) E2 E e_def off_def)
  show "bytes_at (put_cell p idx c) (fe_of p - length c) (length c) = c"
    using R(1) off len2 D(2)
    by (simp add: eq bytes_at_patch_disjoint flip: off_def) (simp add: p2_def bytes_at_patch_same)
  show "bytes_at (put_cell p idx c) o' n = bytes_at p o' n"
    if "o' + n \<le> 12 \<or> 16 \<le> o' \<and> o' + n \<le> 24 \<or> fe_of p \<le> o'"
  proof -
    have "bytes_at (put_cell p idx c) o' n = bytes_at p2 o' n"
      unfolding eq by (rule bytes_at_patch_disjoint) (use that len2 off D(2) in auto)
    also have "\<dots> = bytes_at p1 o' n"
      unfolding p2_def by (rule bytes_at_patch_disjoint) (use that R(1) off D(2) in auto)
    also have "\<dots> = bytes_at p o' n" by (rule R(7)) (use that off D(2) in auto)
    finally show ?thesis .
  qed
qed

lemma wf_cellsD:
  assumes "wf_cells p"
  shows "wf_page p" "\<And>se. se \<in> set (entries_of p) \<Longrightarrow> entry_ok p se"
    "sorted_wrt areas_disjoint (entries_of p)"
    "fe_of p + sum_list (map (\<lambda>se. unat (se_length se)) (entries_of p)) = limit_of p"
  using assms by (auto simp: wf_cells_def list_all_iff)

lemma wf_page_put_cell:
  assumes "wf_page p" and "length c + 4 \<le> fe_of p - fs_of p" and "idx \<le> count_of p"
  shows "wf_page (put_cell p idx c)"
  using put_cell_reads(1-5) [OF assms] wf_pageD [OF assms(1)] assms(1,2)
  by (auto simp: wf_page_def layout_defs)

lemma wf_cells_put_cell:
  assumes wf: "wf_cells p" and room: "length c + 4 \<le> fe_of p - fs_of p" and idx: "idx \<le> count_of p"
  shows "wf_cells (put_cell p idx c)"
proof -
  note W = wf_cellsD [OF wf]
  note D = wf_pageD [OF W(1)] and R = put_cell_reads [OF W(1) room idx]
  let ?e = "\<lparr>se_offset = of_nat (fe_of p - length c) :: u16, se_length = of_nat (length c)\<rparr>"
  have e: "unat (se_offset ?e) = fe_of p - length c" "unat (se_length ?e) = length c"
    using D room unat_of_nat_u16 [of "fe_of p - length c"] unat_of_nat_u16 [of "length c"] by simp_all
  have old: "entry_ok p se \<Longrightarrow> areas_disjoint se ?e \<and> areas_disjoint ?e se" for se
    using room e by (auto simp: areas_disjoint_def entry_ok_def)
  have "entry_ok (put_cell p idx c) se" if "se = ?e \<or> se \<in> set (entries_of p)" for se
    using that W(2) [of se] D room e by (auto simp: entry_ok_def R(3,5))
  then have ok: "list_all (entry_ok (put_cell p idx c)) (entries_of (put_cell p idx c))"
    by (simp add: R(6) list_all_iff)
  have "sorted_wrt areas_disjoint (insert_at idx ?e (entries_of p))"
    by (rule sorted_wrt_insert_at [OF W(3)]) (use old W(2) in \<open>auto dest: in_set_takeD in_set_dropD\<close>)
  then have disj: "sorted_wrt areas_disjoint (entries_of (put_cell p idx c))" by (simp add: R(6))
  have "sum_list (map (\<lambda>se. unat (se_length se)) (insert_at idx ?e (entries_of p))) =
      length c + sum_list (map (\<lambda>se. unat (se_length se)) (entries_of p))"
    using e by (simp add: map_insert_at sum_list_insert_at)
  then have "fe_of (put_cell p idx c) +
      sum_list (map (\<lambda>se. unat (se_length se)) (entries_of (put_cell p idx c))) =
      limit_of (put_cell p idx c)"
    using W(4) D room by (simp add: R(3,5,6))
  with ok disj wf_page_put_cell [OF W(1) room idx] show ?thesis by (simp add: wf_cells_def)
qed

lemma cells_put_cell:
  assumes wf: "wf_cells p" and room: "length c + 4 \<le> fe_of p - fs_of p" and idx: "idx \<le> count_of p"
  shows "cells_of (put_cell p idx c) = insert_at idx c (cells_of p)"
proof -
  note W = wf_cellsD [OF wf]
  note D = wf_pageD [OF W(1)] and R = put_cell_reads [OF W(1) room idx]
  let ?e = "\<lparr>se_offset = of_nat (fe_of p - length c) :: u16, se_length = of_nat (length c)\<rparr>"
  have "cell_of (put_cell p idx c) ?e = c"
    using D room R(7) unat_of_nat_u16 [of "fe_of p - length c"] unat_of_nat_u16 [of "length c"]
    by (simp add: cell_of_def)
  moreover have "map (cell_of (put_cell p idx c)) (entries_of p) = cells_of p"
    using W(2) R(8) by (auto simp: cells_of_def cell_of_def entry_ok_def)
  ultimately show ?thesis
    by (simp add: cells_of_def [of "put_cell p idx c"] R(6) map_insert_at)
qed

lemma abs_put_cell:
  assumes wf: "wf_cells p" and room: "length c + 4 \<le> fe_of p - fs_of p" and idx: "idx \<le> count_of p"
  shows "abs_of (put_cell p idx c) =
    (abs_of p)\<lparr>a_cells := insert_at idx c (cells_of p), a_room := a_room (abs_of p) - (length c + 4)\<rparr>"
proof -
  note W = wf_cellsD [OF wf]
  note D = wf_pageD [OF W(1)] and R = put_cell_reads [OF W(1) room idx]
  have "bytes_at (put_cell p idx c) 0 12 = bytes_at p 0 12"
    "bytes_at (put_cell p idx c) 16 8 = bytes_at p 16 8"
    "bytes_at (put_cell p idx c) (limit_of p) n = bytes_at p (limit_of p) n" for n
    using R(8) D(4) by auto
  then show ?thesis
    using D room by (simp add: abs_of_def R cells_put_cell [OF wf room idx])
qed

text \<open>Executing the two operations on a page whose header is well formed, in any build.\<close>

lemma set_free_end_ok:
  assumes "length p = 4096" and "24 \<le> fs_of p" and "fs_of p \<le> off"
  shows "set_free_end t off p = (Ok (), patch p 14 (to_le_bytes (of_nat off :: u16)))"
  using assms by (simp add: set_free_end_def rust_simps layout_defs)

lemma put_cell_tail:
  assumes wf: "wf_page p" and room: "length c + 4 \<le> fe_of p - fs_of p" and idx: "idx \<le> count_of p"
  shows "op_bind (ptr_write (fe_of p - length c) c) (\<lambda>_.
           op_bind (set_free_end t (fe_of p - length c)) (\<lambda>_. op_ret ()))
         (put_entry p idx \<lparr>se_offset = of_nat (fe_of p - length c), se_length = of_nat (length c)\<rparr>) =
         (Ok (), put_cell p idx c)"
proof -
  note D = wf_pageD [OF wf]
  from room have room4: "4 \<le> fe_of p - fs_of p" by simp
  define off where "off = fe_of p - length c"
  define p1 where "p1 = put_entry p idx \<lparr>se_offset = of_nat off :: u16, se_length = of_nat (length c)\<rparr>"
  have off: "fs_of p + 4 \<le> off" "off + length c = fe_of p" using D room by (simp_all add: off_def)
  have p1: "length p1 = 4096" "fs_of p1 = fs_of p + 4"
    using put_entry_reads(1) [OF wf room4 idx] put_entry_fields(1) [OF wf room4 idx] by (simp_all add: p1_def)
  then have p2: "length (patch p1 off c) = 4096" "fs_of (patch p1 off c) = fs_of p + 4"
    using off D by (simp_all add: length_patch fields_patch_body)
  have "set_free_end t off (patch p1 off c) =
      (Ok (), patch (patch p1 off c) 14 (to_le_bytes (of_nat off :: u16)))"
    by (rule set_free_end_ok) (use p2 off D in auto)
  then show ?thesis
    using p1 off D by (simp add: rust_simps put_cell_def Let_def flip: off_def p1_def)
qed

lemma add_cell_append_exec:
  assumes wf: "wf_page p" and len: "length c < 2 ^ 63"
  shows "add_cell_append_slot_entry t c p =
    (if length c + 4 > fe_of p - fs_of p then (Err NoContigiousSpace, p)
     else (Ok (), put_cell p (count_of p) c))"
proof -
  note D = wf_pageD [OF wf]
  show ?thesis
  proof (cases "length c + 4 > fe_of p - fs_of p")
    case True
    then show ?thesis
      using D(1-3) len by (simp add: add_cell_append_slot_entry_def rust_simps layout_defs)
  next
    case False
    then have room: "length c + 4 \<le> fe_of p - fs_of p" "4 \<le> fe_of p - fs_of p" by simp_all
    note tail = put_cell_tail [OF wf room(1) order_refl, of t]
    show ?thesis
      using D(1-5) False tail append_slot_entry_ok [OF wf room(2), of t "of_nat (length c)"]
      by (simp add: add_cell_append_slot_entry_def rust_simps layout_defs)
  qed
qed

lemma add_cell_at_exec:
  assumes wf: "wf_page p" and len: "length c < 2 ^ 63"
  shows "add_cell_at_slot_entry_index t idx c p =
    (if length c + 4 > fe_of p - fs_of p then (Err NoContigiousSpace, p)
     else if idx > count_of p then (Err SlotIndexNotInRange, p)
     else (Ok (), put_cell p idx c))"
proof -
  note D = wf_pageD [OF wf]
  have cnt: "(fs_of p - 24) div 4 = count_of p" by (simp add: count_of_def layout_defs)
  consider "length c + 4 > fe_of p - fs_of p"
    | "length c + 4 \<le> fe_of p - fs_of p" "idx > count_of p"
    | "length c + 4 \<le> fe_of p - fs_of p" "4 \<le> fe_of p - fs_of p" "idx \<le> count_of p"
    by linarith
  then show ?thesis
  proof cases
    case 1
    then show ?thesis
      using D(1-3) len by (simp add: add_cell_at_slot_entry_index_def rust_simps layout_defs)
  next
    case 2
    then show ?thesis
      using D(1-5) cnt by (simp add: add_cell_at_slot_entry_index_def insert_slot_entry_at_index_def
          rust_simps layout_defs Let_def)
  next
    case 3
    note tail = put_cell_tail [OF wf 3(1) 3(3), of t]
    show ?thesis
      using D(1-5) 3 tail insert_slot_entry_ok [OF wf 3(2) 3(3), of t]
      by (simp add: add_cell_at_slot_entry_index_def rust_simps layout_defs SlotEntry_new_def)
  qed
qed

section \<open>Reading cells back\<close>

lemma slot_dir_ref_ok:
  assumes "wf_page p"
  shows "slot_dir_ref t p = Ok \<lparr>sr_ptr = 24, sr_size = count_of p * 4\<rparr>"
  using wf_pageD [OF assms] by (simp add: slot_dir_ref_def SlotRef_new_def rust_simps layout_defs)

lemma entry_reads_ok:
  assumes "wf_page p" and "i < count_of p"
  shows "read_u16_le_unsafe t p (24 + i * 4) = Ok (se_offset (entries_of p ! i))"
    "read_u16_le_unsafe t p (26 + i * 4) = Ok (se_length (entries_of p ! i))"
proof -
  note D = wf_pageD [OF assms(1)]
  with assms(2) show "read_u16_le_unsafe t p (24 + i * 4) = Ok (se_offset (entries_of p ! i))"
    by (simp add: rust_simps nth_entries entry_at_def word_at_def)
  from D assms(2) show "read_u16_le_unsafe t p (26 + i * 4) = Ok (se_length (entries_of p ! i))"
    by (simp add: rust_simps nth_entries entry_at_def word_at_def)
qed

lemma nth_cells: "i < count_of p \<Longrightarrow> cells_of p ! i = cell_of p (entries_of p ! i)"
  by (simp add: cells_of_def)

lemma cell_slice_from_id_ok:
  assumes wf: "wf_cells p"
  shows "cell_slice_from_id t p s = abs_lookup (unat (sid s)) (abs_of p)"
proof -
  note W = wf_cellsD [OF wf]
  note D = wf_pageD [OF W(1)]
  show ?thesis
  proof (cases "unat (sid s) < count_of p")
    case False
    then show ?thesis
      by (auto simp: cell_slice_from_id_def slot_dir_ref_ok [OF W(1)] slot_count_def abs_lookup_def
          abs_of_def cells_Nil_iff layout_defs Let_def)
  next
    case True
    let ?e = "entries_of p ! unat (sid s)"
    have ok: "entry_ok p ?e" using W(2) True by simp
    then have ends: "unat (se_offset ?e) + unat (se_length ?e) \<le> 4096"
      using D by (simp add: entry_ok_def)
    show ?thesis
      using True ends D(1)
      by (simp add: cell_slice_from_id_def slot_dir_ref_ok [OF W(1)] slot_count_def abs_lookup_def
          abs_of_def cells_Nil_iff layout_defs Let_def nth_cells cell_of_def entry_reads_ok [OF W(1) True]
          raw_access)
  qed
qed

lemma iter_next_ok:
  assumes "wf_page p" and "k < count_of p"
  shows "iter_next t p \<lparr>it_ptr = 24, it_size = count_of p * 4, it_pos = k\<rparr> =
      Ok (Some (entries_of p ! k), \<lparr>it_ptr = 24, it_size = count_of p * 4, it_pos = Suc k\<rparr>)"
  using assms(2)
  by (simp add: iter_next_def next_entry_def iter_slot_count_def layout_defs Let_def
      entry_reads_ok [OF assms])

lemma iter_next_end:
  "iter_next t p \<lparr>it_ptr = 24, it_size = n * 4, it_pos = n\<rparr> =
     Ok (None, \<lparr>it_ptr = 24, it_size = n * 4, it_pos = n\<rparr>)"
  by (simp add: iter_next_def next_entry_def iter_slot_count_def layout_defs)

lemma iter_collect_from:
  assumes wf: "wf_page p" and "k \<le> count_of p"
  shows "iter_collect t p \<lparr>it_ptr = 24, it_size = count_of p * 4, it_pos = k\<rparr> = Ok (drop k (entries_of p))"
  using assms(2)
proof (induction "count_of p - k" arbitrary: k)
  case 0
  then show ?case by (simp add: iter_collect.simps iter_next_end)
next
  case (Suc n)
  then have k: "k < count_of p" and n: "n = count_of p - Suc k" "Suc k \<le> count_of p" by simp_all
  note IH = Suc.hyps(1) [OF n]
  have "drop k (entries_of p) = entries_of p ! k # drop (Suc k) (entries_of p)"
    using k by (simp add: Cons_nth_drop_Suc)
  then show ?case
    by (subst iter_collect.simps) (simp add: iter_next_ok [OF wf k] IH)
qed

lemma iter_collect_ok:
  assumes "wf_page p" and "slot_dir_ref t p = Ok sd"
  shows "iter_collect t p (slot_iter sd) = Ok (entries_of p)"
  using assms iter_collect_from [OF assms(1), of 0 t]
  by (auto simp: slot_dir_ref_ok slot_iter_def SlotDirIter_new_def)

section \<open>The contract of a cell store\<close>

text \<open>
  What the page types rely on of the slotted page: a sequence of cells with a bounded amount
  of room, an insertion that either does exactly that or refuses and changes nothing, and a
  lookup by position.
\<close>

locale cell_store =
  fixes invar :: "'p \<Rightarrow> bool"
    and cells :: "'p \<Rightarrow> block list"
    and room :: "'p \<Rightarrow> nat"
    and insert_cell :: "nat \<Rightarrow> block \<Rightarrow> 'p \<Rightarrow> (PageError, unit) outcome \<times> 'p"
    and lookup :: "'p \<Rightarrow> nat \<Rightarrow> (PageError, block) outcome"
  assumes insert_full:
      "invar p \<Longrightarrow> length c < 2 ^ 63 \<Longrightarrow> room p < length c + 4 \<Longrightarrow>
         insert_cell i c p = (Err NoContigiousSpace, p)"
    and insert_range:
      "invar p \<Longrightarrow> length c < 2 ^ 63 \<Longrightarrow> length c + 4 \<le> room p \<Longrightarrow> length (cells p) < i \<Longrightarrow>
         insert_cell i c p = (Err SlotIndexNotInRange, p)"
    and insert_fits:
      "invar p \<Longrightarrow> length c < 2 ^ 63 \<Longrightarrow> length c + 4 \<le> room p \<Longrightarrow> i \<le> length (cells p) \<Longrightarrow>
         \<exists>p'. insert_cell i c p = (Ok (), p') \<and> invar p' \<and>
              cells p' = insert_at i c (cells p) \<and> room p' = room p - (length c + 4)"
    and lookup_in: "invar p \<Longrightarrow> i < length (cells p) \<Longrightarrow> lookup p i = Ok (cells p ! i)"
begin

lemma insert_Ok_iff:
  assumes "invar p" and "length c < 2 ^ 63"
  shows "fst (insert_cell i c p) = Ok () \<longleftrightarrow> length c + 4 \<le> room p \<and> i \<le> length (cells p)"
proof -
  consider "room p < length c + 4" | "length c + 4 \<le> room p" "length (cells p) < i"
    | "length c + 4 \<le> room p" "i \<le> length (cells p)" by linarith
  then show ?thesis
  proof cases
    case 3
    with insert_fits [OF assms 3] show ?thesis by auto
  qed (use insert_full [OF assms] insert_range [OF assms] in auto)
qed

lemma insert_invar: "invar p \<Longrightarrow> length c < 2 ^ 63 \<Longrightarrow> invar (snd (insert_cell i c p))"
  using insert_fits [of p c i] insert_full [of p c i] insert_range [of p c i]
  by (cases "length c + 4 \<le> room p"; cases "i \<le> length (cells p)") auto

lemma insert_cells:
  assumes "invar p" and "length c < 2 ^ 63"
  shows "cells (snd (insert_cell i c p)) =
    (if fst (insert_cell i c p) = Ok () then insert_at i c (cells p) else cells p)"
  using insert_fits [OF assms, of i] insert_full [OF assms, of i] insert_range [OF assms, of i]
  by (cases "length c + 4 \<le> room p"; cases "i \<le> length (cells p)") auto

lemma insert_lookup:
  assumes "invar p" and "length c < 2 ^ 63" and "insert_cell i c p = (Ok (), p')" and "j \<le> length (cells p)"
  shows "lookup p' j =
    (if j < i then lookup p j else if j = i then Ok c else lookup p (j - 1))"
proof -
  from insert_Ok_iff [OF assms(1,2), of i] assms(3) have i: "i \<le> length (cells p)" by simp
  from insert_invar [OF assms(1,2), of i] insert_cells [OF assms(1,2), of i] assms(3)
  have p': "invar p'" "cells p' = insert_at i c (cells p)" by simp_all
  then have "lookup p' j = Ok (insert_at i c (cells p) ! j)"
    using assms(4) by (simp add: lookup_in)
  with i assms(1,4) show ?thesis by (auto simp: nth_insert_at lookup_in)
qed

primrec append_all :: "block list \<Rightarrow> 'p \<Rightarrow> (PageError, unit) outcome \<times> 'p" where
  "append_all [] p = (Ok (), p)"
| "append_all (c # cs) p = op_bind (insert_cell (length (cells p)) c) (\<lambda>_. append_all cs) p"

lemma append_all_capacity:
  assumes "invar p" and "\<forall>c\<in>set cs. length c < 2 ^ 63"
  shows "fst (append_all cs p) = Ok () \<longleftrightarrow> (\<Sum>c\<leftarrow>cs. length c + 4) \<le> room p"
    and "fst (append_all cs p) = Ok () \<Longrightarrow>
           cells (snd (append_all cs p)) = cells p @ cs \<and> invar (snd (append_all cs p))"
proof -
  have "(fst (append_all cs p) = Ok () \<longleftrightarrow> (\<Sum>c\<leftarrow>cs. length c + 4) \<le> room p) \<and>
      (fst (append_all cs p) = Ok () \<longrightarrow>
         cells (snd (append_all cs p)) = cells p @ cs \<and> invar (snd (append_all cs p)))"
    using assms
  proof (induction cs arbitrary: p)
    case Nil
    then show ?case by simp
  next
    case (Cons c cs)
    then have c: "length c < 2 ^ 63" by simp
    show ?case
    proof (cases "length c + 4 \<le> room p")
      case False
      then show ?thesis
        using insert_full [OF Cons.prems(1) c] by (simp add: op_bind_def)
    next
      case True
      from insert_fits [OF Cons.prems(1) c True order_refl] obtain p' where
        p': "insert_cell (length (cells p)) c p = (Ok (), p')" "invar p'"
          "cells p' = cells p @ [c]" "room p' = room p - (length c + 4)" by auto
      with Cons.IH [OF p'(2)] Cons.prems(2) True show ?thesis by (auto simp: op_bind_def)
    qed
  qed
  then show "fst (append_all cs p) = Ok () \<longleftrightarrow> (\<Sum>c\<leftarrow>cs. length c + 4) \<le> room p"
    and "fst (append_all cs p) = Ok () \<Longrightarrow>
           cells (snd (append_all cs p)) = cells p @ cs \<and> invar (snd (append_all cs p))" by blast+
qed

end

text \<open>
  A store whose insertions leave a frame alone, and the cells of a page type on top of it: a
  predicate on the frame, a well-formedness predicate on cells and a decoding of them.
\<close>

locale framed_cell_store = cell_store invar cells room insert_cell lookup
  for invar :: "'p \<Rightarrow> bool" and cells :: "'p \<Rightarrow> block list" and room :: "'p \<Rightarrow> nat"
    and insert_cell :: "nat \<Rightarrow> block \<Rightarrow> 'p \<Rightarrow> (PageError, unit) outcome \<times> 'p"
    and lookup :: "'p \<Rightarrow> nat \<Rightarrow> (PageError, block) outcome" +
  fixes frame :: "'p \<Rightarrow> 'f"
  assumes insert_frame:
    "invar p \<Longrightarrow> length c < 2 ^ 63 \<Longrightarrow> frame (snd (insert_cell i c p)) = frame p"

locale typed_cell_store = framed_cell_store invar cells room insert_cell lookup frame
  for invar :: "'p \<Rightarrow> bool" and cells :: "'p \<Rightarrow> block list" and room :: "'p \<Rightarrow> nat"
    and insert_cell :: "nat \<Rightarrow> block \<Rightarrow> 'p \<Rightarrow> (PageError, unit) outcome \<times> 'p"
    and lookup :: "'p \<Rightarrow> nat \<Rightarrow> (PageError, block) outcome" and frame :: "'p \<Rightarrow> 'f" +
  fixes typed :: "'p \<Rightarrow> bool" and good :: "'f \<Rightarrow> bool" and cell_ok :: "block \<Rightarrow> bool"
  assumes typed_iff: "typed p \<longleftrightarrow> invar p \<and> good (frame p) \<and> list_all cell_ok (cells p)"
begin

lemma insert_typed:
  assumes "typed p" and "cell_ok c" and "length c < 2 ^ 63"
    and "length c + 4 \<le> room p" and "i \<le> length (cells p)"
  shows "\<exists>p'. insert_cell i c p = (Ok (), p') \<and> typed p' \<and> frame p' = frame p \<and>
    map f (cells p') = insert_at i (f c) (map f (cells p)) \<and> room p' = room p - (length c + 4)"
proof -
  from assms(1) have p: "invar p" "good (frame p)" "list_all cell_ok (cells p)" by (simp_all add: typed_iff)
  from insert_fits [OF p(1) assms(3-5)] obtain p' where p':
    "insert_cell i c p = (Ok (), p')" "invar p'" "cells p' = insert_at i c (cells p)"
    "room p' = room p - (length c + 4)" by blast
  moreover have "frame p' = frame p" using insert_frame [OF p(1) assms(3), of i] p'(1) by simp
  ultimately show ?thesis
    using p assms(2) by (auto simp: typed_iff list_all_iff map_insert_at)
qed

end

definition room_of :: "RawPage \<Rightarrow> nat" where
  "room_of p = fe_of p - fs_of p"

interpretation slotted: cell_store wf_cells cells_of room_of "add_cell_at_slot_entry_index t"
  "\<lambda>p i. cell_slice_from_id t p (SlotID (of_nat i))" for t
proof unfold_locales
  fix p :: RawPage and c :: block and i
  assume p: "wf_cells p" and c: "length c < (2 :: nat) ^ 63"
  note W = wf_cellsD(1) [OF p] and X = add_cell_at_exec [OF wf_cellsD(1) [OF p] c, of t i]
  show "room_of p < length c + 4 \<Longrightarrow>
      add_cell_at_slot_entry_index t i c p = (Err NoContigiousSpace, p)"
    using X by (simp add: room_of_def)
  show "length c + 4 \<le> room_of p \<Longrightarrow> length (cells_of p) < i \<Longrightarrow>
      add_cell_at_slot_entry_index t i c p = (Err SlotIndexNotInRange, p)"
    using X by (simp add: room_of_def)
  assume room: "length c + 4 \<le> room_of p" and i: "i \<le> length (cells_of p)"
  then show "\<exists>p'. add_cell_at_slot_entry_index t i c p = (Ok (), p') \<and> wf_cells p' \<and>
      cells_of p' = insert_at i c (cells_of p) \<and> room_of p' = room_of p - (length c + 4)"
    using X wf_cells_put_cell [OF p, of c i] cells_put_cell [OF p, of c i]
      put_cell_reads(2,3) [OF W, of c i] by (simp add: room_of_def)
next
  fix p i
  assume p: "wf_cells p" and i: "i < length (cells_of p)"
  have "count_of p < 65536" using wf_pageD [OF wf_cellsD(1) [OF p]] by simp
  with i have "unat (of_nat i :: u16) = i" by (simp add: unat_of_nat_u16)
  with i show "cell_slice_from_id t p (SlotID (of_nat i)) = Ok (cells_of p ! i)"
    by (auto simp: cell_slice_from_id_ok [OF p] abs_lookup_def abs_of_def cells_Nil_iff)
qed

definition frame_of :: "RawPage \<Rightarrow> block \<times> block \<times> block" where
  "frame_of p = (bytes_at p 0 12, bytes_at p 16 8, bytes_at p (limit_of p) (PAGE_SIZE - limit_of p))"

lemma frame_abs: "abs_of p = abs_of q \<or> (a_head (abs_of p), a_tail (abs_of p), a_special (abs_of p)) =
    (a_head (abs_of q), a_tail (abs_of q), a_special (abs_of q)) \<Longrightarrow> frame_of p = frame_of q"
  by (auto simp: abs_of_def frame_of_def)

interpretation slotted_frame: framed_cell_store wf_cells cells_of room_of "add_cell_at_slot_entry_index t"
  "\<lambda>p i. cell_slice_from_id t p (SlotID (of_nat i))" frame_of for t
proof unfold_locales
  fix p :: RawPage and c :: block and i
  assume p: "wf_cells p" and c: "length c < (2 :: nat) ^ 63"
  show "frame_of (snd (add_cell_at_slot_entry_index t i c p)) = frame_of p"
    using add_cell_at_exec [OF wf_cellsD(1) [OF p] c, of t i] abs_put_cell [OF p, of c i]
    by (auto intro!: frame_abs)
qed

lemma frame_special: "frame_of p = frame_of q \<Longrightarrow> special_of p = special_of q"
proof -
  assume "frame_of p = frame_of q"
  then have "bytes_at (bytes_at p 16 8) 0 2 = bytes_at (bytes_at q 16 8) 0 2" by (simp add: frame_of_def)
  then show ?thesis by (simp add: bytes_at_bytes_at special_of_def word_at_def layout_defs)
qed

end
