(* ===== verification/Slotted_Properties.thy ===== *)
theory Slotted_Properties
  imports Slotted_Cells
begin

text \<open>
  The properties of the slotted page: initialisation, refinement of the abstract page by every
  cell operation in every build, capacity, memory safety from a weaker condition on the header
  alone, agreement of the two views, and the places where the code departs from its comments.
\<close>

section \<open>Initialisation\<close>

definition init_bytes :: "u8 \<Rightarrow> RawPage \<Rightarrow> RawPage" where
  "init_bytes pt p =
     (let p1 = patch p 10 [0xFF];
          p2 = patch p1 12 (to_le_bytes (24 :: u16));
          p3 = patch p2 14 (to_le_bytes (4096 :: u16))
      in patch p3 10 [pt])"

lemma init_new_exec:
  assumes "length p = 4096"
  shows "init_new pt p = (Ok (), init_bytes pt p)"
proof -
  define p1 where "p1 = patch p 10 [0xFF]"
  define p2 where "p2 = patch p1 12 (to_le_bytes (24 :: u16))"
  define p3 where "p3 = patch p2 14 (to_le_bytes (4096 :: u16))"
  have "length p1 = 4096" using assms by (simp add: p1_def length_patch)
  moreover from this have "length p2 = 4096" by (simp add: p2_def length_patch)
  moreover from this have "length p3 = 4096" by (simp add: p3_def length_patch)
  ultimately show ?thesis
    using assms
    by (simp add: init_new_def set_page_type_def rust_simps layout_defs init_bytes_def Let_def
        p1_def p2_def p3_def)
qed

lemma init_bytes_reads:
  assumes "length p = 4096"
  shows "length (init_bytes pt p) = 4096" "fs_of (init_bytes pt p) = 24"
    "fe_of (init_bytes pt p) = 4096" "special_of (init_bytes pt p) = special_of p"
    "index_read (init_bytes pt p) 10 = Ok pt"
proof -
  define p1 where "p1 = patch p 10 [0xFF]"
  define p2 where "p2 = patch p1 12 (to_le_bytes (24 :: u16))"
  define p3 where "p3 = patch p2 14 (to_le_bytes (4096 :: u16))"
  have eq: "init_bytes pt p = patch p3 10 [pt]"
    by (simp add: init_bytes_def Let_def p1_def p2_def p3_def)
  have l1: "length p1 = 4096" using assms by (simp add: p1_def length_patch)
  then have l2: "length p2 = 4096" by (simp add: p2_def length_patch)
  then have l3: "length p3 = 4096" by (simp add: p3_def length_patch)
  note w = word_at_patch_same word_at_patch_other
  show l4: "length (init_bytes pt p) = 4096" using l3 by (simp add: eq length_patch)
  show "fs_of (init_bytes pt p) = 24"
    using l2 l3 by (simp add: fs_of_def layout_defs eq w) (simp add: p3_def w, simp add: p2_def w l1)
  show "fe_of (init_bytes pt p) = 4096"
    using l2 l3 by (simp add: fe_of_def layout_defs eq w) (simp add: p3_def w)
  show "special_of (init_bytes pt p) = special_of p"
    using assms l1 l2 l3
    by (simp add: special_of_def layout_defs eq w) (simp add: p3_def w, simp add: p2_def w, simp add: p1_def w)
  show "index_read (init_bytes pt p) 10 = Ok pt"
    using l3 l4 by (simp add: rust_simps) (simp add: eq nth_patch)
qed

lemma wf_fresh:
  assumes "length p = 4096" and "fs_of p = 24" and "fe_of p = limit_of p"
    and "24 \<le> limit_of p" and "limit_of p \<le> 4096"
  shows "wf_cells p" "cells_of p = []" "count_of p = 0"
proof -
  show cnt: "count_of p = 0" using assms(2) by (simp add: count_of_def layout_defs)
  then show "cells_of p = []" by (simp add: cells_Nil_iff)
  from cnt have "entries_of p = []" by (simp add: entries_of_def)
  with assms show "wf_cells p" by (simp add: wf_cells_def wf_page_def layout_defs)
qed

lemma bytes_at_zero: "off + n \<le> m \<Longrightarrow> bytes_at (replicate m 0) off n = replicate n 0"
  by (simp add: bytes_at_def min_def)

lemma word_at_zero: "off + 2 \<le> m \<Longrightarrow> word_at (replicate m 0) off = 0"
  by (simp add: word_at_def bytes_at_zero from_le_bytes_def numeral_2_eq_2)

lemma init_new_fresh:
  assumes "length p = 4096" and "special_of p = 0"
  shows "wf_cells (init_bytes pt p)" "cells_of (init_bytes pt p) = []"
    "room_of (init_bytes pt p) = 4072" "count_of (init_bytes pt p) = 0"
proof -
  note R = init_bytes_reads [OF assms(1), of pt]
  have lim: "limit_of (init_bytes pt p) = 4096" using R(4) assms(2) by (simp add: limit_of_def layout_defs)
  note F = wf_fresh [OF R(1,2), unfolded lim, OF R(3)]
  show "wf_cells (init_bytes pt p)" by (rule F) simp_all
  show "cells_of (init_bytes pt p) = []" by (rule F) simp_all
  show "count_of (init_bytes pt p) = 0" by (rule F) simp_all
  show "room_of (init_bytes pt p) = 4072" by (simp add: room_of_def R)
qed

lemma zero_page: "length (replicate 4096 (0 :: u8)) = 4096" "special_of (replicate 4096 0) = 0"
  by (simp_all add: special_of_def word_at_zero layout_defs)

text \<open>A page initialised over zeroed memory, used by the witnesses.\<close>

definition demo_page :: RawPage where
  "demo_page = init_bytes 2 (replicate 4096 0)"

lemma demo_page:
  "wf_cells demo_page" "cells_of demo_page = []" "room_of demo_page = 4072" "count_of demo_page = 0"
  unfolding demo_page_def by (rule init_new_fresh [OF zero_page])+

definition demo_page1 :: RawPage where
  "demo_page1 = put_cell demo_page 0 [1, 2, 3]"

lemma demo_page1:
  "wf_cells demo_page1" "cells_of demo_page1 = [[1, 2, 3]]" "count_of demo_page1 = 1"
  "entries_of demo_page1 = [\<lparr>se_offset = 4093, se_length = 3\<rparr>]"
proof -
  have room: "length [1, 2, 3 :: u8] + 4 \<le> fe_of demo_page - fs_of demo_page"
    using demo_page(3) by (simp add: room_of_def)
  have idx: "0 \<le> count_of demo_page" by simp
  have fe: "fe_of demo_page = 4096"
    using init_bytes_reads(3) [OF zero_page(1), of 2] by (simp add: demo_page_def)
  note W = demo_page(1)
  show "wf_cells demo_page1" unfolding demo_page1_def by (rule wf_cells_put_cell [OF W room idx])
  show cells: "cells_of demo_page1 = [[1, 2, 3]]"
    using cells_put_cell [OF W room idx] demo_page(2) by (simp add: demo_page1_def insert_at_def)
  then show "count_of demo_page1 = 1" using length_cells [of demo_page1] by simp
  show "entries_of demo_page1 = [\<lparr>se_offset = 4093, se_length = 3\<rparr>]"
    using put_cell_entries [OF wf_cellsD(1) [OF W] room idx] demo_page(4) fe
    by (simp add: demo_page1_def insert_at_def entries_of_def)
qed

section \<open>Sequences of appends\<close>

primrec add_cells :: "target \<Rightarrow> block list \<Rightarrow> unit page_op" where
  "add_cells t [] p = (Ok (), p)"
| "add_cells t (c # cs) p = op_bind (add_cell_append_slot_entry t c) (\<lambda>_. add_cells t cs) p"

lemma append_is_insert:
  assumes "wf_page p" and "length c < 2 ^ 63"
  shows "add_cell_append_slot_entry t c p = add_cell_at_slot_entry_index t (count_of p) c p"
  by (simp add: add_cell_append_exec [OF assms] add_cell_at_exec [OF assms])

lemma add_cells_append_all:
  assumes "wf_cells p" and "\<forall>c\<in>set cs. length c < 2 ^ 63"
  shows "add_cells t cs p = slotted.append_all t cs p"
  using assms
proof (induction cs arbitrary: p)
  case Nil
  then show ?case by simp
next
  case (Cons c cs)
  then have c: "length c < 2 ^ 63" by simp
  have eq: "add_cell_append_slot_entry t c p = add_cell_at_slot_entry_index t (count_of p) c p"
    using Cons.prems(1) c by (simp add: append_is_insert wf_cellsD)
  have "wf_cells (snd (add_cell_at_slot_entry_index t (count_of p) c p))"
    by (rule slotted.insert_invar [OF Cons.prems(1) c])
  then show ?case
    using Cons.IH Cons.prems(2) eq
    by (auto simp: op_bind_def split: prod.split outcome.split)
qed

section \<open>Memory safety\<close>

lemma op_bind_safe:
  "fst (f s) \<noteq> UB \<Longrightarrow> (\<And>a s'. f s = (Ok a, s') \<Longrightarrow> fst (g a s') \<noteq> UB) \<Longrightarrow> fst (op_bind f g s) \<noteq> UB"
  by (auto simp: op_bind_def split: prod.split outcome.split)

lemma arith_safe:
  "usize_add t a b \<noteq> UB" "usize_sub t a b \<noteq> UB" "usize_mul t a b \<noteq> UB"
  "rust_assert x \<noteq> UB" "debug_assert t x \<noteq> UB" "slice_range bl lo hi \<noteq> UB"
  by (simp_all add: usize_add_def usize_sub_def usize_mul_def overflow_def rust_assert_def
      debug_assert_def slice_range_def)

lemma write_keeps_length:
  "length (snd (ptr_write off bs p)) = length p"
  "length (snd (write_u16_le_unsafe off v p)) = length p"
  "length (snd (ptr_copy src dst n p)) = length p"
  by (auto simp: write_u16_le_unsafe_def ptr_write_def ptr_copy_def ptr_read_def op_bind_def op_read_def
      length_patch)

definition safe_step :: "'a page_op \<Rightarrow> RawPage \<Rightarrow> bool" where
  "safe_step f p \<longleftrightarrow> fst (f p) \<noteq> UB \<and> length (snd (f p)) = 4096"

lemma safe_step_bind:
  "safe_step f p \<Longrightarrow> (\<And>a p'. f p = (Ok a, p') \<Longrightarrow> length p' = 4096 \<Longrightarrow> safe_step (g a) p') \<Longrightarrow>
   safe_step (op_bind f g) p"
  by (auto simp: safe_step_def op_bind_def split: prod.split outcome.split)

lemma safe_step_if:
  "(b \<Longrightarrow> safe_step f p) \<Longrightarrow> (\<not> b \<Longrightarrow> safe_step g p) \<Longrightarrow> safe_step (if b then f else g) p"
  by simp

lemma safe_step_basic:
  "length p = 4096 \<Longrightarrow> r \<noteq> UB \<Longrightarrow> safe_step (op_out r) p"
  "length p = 4096 \<Longrightarrow> safe_step (op_err e) p"
  "length p = 4096 \<Longrightarrow> safe_step (op_ret a) p"
  "length p = 4096 \<Longrightarrow> safe_step (op_read (free_start t)) p"
  "length p = 4096 \<Longrightarrow> safe_step (op_read (free_end t)) p"
  "length p = 4096 \<Longrightarrow> off + length bs \<le> 4096 \<Longrightarrow> safe_step (ptr_write off bs) p"
  "length p = 4096 \<Longrightarrow> off + 2 \<le> 4096 \<Longrightarrow> safe_step (write_u16_le_unsafe off v) p"
  "length p = 4096 \<Longrightarrow> src + n \<le> 4096 \<Longrightarrow> dst + n \<le> 4096 \<Longrightarrow> safe_step (ptr_copy src dst n) p"
  by (simp_all add: safe_step_def rust_simps header_reads layout_defs length_patch length_bytes_at)

lemma safe_increment: "length p = 4096 \<Longrightarrow> safe_step (increment_free_start t n) p"
  unfolding increment_free_start_def
  by (intro safe_step_bind safe_step_if safe_step_basic arith_safe) (simp_all add: layout_defs)

lemma safe_set_free_end: "length p = 4096 \<Longrightarrow> safe_step (set_free_end t off) p"
  unfolding set_free_end_def
  by (intro safe_step_bind safe_step_if safe_step_basic arith_safe) (simp_all add: layout_defs)


lemma safe_append_slot:
  assumes "length p = 4096" and "24 \<le> fs_of p" and "fs_of p \<le> fe_of p" and "fe_of p \<le> 4096"
  shows "safe_step (append_slot_entry t sz off) p"
proof -
  have "safe_step (op_bind (ptr_write (fs_of p) (to_le_bytes off)) (\<lambda>_.
          op_bind (ptr_write (fs_of p + 2) (to_le_bytes sz)) (\<lambda>_.
          op_bind (increment_free_start t ENTRY_SIZE) (\<lambda>_. op_ret ())))) p"
    if "4 \<le> fe_of p - fs_of p"
    by (intro safe_step_bind safe_step_basic safe_increment) (use assms that in auto)
  then show ?thesis
    using assms by (simp add: safe_step_def append_slot_entry_def rust_simps header_reads layout_defs)
qed

lemma safe_insert_slot:
  assumes "length p = 4096" and "24 \<le> fs_of p" and "fs_of p \<le> fe_of p" and "fe_of p \<le> 4096"
  shows "safe_step (insert_slot_entry_at_index t idx e) p"
proof -
  define n where "n = (fs_of p - 24) div 4"
  have n: "24 + n * 4 \<le> fs_of p" using assms(2) by (simp add: n_def)
  have shift: "safe_step (op_bind (ptr_copy (24 + idx * 4) (24 + idx * 4 + 4) ((n - idx) * 4)) (\<lambda>_.
      op_bind (ptr_write (24 + idx * 4) (to_le_bytes (se_offset e))) (\<lambda>_.
      op_bind (ptr_write (24 + idx * 4 + 2) (to_le_bytes (se_length e))) (\<lambda>_.
      op_bind (increment_free_start t ENTRY_SIZE) (\<lambda>_. op_ret ()))))) p"
    if "4 \<le> fe_of p - fs_of p" "idx < n"
    by (intro safe_step_bind safe_step_basic safe_increment) (use assms that n in auto)
  consider "fe_of p - fs_of p < 4" | "4 \<le> fe_of p - fs_of p" "n < idx"
    | "4 \<le> fe_of p - fs_of p" "idx = n" | "4 \<le> fe_of p - fs_of p" "idx < n" by linarith
  then show ?thesis
  proof cases
    case 4
    have "idx * 4 < 2 ^ 64" "24 + idx * 4 < 2 ^ 64" using 4 n assms by simp_all
    with 4 shift [OF 4] assms show ?thesis
      by (simp add: safe_step_def insert_slot_entry_at_index_def rust_simps header_reads layout_defs
          Let_def flip: n_def)
  qed (use assms safe_append_slot [OF assms, of t] in \<open>simp_all add: safe_step_def
        insert_slot_entry_at_index_def rust_simps header_reads layout_defs Let_def n_def\<close>)
qed

lemma safe_add_cell:
  assumes p: "length p = 4096" "24 \<le> fs_of p" "fs_of p \<le> fe_of p" "fe_of p \<le> 4096"
    and c: "length c < 2 ^ 63"
  shows "safe_step (add_cell_append_slot_entry t c) p"
    and "safe_step (add_cell_at_slot_entry_index t idx c) p"
proof -
  have tail: "safe_step (op_bind (ptr_write (fe_of p - length c) c) (\<lambda>_.
      op_bind (set_free_end t (fe_of p - length c)) (\<lambda>_. op_ret ()))) p'"
    if "length p' = 4096" "length c + 4 \<le> fe_of p - fs_of p" for p'
    by (intro safe_step_bind safe_step_basic safe_set_free_end) (use p that in auto)
  have app: "safe_step (op_bind (append_slot_entry t sz off) (\<lambda>_.
      op_bind (ptr_write (fe_of p - length c) c) (\<lambda>_.
      op_bind (set_free_end t (fe_of p - length c)) (\<lambda>_. op_ret ())))) p"
    if "length c + 4 \<le> fe_of p - fs_of p" for sz off
    by (rule safe_step_bind [OF safe_append_slot [OF p] tail [OF _ that]])
  have ins: "safe_step (op_bind (insert_slot_entry_at_index t idx e) (\<lambda>_.
      op_bind (ptr_write (fe_of p - length c) c) (\<lambda>_.
      op_bind (set_free_end t (fe_of p - length c)) (\<lambda>_. op_ret ())))) p"
    if "length c + 4 \<le> fe_of p - fs_of p" for e
    by (rule safe_step_bind [OF safe_insert_slot [OF p] tail [OF _ that]])
  show "safe_step (add_cell_append_slot_entry t c) p"
    using p c app by (cases "length c + 4 \<le> fe_of p - fs_of p")
      (simp_all add: safe_step_def add_cell_append_slot_entry_def rust_simps header_reads layout_defs)
  show "safe_step (add_cell_at_slot_entry_index t idx c) p"
    using p c ins by (cases "length c + 4 \<le> fe_of p - fs_of p")
      (simp_all add: safe_step_def add_cell_at_slot_entry_index_def rust_simps header_reads layout_defs)
qed

lemma safe_lookup:
  assumes "length p = 4096" and "24 \<le> fs_of p" and "fs_of p \<le> 4096"
  shows "cell_slice_from_id t p s \<noteq> UB"
proof (cases "unat (sid s) < (fs_of p - 24) div 4")
  case True
  then have "24 + unat (sid s) * 4 + 4 \<le> 4096" using assms by linarith
  with True assms show ?thesis
    by (simp add: cell_slice_from_id_def slot_dir_ref_def rust_simps header_reads layout_defs Let_def
        SlotRef_new_def slot_count_def arith_safe)
next
  case False
  with assms show ?thesis
    by (auto simp: cell_slice_from_id_def slot_dir_ref_def rust_simps header_reads layout_defs Let_def
        SlotRef_new_def slot_count_def)
qed

section \<open>The two views\<close>

lemma ref_view_eqs:
  "ref_get_page_type = get_page_type" "ref_free_start = free_start" "ref_free_end = free_end"
  "ref_free_contiguous_space = free_contiguous_space" "ref_get_special_offset = get_special_offset"
  "ref_slot_dir_ref = slot_dir_ref" "ref_cell_slice_from_id = cell_slice_from_id"
  "ref_cell_slice_from_entry = cell_slice_from_entry" "ref_get_special_ref = get_special_ref"
proof -
  show fs: "ref_free_start = free_start" and fe: "ref_free_end = free_end"
    and so: "ref_get_special_offset = get_special_offset" and "ref_get_page_type = get_page_type"
    by (simp_all add: fun_eq_iff ref_free_start_def free_start_def ref_free_end_def free_end_def
        ref_get_special_offset_def get_special_offset_def ref_get_page_type_def get_page_type_def)
  show "ref_free_contiguous_space = free_contiguous_space"
    by (simp add: fun_eq_iff ref_free_contiguous_space_def free_contiguous_space_def fs fe)
  show sd: "ref_slot_dir_ref = slot_dir_ref"
    by (simp add: fun_eq_iff ref_slot_dir_ref_def slot_dir_ref_def fs)
  show "ref_cell_slice_from_id = cell_slice_from_id"
    by (simp add: fun_eq_iff ref_cell_slice_from_id_def cell_slice_from_id_def sd)
  show "ref_cell_slice_from_entry = cell_slice_from_entry"
    by (simp add: fun_eq_iff ref_cell_slice_from_entry_def cell_slice_from_entry_def)
  show "ref_get_special_ref = get_special_ref"
    by (simp add: fun_eq_iff ref_get_special_ref_def get_special_ref_def so)
qed

section \<open>Header fields\<close>

definition sets_field ::
    "usize \<Rightarrow> nat \<Rightarrow> unit page_op \<Rightarrow> (RawPage \<Rightarrow> (PageError, 'v) outcome) \<Rightarrow> 'v \<Rightarrow> RawPage \<Rightarrow> bool" where
  "sets_field off n put get v p \<longleftrightarrow>
     (case put p of (r, p') \<Rightarrow> r = Ok () \<and> get p' = Ok v \<and> length p' = length p \<and>
        (\<forall>i<length p. i < off \<or> off + n \<le> i \<longrightarrow> p' ! i = p ! i))"

lemma sets_lsn:
  "length p = 4096 \<Longrightarrow> sets_field LSN_OFFSET LSN_SIZE (set_lsn lsn) (get_lsn t) lsn p"
  by (simp add: sets_field_def set_lsn_def get_lsn_def rust_simps layout_defs length_patch nth_patch
      u64_codec.get_put_same)

lemma sets_bytes:
  assumes "length p = 4096"
  shows "sets_field PAGE_TYPE_OFFSET PAGE_TYPE_SIZE (set_page_type pt) get_page_type pt p"
    and "sets_field FLAGS_OFFSET FLAGS_SIZE (set_flags flags) get_flags flags p"
  using assms
  by (simp_all add: sets_field_def set_page_type_def get_page_type_def set_flags_def get_flags_def
      rust_simps layout_defs length_patch nth_patch)

lemma sets_u16:
  assumes "length p = 4096"
  shows "24 \<le> fs \<Longrightarrow> fs \<le> 4096 \<Longrightarrow>
      sets_field FREE_START_OFFSET FREE_START_SIZE (set_free_start t fs) (free_start t) fs p"
    and "24 \<le> fe \<Longrightarrow> fs_of p \<le> fe \<Longrightarrow> fe \<le> 4096 \<Longrightarrow>
      sets_field FREE_END_OFFSET FREE_END_SIZE (set_free_end t fe) (free_end t) fe p"
    and "special < 4096 \<Longrightarrow>
      sets_field SPECIAL_OFFSET SPECIAL_SIZE (set_special_offset special) (get_special_offset t)
        (4096 - special) p"
  using assms unat_of_nat_u16 [of fs] unat_of_nat_u16 [of fe]
  by (simp_all add: sets_field_def set_free_start_def set_free_end_def set_special_offset_def
      rust_simps header_reads layout_defs length_patch nth_patch fs_of_def fe_of_def word_at_patch_same)

section \<open>Properties\<close>

text \<open>
  C27: Appending a cell refines the abstract append. On every well-formed page, in a debug
  and in a release build and on either byte order, \<^verbatim>\<open>add_cell_append_slot_entry\<close> neither panics
  nor reaches undefined behaviour; it answers \<^verbatim>\<open>NoContigiousSpace\<close> and changes nothing when
  cell and slot do not fit, and otherwise makes the cell the last one, takes exactly the cell's
  length plus one slot from the free space, and leaves the other cells, the rest of the header
  and the special area as they were. The page stays well formed.
\<close>

theorem add_cell_append_refines:
  assumes "wf_cells p" and "length c < 2 ^ 63"
  shows "map_prod id abs_of (add_cell_append_slot_entry t c p) = abs_append c (abs_of p) \<and>
         wf_cells (snd (add_cell_append_slot_entry t c p))"
proof -
  note W = wf_cellsD(1) [OF assms(1)]
  note X = add_cell_append_exec [OF W assms(2), of t]
  show ?thesis
    using X abs_put_cell [OF assms(1), of c "count_of p"] wf_cells_put_cell [OF assms(1), of c "count_of p"] assms(1)
    by (simp add: abs_append_def abs_insert_def abs_of_def layout_defs not_le)
qed

theorem add_cell_append_refines_witness:
  "map_prod id abs_of (add_cell_append_slot_entry \<lparr>debug = True, big_endian = False\<rparr> [1, 2, 3] demo_page) =
     abs_append [1, 2, 3] (abs_of demo_page) \<and>
   fst (abs_append [1, 2, 3] (abs_of demo_page)) = Ok () \<and> wf_cells demo_page"
proof -
  have "fst (abs_append [1, 2, 3] (abs_of demo_page)) = Ok ()"
    using demo_page(3) by (simp add: abs_append_def abs_insert_def abs_of_def room_of_def layout_defs)
  then show ?thesis
    using add_cell_append_refines [OF demo_page(1), of "[1, 2, 3]" "\<lparr>debug = True, big_endian = False\<rparr>"] demo_page(1)
    by simp
qed

text \<open>
  C1: Inserting a cell at a slot index refines the abstract insertion: the same guarantees as
  for appending, with the cell at the given position and the later ones moved up by one, and
  \<^verbatim>\<open>SlotIndexNotInRange\<close> with an unchanged page when the index is beyond the number of slots.
\<close>

theorem add_cell_at_index_refines:
  assumes "wf_cells p" and "length c < 2 ^ 63"
  shows "map_prod id abs_of (add_cell_at_slot_entry_index t idx c p) = abs_insert idx c (abs_of p) \<and>
         wf_cells (snd (add_cell_at_slot_entry_index t idx c p))"
proof -
  note W = wf_cellsD(1) [OF assms(1)]
  note X = add_cell_at_exec [OF W assms(2), of t idx]
  show ?thesis
    using X abs_put_cell [OF assms(1), of c idx] wf_cells_put_cell [OF assms(1), of c idx] assms(1)
    by (simp add: abs_insert_def abs_of_def layout_defs not_le)
qed

theorem add_cell_at_index_refines_witness:
  "map_prod id abs_of (add_cell_at_slot_entry_index \<lparr>debug = False, big_endian = True\<rparr> 0 [7] demo_page) =
     abs_insert 0 [7] (abs_of demo_page) \<and>
   fst (add_cell_at_slot_entry_index \<lparr>debug = False, big_endian = True\<rparr> 5 [7] demo_page) =
     Err SlotIndexNotInRange"
proof -
  let ?t = "\<lparr>debug = False, big_endian = True\<rparr>"
  have "fst (abs_insert 5 [7] (abs_of demo_page)) = Err SlotIndexNotInRange"
    using demo_page(2-4) by (simp add: abs_insert_def abs_of_def room_of_def layout_defs)
  then show ?thesis
    using add_cell_at_index_refines [OF demo_page(1), of "[7]" ?t 0]
      arg_cong [OF add_cell_at_index_refines [OF demo_page(1), of "[7]" ?t 5, THEN conjunct1], of fst]
    by simp
qed

text \<open>
  Reading a cell by slot id returns exactly the cell of that position of a well-formed
  page, \<^verbatim>\<open>EmptySlotDir\<close> on a page without slots and \<^verbatim>\<open>SlotIDOutOfBounds\<close> beyond the last one; it
  never reports \<^verbatim>\<open>CorruptCell\<close>, panics or reads out of bounds there.
\<close>

theorem cell_slice_from_id_refines:
  assumes "wf_cells p"
  shows "cell_slice_from_id t p (SlotID i) = abs_lookup (unat i) (abs_of p)"
  using cell_slice_from_id_ok [OF assms, of t "SlotID i"] by simp

theorem cell_slice_from_id_refines_witness:
  "cell_slice_from_id \<lparr>debug = True, big_endian = False\<rparr> demo_page (SlotID 0) = Err EmptySlotDir"
  using cell_slice_from_id_refines [OF demo_page(1), of "\<lparr>debug = True, big_endian = False\<rparr>" 0] demo_page(2)
  by (simp add: abs_lookup_def abs_of_def)

text \<open>
  C28: The slot iterator terminates and yields every slot entry of the page exactly once, in
  directory order.
\<close>

theorem slot_iteration_complete:
  assumes "wf_page p"
  shows "obind (slot_dir_ref t p) (\<lambda>sd. iter_collect t p (slot_iter sd)) = Ok (entries_of p)"
  using iter_collect_from [OF assms, of 0 t]
  by (simp add: slot_dir_ref_ok [OF assms] slot_iter_def SlotDirIter_new_def)

theorem slot_iteration_complete_witness:
  "obind (slot_dir_ref \<lparr>debug = True, big_endian = False\<rparr> demo_page1)
     (\<lambda>sd. iter_collect \<lparr>debug = True, big_endian = False\<rparr> demo_page1 (slot_iter sd)) =
   (Ok [\<lparr>se_offset = 4093, se_length = 3\<rparr>] :: (unit, SlotEntry list) outcome)"
  using slot_iteration_complete [OF wf_cellsD(1) [OF demo_page1(1)], of "\<lparr>debug = True, big_endian = False\<rparr>"]
  by (simp add: demo_page1(4))

text \<open>
  C25: Capacity. Appending a list of cells one after the other succeeds exactly when the cells
  and one slot for each fit into the free space, and then the page holds the old cells followed
  by the new ones.
\<close>

theorem append_capacity:
  assumes "wf_cells p" and "\<forall>c\<in>set cs. length c < 2 ^ 63"
  shows "(fst (add_cells t cs p) = Ok () \<longleftrightarrow> (\<Sum>c\<leftarrow>cs. length c + ENTRY_SIZE) \<le> room_of p) \<and>
         (fst (add_cells t cs p) = Ok () \<longrightarrow> cells_of (snd (add_cells t cs p)) = cells_of p @ cs)"
  using slotted.append_all_capacity [OF assms, of t] add_cells_append_all [OF assms, of t]
  by (auto simp: ENTRY_SIZE_def)

theorem append_capacity_witness:
  "fst (add_cells \<lparr>debug = True, big_endian = False\<rparr> [replicate 4000 1, replicate 64 2] demo_page) = Ok () \<and>
   fst (add_cells \<lparr>debug = True, big_endian = False\<rparr> [replicate 4000 1, replicate 65 2] demo_page) \<noteq> Ok ()"
  using append_capacity [OF demo_page(1), of "[replicate 4000 1, replicate 64 2]" "\<lparr>debug = True, big_endian = False\<rparr>"]
    append_capacity [OF demo_page(1), of "[replicate 4000 1, replicate 65 2]" "\<lparr>debug = True, big_endian = False\<rparr>"]
  by (simp add: demo_page(3) ENTRY_SIZE_def)

text \<open>
  Memory safety. For any page contents whatever, as long as the two bounds stored in the
  header satisfy \<open>24 \<le> free_start \<le> free_end \<le> 4096\<close>, no cell operation and no lookup ever
  accesses memory outside the page, in any build.
\<close>

theorem sane_header_memory_safe:
  assumes "length p = PAGE_SIZE" and "HEADER_SIZE \<le> fs_of p" and "fs_of p \<le> fe_of p"
    and "fe_of p \<le> PAGE_SIZE" and "length c < 2 ^ 63"
  shows "fst (add_cell_append_slot_entry t c p) \<noteq> UB \<and>
         fst (add_cell_at_slot_entry_index t idx c p) \<noteq> UB \<and>
         cell_slice_from_id t p s \<noteq> UB"
  using safe_add_cell(1) [of p c t] safe_add_cell(2) [of p c t idx] safe_lookup [of p t s] assms
  by (simp add: layout_defs safe_step_def)

theorem sane_header_memory_safe_witness:
  "fst (add_cell_append_slot_entry \<lparr>debug = False, big_endian = False\<rparr> [1] demo_page) \<noteq> UB"
  using sane_header_memory_safe [of demo_page "[1]" "\<lparr>debug = False, big_endian = False\<rparr>" 0 "SlotID 0"]
    init_bytes_reads [OF zero_page(1), of 2] by (simp add: demo_page_def layout_defs)

text \<open>
  The bounds of the memory-safety theorem are needed. \<^verbatim>\<open>slot_dir_ref\<close> trusts the stored \<open>free_start\<close>: when it lies
  beyond the page and the slot index is large enough, the lookup reads past the end of the
  page, in every build, although the comment in the code says the offset is in bounds.
\<close>

theorem corrupt_free_start_reads_outside:
  assumes "length p = PAGE_SIZE" and "fs_of p = 65532" and "1018 \<le> unat i" and "unat i < 16377"
  shows "cell_slice_from_id t p (SlotID i) = UB"
  using assms
  by (simp add: cell_slice_from_id_def slot_dir_ref_def rust_simps layout_defs SlotRef_new_def
      slot_count_def Let_def raw_codec_UB)

theorem corrupt_free_start_reads_outside_witness:
  "cell_slice_from_id \<lparr>debug = True, big_endian = False\<rparr>
     (patch (replicate 4096 0) 12 (to_le_bytes (65532 :: u16))) (SlotID 2000) = UB"
  using corrupt_free_start_reads_outside [of "patch (replicate 4096 0) 12 (to_le_bytes (65532 :: u16))" 2000
      "\<lparr>debug = True, big_endian = False\<rparr>"]
  by (simp add: length_patch fs_of_def layout_defs word_at_patch_same)

text \<open>
  In a debug build \<^verbatim>\<open>cell_slice_from_entry\<close> panics on a cell that ends exactly at the end of
  the page, which \<^verbatim>\<open>cell_slice_from_id\<close> returns: on a page without a special area that is the
  first cell added. The assertion \<open>offset + length < PAGE_SIZE\<close> should be \<open>\<le>\<close>.
\<close>

theorem first_cell_panics_in_debug:
  assumes "wf_cells p" and "special_of p = 0" and "count_of p = 0" and "length c + 4 \<le> room_of p"
    and "debug t"
  shows "\<exists>p' se. add_cell_append_slot_entry t c p = (Ok (), p') \<and> entries_of p' = [se] \<and>
           cell_slice_from_id t p' (SlotID 0) = Ok c \<and>
           cell_slice_from_entry t p' se = (Panic :: ('e, block) outcome)"
proof -
  note W = wf_cellsD [OF assms(1)]
  note D = wf_pageD [OF W(1)]
  have room: "length c + 4 \<le> fe_of p - fs_of p" using assms(4) by (simp add: room_of_def)
  have fe: "fe_of p = 4096"
    using W(4) assms(2,3) by (simp add: entries_of_def limit_of_def layout_defs)
  have c: "length c < 2 ^ 63" using room fe by simp
  define se where "se = \<lparr>se_offset = of_nat (4096 - length c) :: u16, se_length = of_nat (length c)\<rparr>"
  have se: "unat (se_offset se) + unat (se_length se) = 4096"
    using room fe D(2) unat_of_nat_u16 [of "4096 - length c"] unat_of_nat_u16 [of "length c"]
    by (simp add: se_def)
  have X: "add_cell_append_slot_entry t c p = (Ok (), put_cell p 0 c)"
    using add_cell_append_exec [OF W(1) c, of t] room assms(3) by simp
  have E: "entries_of (put_cell p 0 c) = [se]"
    using put_cell_entries [OF W(1) room, of 0] assms(3) fe
    by (simp add: se_def insert_at_def entries_of_def)
  have "cell_slice_from_id t (put_cell p 0 c) (SlotID 0) = Ok c"
    using cell_slice_from_id_ok [OF wf_cells_put_cell [OF assms(1) room, of 0], of t "SlotID 0"]
      cells_put_cell [OF assms(1) room, of 0] assms(3)
    by (simp add: abs_lookup_def abs_of_def insert_at_def cells_Nil_iff)
  moreover have "cell_slice_from_entry t (put_cell p 0 c) se = (Panic :: ('e, block) outcome)"
    using se assms(5) by (simp add: cell_slice_from_entry_def debug_assert_def layout_defs Let_def)
  ultimately show ?thesis using X E by blast
qed

theorem first_cell_panics_in_debug_witness:
  "\<exists>p' se. add_cell_append_slot_entry \<lparr>debug = True, big_endian = False\<rparr> [1, 2] demo_page = (Ok (), p') \<and>
     cell_slice_from_id \<lparr>debug = True, big_endian = False\<rparr> p' (SlotID 0) = Ok [1, 2] \<and>
     cell_slice_from_entry \<lparr>debug = True, big_endian = False\<rparr> p' se = (Panic :: (unit, block) outcome)"
  using first_cell_panics_in_debug [OF demo_page(1), of "[1, 2]" "\<lparr>debug = True, big_endian = False\<rparr>"]
    init_bytes_reads(4) [OF zero_page(1), of 2] zero_page(2) demo_page(3,4)
  by (auto simp: demo_page_def)

text \<open>
  The header setters and getters. On any page each setter, called within its documented
  range, succeeds in every build; its getter then returns the value set, and every byte outside
  that field (the other header fields, the slot array, the cells and the special area) is kept.
\<close>

theorem header_setters_independent:
  assumes "length p = PAGE_SIZE" and "HEADER_SIZE \<le> fs" and "fs \<le> PAGE_SIZE"
    and "HEADER_SIZE \<le> fe" and "fs_of p \<le> fe" and "fe \<le> PAGE_SIZE" and "special < PAGE_SIZE_U16"
  shows "sets_field LSN_OFFSET LSN_SIZE (set_lsn lsn) (get_lsn t) lsn p \<and>
         sets_field PAGE_TYPE_OFFSET PAGE_TYPE_SIZE (set_page_type pt) get_page_type pt p \<and>
         sets_field FLAGS_OFFSET FLAGS_SIZE (set_flags flags) get_flags flags p \<and>
         sets_field FREE_START_OFFSET FREE_START_SIZE (set_free_start t fs) (free_start t) fs p \<and>
         sets_field FREE_END_OFFSET FREE_END_SIZE (set_free_end t fe) (free_end t) fe p \<and>
         sets_field SPECIAL_OFFSET SPECIAL_SIZE (set_special_offset special) (get_special_offset t)
           (PAGE_SIZE_U16 - special) p"
  using assms sets_lsn sets_bytes sets_u16 by (simp add: layout_defs)

theorem header_setters_independent_witness:
  "sets_field FREE_END_OFFSET FREE_END_SIZE (set_free_end \<lparr>debug = True, big_endian = True\<rparr> 4086)
     (free_end \<lparr>debug = True, big_endian = True\<rparr>) 4086 demo_page"
  using header_setters_independent [of demo_page 24 4086 16 0 "\<lparr>debug = True, big_endian = True\<rparr>" 0 0]
    init_bytes_reads(1,2) [OF zero_page(1), of 2]
  by (simp add: demo_page_def layout_defs)

end
