(* ===== verification/Index_Page.thy ===== *)
theory Index_Page
  imports Slotted_Properties "HOL-Library.List_Lexorder"
begin

text \<open>
  The B-link index page, \<^verbatim>\<open>page/internal_page.rs\<close>: a slotted page whose cells are
  \<^verbatim>\<open>child_ptr (8) | key_len (2) | key\<close>, with a 16-byte special area that holds the page id of
  the right sibling, and whose first cell is the high key when there is a right sibling.
  \<^verbatim>\<open>IndexPageMut\<close> and \<^verbatim>\<open>IndexPageRef\<close> wrap a slotted view, so their methods are modelled on the
  same bytes. Keys are byte strings compared lexicographically, as Rust compares slices.
\<close>

section \<open>Definitions\<close>

datatype IndexPageError = PageErr PageError | InvalidPageType | InvalidLevel

definition IndexPageError_from :: "PageError \<Rightarrow> IndexPageError" where
  "IndexPageError_from error = PageErr error"

type_synonym 'a index_op = "(RawPage, IndexPageError, 'a) op"

text \<open>The \<^verbatim>\<open>?\<close> operator on a call into the slotted page.\<close>

definition lift_page :: "'a page_op \<Rightarrow> 'a index_op" where
  "lift_page f = op_map_err IndexPageError_from f"

definition INDEX_SPECIAL_SIZE :: u16 where "INDEX_SPECIAL_SIZE = 16"
definition RIGHT_SIBLING_OFFSET :: usize where "RIGHT_SIBLING_OFFSET = 8"
definition CHILD_PTR_OFFSET :: usize where "CHILD_PTR_OFFSET = 0"
definition KEY_LEN_OFFSET :: usize where "KEY_LEN_OFFSET = 8"
definition KEY_DATA_OFFSET :: usize where "KEY_DATA_OFFSET = 10"

subsection \<open>Cells\<close>

datatype IndexCellOwned = IndexCellOwned (owned_bytes: block)

definition MAX_INDEX_CELL_SIZE :: usize where
  "MAX_INDEX_CELL_SIZE = PAGE_SIZE - HEADER_SIZE - ENTRY_SIZE"

definition IndexCellOwned_new :: "target \<Rightarrow> block \<Rightarrow> PageID \<Rightarrow> ('e, IndexCellOwned) outcome" where
  "IndexCellOwned_new t key child_ptr =
     obind (usize_add t 10 (length key)) (\<lambda>est_size.
     obind (rust_assert (est_size < MAX_INDEX_CELL_SIZE)) (\<lambda>_.
     Ok (IndexCellOwned (to_le_bytes (PageID_into child_ptr) @
           to_le_bytes (of_nat (length key) :: u16) @ key))))"

definition owned_deref :: "IndexCellOwned \<Rightarrow> block" where
  "owned_deref self = owned_bytes self"

datatype IndexCell = IndexCell (cell_bytes: block)

definition IndexCell_from :: "block \<Rightarrow> ('e, IndexCell) outcome" where
  "IndexCell_from cell_ref = obind (rust_assert (length cell_ref \<ge> 10)) (\<lambda>_. Ok (IndexCell cell_ref))"

text \<open>
  \<^verbatim>\<open>from_raw_parts\<close> makes a slice of the cell's memory without a check; a slice that runs past
  the cell is undefined behaviour.
\<close>

definition get_key :: "target \<Rightarrow> IndexCell \<Rightarrow> ('e, block) outcome" where
  "get_key t self =
     obind (read_u16_le_unsafe t (cell_bytes self) KEY_LEN_OFFSET) (\<lambda>w.
     let key_len = unat w in
     obind (debug_assert t (KEY_DATA_OFFSET + key_len \<le> length (cell_bytes self))) (\<lambda>_.
     ptr_read (cell_bytes self) KEY_DATA_OFFSET key_len))"

definition get_value_ptr :: "target \<Rightarrow> IndexCell \<Rightarrow> ('e, PageID) outcome" where
  "get_value_ptr t self =
     obind (read_u64_le_unsafe t (cell_bytes self) CHILD_PTR_OFFSET) (\<lambda>page_id.
     Ok (PageID_from page_id))"

subsection \<open>The mutable view\<close>

definition from_slotted_page :: "RawPage \<Rightarrow> RawPage" where
  "from_slotted_page page = page"

definition init_in_place :: "target \<Rightarrow> u64 \<Rightarrow> unit index_op" where
  "init_in_place t lsn =
     op_bind (lift_page wipe_page) (\<lambda>_.
     op_bind (lift_page (set_page_type
                (PageType_into_u8 (PageType_new (PageKind_as_u8 IndexInternal) 0)))) (\<lambda>_.
     op_bind (lift_page (set_special_offset INDEX_SPECIAL_SIZE)) (\<lambda>_.
     op_bind (lift_page (set_free_start t HEADER_SIZE)) (\<lambda>_.
     op_bind (lift_page (set_free_end t (PAGE_SIZE - unat INDEX_SPECIAL_SIZE))) (\<lambda>_.
     op_bind (lift_page (set_lsn lsn)) (\<lambda>_.
     op_ret ()))))))"

definition index_get_page_type :: "RawPage \<Rightarrow> ('e, PageType) outcome" where
  "index_get_page_type p = obind (get_page_type p) (\<lambda>b. Ok (PageType_from_u8 b))"

definition index_set_page_type :: "PageKind \<Rightarrow> unit index_op" where
  "index_set_page_type k = lift_page (set_page_type (PageKind_into_u8 k))"

definition index_kind :: "RawPage \<Rightarrow> ('e, PageKind) outcome" where
  "index_kind p = obind (index_get_page_type p) (\<lambda>pt. Ok (page_kind pt))"

definition index_level :: "RawPage \<Rightarrow> ('e, IndexLevel) outcome" where
  "index_level p = obind (index_get_page_type p) (\<lambda>pt. IndexLevel_from (page_sub_type pt))"

definition set_level :: "IndexLevel \<Rightarrow> unit index_op" where
  "set_level level =
     op_bind (op_read index_get_page_type) (\<lambda>pt.
     lift_page (set_page_type (PageType_into_u8 (set_subtype_page_bits pt (IndexLevel_into level)))))"

text \<open>
  \<^verbatim>\<open>special[8..16].copy_from_slice(..)\<close> on the borrowed range: the bounds are those of the
  special slice. A page without a special area is left alone silently.
\<close>

definition subslice_write :: "usize \<Rightarrow> usize \<Rightarrow> usize \<Rightarrow> usize \<Rightarrow> block \<Rightarrow> (block, 'e, unit) op" where
  "subslice_write lo hi a b src p =
     (if a \<le> b \<and> b \<le> hi - lo \<and> length src = b - a then (Ok (), patch p (lo + a) src) else (Panic, p))"

definition set_right_sibling :: "target \<Rightarrow> PageID \<Rightarrow> unit index_op" where
  "set_right_sibling t page_id p =
     (case get_special_mut t p of
        Ok (lo, hi) \<Rightarrow>
          subslice_write lo hi RIGHT_SIBLING_OFFSET (RIGHT_SIBLING_OFFSET + 8)
            (to_le_bytes (PageID_into page_id)) p
      | Err _ \<Rightarrow> (Ok (), p)
      | Panic \<Rightarrow> (Panic, p)
      | UB \<Rightarrow> (UB, p))"

definition has_right_sibling :: "target \<Rightarrow> RawPage \<Rightarrow> ('e, bool) outcome" where
  "has_right_sibling t p =
     (case get_special_ref t p of
        Ok special \<Rightarrow>
          obind (slice_range special RIGHT_SIBLING_OFFSET (RIGHT_SIBLING_OFFSET + 8)) (\<lambda>s.
          Ok (s \<noteq> replicate 8 0))
      | Err _ \<Rightarrow> Ok False
      | Panic \<Rightarrow> Panic
      | UB \<Rightarrow> UB)"

definition index_add_cell_append_slot_entry :: "target \<Rightarrow> IndexCellOwned \<Rightarrow> unit index_op" where
  "index_add_cell_append_slot_entry t cell =
     op_bind (lift_page (add_cell_append_slot_entry t (owned_bytes cell))) (\<lambda>_. op_ret ())"

definition index_add_cell_at_slot_entry_index :: "target \<Rightarrow> usize \<Rightarrow> IndexCellOwned \<Rightarrow> unit index_op" where
  "index_add_cell_at_slot_entry_index t index cell =
     op_bind (lift_page (add_cell_at_slot_entry_index t index (owned_deref cell))) (\<lambda>_. op_ret ())"

subsection \<open>The read-only view\<close>

definition ref_from_slotted_page :: "RawPage \<Rightarrow> RawPage" where
  "ref_from_slotted_page page = page"

definition ref_has_right_sibling :: "target \<Rightarrow> RawPage \<Rightarrow> ('e, bool) outcome" where
  "ref_has_right_sibling t p =
     (case ref_get_special_ref t p of
        Ok special \<Rightarrow>
          obind (slice_range special RIGHT_SIBLING_OFFSET (RIGHT_SIBLING_OFFSET + 8)) (\<lambda>s.
          Ok (s \<noteq> replicate 8 0))
      | Err _ \<Rightarrow> Ok False
      | Panic \<Rightarrow> Panic
      | UB \<Rightarrow> UB)"

definition ref_index_get_page_type :: "RawPage \<Rightarrow> ('e, PageType) outcome" where
  "ref_index_get_page_type p = obind (ref_get_page_type p) (\<lambda>b. Ok (PageType_from_u8 b))"

definition ref_index_kind :: "RawPage \<Rightarrow> ('e, PageKind) outcome" where
  "ref_index_kind p = obind (ref_index_get_page_type p) (\<lambda>pt. Ok (page_kind pt))"

definition ref_index_level :: "RawPage \<Rightarrow> ('e, IndexLevel) outcome" where
  "ref_index_level p = obind (ref_index_get_page_type p) (\<lambda>pt. IndexLevel_from (page_sub_type pt))"

definition get_right_sibling :: "target \<Rightarrow> RawPage \<Rightarrow> ('e, PageID option) outcome" where
  "get_right_sibling t p =
     (case ref_get_special_ref t p of
        Ok special \<Rightarrow>
          obind (read_u64_le_unsafe t special RIGHT_SIBLING_OFFSET) (\<lambda>sib.
          Ok (if sib = 0 then None else Some (PageID_from sib)))
      | Err _ \<Rightarrow> Ok None
      | Panic \<Rightarrow> Panic
      | UB \<Rightarrow> UB)"

text \<open>
  \<^verbatim>\<open>.iter().skip(n)\<close> drops the first \<^verbatim>\<open>n\<close> items by calling \<^verbatim>\<open>next\<close>; the loop of
  \<^verbatim>\<open>find_child_ptr\<close> returns at the first separator greater than the key.
\<close>

fun iter_skip :: "target \<Rightarrow> RawPage \<Rightarrow> nat \<Rightarrow> SlotDirIter \<Rightarrow> ('e, SlotDirIter) outcome" where
  "iter_skip t p 0 it = Ok it"
| "iter_skip t p (Suc n) it =
     obind (iter_next t p it) (\<lambda>(e, it'). case e of None \<Rightarrow> Ok it' | Some _ \<Rightarrow> iter_skip t p n it')"

lemma obind_cong [fundef_cong]:
  "r = r' \<Longrightarrow> (\<And>a. r' = Ok a \<Longrightarrow> f a = f' a) \<Longrightarrow> obind r f = obind r' f'"
  by (cases r') auto

function find_loop :: "target \<Rightarrow> RawPage \<Rightarrow> block \<Rightarrow> SlotDirIter \<Rightarrow> ('e, PageID option) outcome" where
  "find_loop t p key it =
     obind (iter_next t p it) (\<lambda>r.
     case r of
       (None, it') \<Rightarrow> Ok None
     | (Some se, it') \<Rightarrow>
         obind (ref_cell_slice_from_entry t p se) (\<lambda>slice.
         obind (IndexCell_from slice) (\<lambda>cell.
         obind (get_key t cell) (\<lambda>cell_key.
         if key < cell_key then obind (get_value_ptr t cell) (\<lambda>pid. Ok (Some pid))
         else find_loop t p key it'))))"
  by pat_completeness auto
termination
  by (relation "measure (\<lambda>(t, p, key, it). iter_slot_count it - it_pos it)")
    (auto simp: iter_next_def iter_slot_count_def dest!: next_entry_Some)

declare find_loop.simps [simp del]

definition find_child_ptr ::
    "target \<Rightarrow> RawPage \<Rightarrow> block \<Rightarrow> (IndexPageError, PageID option) outcome" where
  "find_child_ptr t p key =
     (let scan = (\<lambda>skip.
            obind (ref_slot_dir_ref t p) (\<lambda>sd.
            obind (iter_skip t p skip (slot_iter sd)) (\<lambda>it.
            find_loop t p key it)))
      in obind (ref_has_right_sibling t p) (\<lambda>has.
         if has then
           obind (map_err IndexPageError_from (ref_cell_slice_from_id t p (SlotID 0))) (\<lambda>hkc.
           obind (IndexCell_from hkc) (\<lambda>high_key_cell.
           obind (get_key t high_key_cell) (\<lambda>high_key.
           if key > high_key then get_right_sibling t p else scan 1)))
         else scan 0))"

section \<open>What an index page means\<close>

definition wf_cell :: "block \<Rightarrow> bool" where
  "wf_cell c \<longleftrightarrow> 10 \<le> length c \<and> length c = 10 + unat (word_at c 8)"

definition key_of :: "block \<Rightarrow> block" where
  "key_of c = bytes_at c 10 (length c - 10)"

definition child_of :: "block \<Rightarrow> PageID" where
  "child_of c = PageID (from_le_bytes (bytes_at c 0 8))"

definition decode_cell :: "block \<Rightarrow> block \<times> PageID" where
  "decode_cell c = (key_of c, child_of c)"

definition wf_index :: "RawPage \<Rightarrow> bool" where
  "wf_index p \<longleftrightarrow> wf_cells p \<and> special_of p = 4080 \<and> list_all wf_cell (cells_of p)"

definition index_entries :: "RawPage \<Rightarrow> (block \<times> PageID) list" where
  "index_entries p = map decode_cell (cells_of p)"

definition sibling_of :: "RawPage \<Rightarrow> PageID option" where
  "sibling_of p = (let sib = from_le_bytes (bytes_at p 4088 8) in if sib = 0 then None else Some (PageID sib))"

text \<open>The search a B-link node specifies.\<close>

fun first_above :: "block \<Rightarrow> (block \<times> PageID) list \<Rightarrow> PageID option" where
  "first_above key [] = None"
| "first_above key ((k, c) # es) = (if key < k then Some c else first_above key es)"

definition search_node ::
    "block \<Rightarrow> (block \<times> PageID) list \<Rightarrow> PageID option \<Rightarrow> (IndexPageError, PageID option) outcome" where
  "search_node key es right =
     (case right of
        None \<Rightarrow> Ok (first_above key es)
      | Some r \<Rightarrow>
          (case es of
             [] \<Rightarrow> Err (PageErr EmptySlotDir)
           | (high, _) # rest \<Rightarrow> if key > high then Ok (Some r) else Ok (first_above key rest)))"

section \<open>Cells\<close>

lemmas cell_consts = INDEX_SPECIAL_SIZE_def RIGHT_SIBLING_OFFSET_def CHILD_PTR_OFFSET_def KEY_LEN_OFFSET_def
  KEY_DATA_OFFSET_def MAX_INDEX_CELL_SIZE_def

definition encode_cell :: "block \<Rightarrow> PageID \<Rightarrow> block" where
  "encode_cell key c = to_le_bytes (pid c) @ to_le_bytes (of_nat (length key) :: u16) @ key"

lemma length_encode_cell [simp]: "length (encode_cell key c) = 10 + length key"
  by (simp add: encode_cell_def)

lemma encode_cell_ok:
  assumes "length key < 65536"
  shows "wf_cell (encode_cell key c)" "key_of (encode_cell key c) = key" "child_of (encode_cell key c) = c"
proof -
  have "bytes_at (encode_cell key c) 8 2 = to_le_bytes (of_nat (length key) :: u16)"
    by (simp add: encode_cell_def bytes_at_def)
  then show "wf_cell (encode_cell key c)"
    using assms by (simp add: wf_cell_def word_at_def u16_codec.dec_enc unat_of_nat_u16)
  show "key_of (encode_cell key c) = key"
    by (simp add: key_of_def encode_cell_def bytes_at_def)
  have "bytes_at (encode_cell key c) 0 8 = to_le_bytes (pid c)"
    by (simp add: encode_cell_def bytes_at_def)
  then show "child_of (encode_cell key c) = c" by (simp add: child_of_def u64_codec.dec_enc)
qed

lemma IndexCellOwned_new_ok:
  "10 + length key < 4068 \<Longrightarrow> IndexCellOwned_new t key c = Ok (IndexCellOwned (encode_cell key c))"
  by (simp add: IndexCellOwned_new_def rust_simps layout_defs cell_consts encode_cell_def PageID_into_def)

lemma IndexCellOwned_new_panic:
  "4068 \<le> 10 + length key \<Longrightarrow> 10 + length key < 2 ^ 64 \<Longrightarrow> IndexCellOwned_new t key c = Panic"
  by (simp add: IndexCellOwned_new_def rust_simps rust_assert_def layout_defs cell_consts)

lemma IndexCell_from_ok: "wf_cell c \<Longrightarrow> IndexCell_from c = Ok (IndexCell c)"
  by (simp add: IndexCell_from_def wf_cell_def rust_simps)

lemma get_key_ok: "wf_cell c \<Longrightarrow> get_key t (IndexCell c) = Ok (key_of c)"
  by (simp add: get_key_def wf_cell_def key_of_def rust_simps cell_consts word_at_def Let_def)

lemma get_value_ptr_ok: "wf_cell c \<Longrightarrow> get_value_ptr t (IndexCell c) = Ok (child_of c)"
  by (simp add: get_value_ptr_def wf_cell_def child_of_def rust_simps cell_consts PageID_from_def)

section \<open>The special area\<close>

lemma wf_indexD:
  assumes "wf_index p"
  shows "wf_cells p" "wf_page p" "length p = 4096" "limit_of p = 4080" "special_of p = 4080"
    "\<And>c. c \<in> set (cells_of p) \<Longrightarrow> wf_cell c"
proof -
  show w: "wf_cells p" and s: "special_of p = 4080" using assms by (simp_all add: wf_index_def)
  show c: "wf_page p" by (rule wf_cellsD [OF w])
  show "length p = 4096" by (rule wf_pageD [OF c])
  show "limit_of p = 4080" by (simp add: limit_of_def s)
  show "\<And>c. c \<in> set (cells_of p) \<Longrightarrow> wf_cell c" using assms by (simp add: wf_index_def list_all_iff)
qed

lemma special_area_ok:
  assumes "length p = 4096" and "special_of p = 4080"
  shows "get_special_ref t p = Ok (bytes_at p 4080 16)" "get_special_mut t p = Ok (4080, 4096)"
proof -
  have off: "get_special_offset t p = Ok 4080"
  proof -
    have "unat (word_at p 16) = unat (4080 :: u16)"
      using assms(2) by (simp add: special_of_def layout_defs)
    then have "word_at p 16 = 4080" by (rule unsigned_word_eqI)
    then show ?thesis using assms(1) header_reads(3) [of p t] by (simp add: layout_defs)
  qed
  show "get_special_ref t p = Ok (bytes_at p 4080 16)" "get_special_mut t p = Ok (4080, 4096)"
    using assms(1)
    by (simp_all add: get_special_ref_def get_special_mut_def off Let_def usize_sub_def rust_assert_def
        slice_range_def layout_defs)
qed

lemma zeros_dec: "length bs = 8 \<Longrightarrow> (from_le_bytes bs :: u64) = 0 \<longleftrightarrow> bs = replicate 8 0"
proof
  assume len: "length bs = 8" and "(from_le_bytes bs :: u64) = 0"
  then have "bs = to_le_bytes (0 :: u64)" using u64_codec.enc_dec [of bs] by simp
  also have "\<dots> = replicate 8 0" by (simp add: to_le_bytes_def le_enc_zero)
  finally show "bs = replicate 8 0" .
next
  assume "bs = replicate 8 0"
  then show "(from_le_bytes bs :: u64) = 0" by (simp add: from_le_bytes_def le_dec_zero)
qed

lemma right_sibling_ok:
  assumes "length p = 4096" and "special_of p = 4080"
  shows "has_right_sibling t p = Ok (sibling_of p \<noteq> None)"
    and "ref_has_right_sibling t p = Ok (sibling_of p \<noteq> None)"
    and "get_right_sibling t p = Ok (sibling_of p)"
proof -
  note S = special_area_ok [OF assms]
  have len: "length (bytes_at p 4080 16) = 16" "length (bytes_at p 4088 8) = 8"
    using assms(1) by (simp_all add: length_bytes_at)
  have sub: "bytes_at (bytes_at p 4080 16) 8 8 = bytes_at p 4088 8" by (simp add: bytes_at_bytes_at)
  have sib: "bytes_at p 4088 8 \<noteq> replicate 8 0 \<longleftrightarrow> sibling_of p \<noteq> None"
    using zeros_dec [OF len(2)] by (simp add: sibling_of_def Let_def)
  show "has_right_sibling t p = Ok (sibling_of p \<noteq> None)"
    "ref_has_right_sibling t p = Ok (sibling_of p \<noteq> None)"
    by (simp_all add: has_right_sibling_def ref_has_right_sibling_def ref_view_eqs S cell_consts
        rust_simps len sub sib)
  show "get_right_sibling t p = Ok (sibling_of p)"
    by (simp add: get_right_sibling_def ref_view_eqs S cell_consts rust_simps len sub sibling_of_def
        Let_def PageID_from_def)
qed

lemma set_right_sibling_exec:
  assumes "length p = 4096" and "special_of p = 4080"
  shows "set_right_sibling t c p = (Ok (), patch p 4088 (to_le_bytes (pid c)))"
  using special_area_ok(2) [OF assms, of t]
  by (simp add: set_right_sibling_def subslice_write_def cell_consts PageID_into_def)

section \<open>Searching\<close>

lemma cell_slice_entry_ok:
  assumes "wf_index p" and "k < count_of p"
  shows "ref_cell_slice_from_entry t p (entries_of p ! k) = Ok (cells_of p ! k)"
proof -
  note D = wf_indexD [OF assms(1)]
  have "entry_ok p (entries_of p ! k)" using wf_cellsD(2) [OF D(1)] assms(2) by simp
  then have "unat (se_offset (entries_of p ! k)) + unat (se_length (entries_of p ! k)) \<le> 4080"
    by (simp add: entry_ok_def D(4))
  then show ?thesis
    using D(3) assms(2)
    by (simp add: ref_cell_slice_from_entry_def rust_simps layout_defs Let_def nth_cells cell_of_def)
qed

lemma index_entries_drop:
  "k < count_of p \<Longrightarrow>
   drop k (index_entries p) = (key_of (cells_of p ! k), child_of (cells_of p ! k)) # drop (Suc k) (index_entries p)"
  by (simp add: index_entries_def decode_cell_def Cons_nth_drop_Suc [symmetric])

lemma find_loop_ok:
  assumes "wf_index p" and "k \<le> count_of p"
  shows "find_loop t p key \<lparr>it_ptr = 24, it_size = count_of p * 4, it_pos = k\<rparr> =
    Ok (first_above key (drop k (index_entries p)))"
  using assms(2)
proof (induction "count_of p - k" arbitrary: k)
  case 0
  then have k: "k = count_of p" by simp
  then have "drop k (index_entries p) = []" by (simp add: index_entries_def)
  with k show ?case by (subst find_loop.simps) (simp add: iter_next_end)
next
  case (Suc n)
  then have k: "k < count_of p" and n: "n = count_of p - Suc k" "Suc k \<le> count_of p" by simp_all
  note IH = Suc.hyps(1) [OF n] and D = wf_indexD [OF assms(1)]
  have c: "wf_cell (cells_of p ! k)" using D(6) k by simp
  show ?case
    by (subst find_loop.simps)
      (simp add: iter_next_ok [OF D(2) k] cell_slice_entry_ok [OF assms(1) k] IndexCell_from_ok [OF c]
        get_key_ok [OF c] get_value_ptr_ok [OF c] index_entries_drop [OF k] IH)
qed

lemma find_child_ptr_exec:
  assumes "wf_index p"
  shows "find_child_ptr t p key = search_node key (index_entries p) (sibling_of p)"
proof -
  note D = wf_indexD [OF assms]
  note R = right_sibling_ok [OF D(3,5)]
  have iter: "slot_iter \<lparr>sr_ptr = 24, sr_size = count_of p * 4\<rparr> =
      \<lparr>it_ptr = 24, it_size = count_of p * 4, it_pos = 0\<rparr>"
    by (simp add: slot_iter_def SlotDirIter_new_def)
  show ?thesis
  proof (cases "sibling_of p")
    case None
    then show ?thesis
      using find_loop_ok [OF assms, of 0 t key]
      by (simp add: find_child_ptr_def R search_node_def ref_view_eqs slot_dir_ref_ok [OF D(2)] iter)
  next
    case (Some r)
    show ?thesis
    proof (cases "count_of p = 0")
      case True
      then have "index_entries p = []" by (simp add: index_entries_def cells_Nil_iff)
      with True Some show ?thesis
        by (simp add: find_child_ptr_def R search_node_def ref_view_eqs cell_slice_from_id_ok [OF D(1)]
            abs_lookup_def abs_of_def cells_Nil_iff IndexPageError_from_def)
    next
      case False
      then have k: "0 < count_of p" by simp
      have c: "wf_cell (cells_of p ! 0)" using D(6) k by simp
      have es: "index_entries p = (key_of (cells_of p ! 0), child_of (cells_of p ! 0)) # drop 1 (index_entries p)"
        using index_entries_drop [OF k] by simp
      have look: "cell_slice_from_id t p (SlotID 0) = Ok (cells_of p ! 0)"
        using k by (simp add: cell_slice_from_id_ok [OF D(1)] abs_lookup_def abs_of_def cells_Nil_iff)
      from k have "Suc 0 \<le> count_of p" by simp
      note scan = find_loop_ok [OF assms this]
      have "search_node key (index_entries p) (sibling_of p) =
          (if key > key_of (cells_of p ! 0) then Ok (Some r)
           else Ok (first_above key (drop 1 (index_entries p))))"
        by (subst es) (simp add: search_node_def Some)
      then show ?thesis
        using Some
        by (simp add: find_child_ptr_def R ref_view_eqs scan look slot_dir_ref_ok [OF D(2)] iter
            iter_next_ok [OF D(2) k] IndexCell_from_ok [OF c] get_key_ok [OF c])
    qed
  qed
qed

section \<open>Adding cells\<close>

definition index_frame :: "block \<times> block \<times> block \<Rightarrow> bool" where
  "index_frame f \<longleftrightarrow> unat (word_at (fst (snd f)) 0) = 4080"

interpretation index_store: typed_cell_store wf_cells cells_of room_of "add_cell_at_slot_entry_index t"
  "\<lambda>p i. cell_slice_from_id t p (SlotID (of_nat i))" frame_of wf_index index_frame wf_cell for t
proof unfold_locales
  fix p
  have "word_at (bytes_at p 16 8) 0 = word_at p 16" by (simp add: word_at_bytes_at)
  then show "wf_index p \<longleftrightarrow> wf_cells p \<and> index_frame (frame_of p) \<and> list_all wf_cell (cells_of p)"
    by (simp add: wf_index_def index_frame_def frame_of_def special_of_def layout_defs)
qed

lemma frame_sibling:
  assumes "wf_index p" and "wf_index q" and "frame_of p = frame_of q"
  shows "sibling_of p = sibling_of q"
proof -
  have "bytes_at p 4080 16 = bytes_at q 4080 16"
    using assms(3) wf_indexD(4) [OF assms(1)] wf_indexD(4) [OF assms(2)]
    by (simp add: frame_of_def layout_defs)
  then have "bytes_at (bytes_at p 4080 16) 8 8 = bytes_at (bytes_at q 4080 16) 8 8" by simp
  then show ?thesis by (simp add: bytes_at_bytes_at sibling_of_def)
qed

lemma IndexPageError_from_eq: "IndexPageError_from = PageErr"
  by (simp add: fun_eq_iff IndexPageError_from_def)

lemma lift_page_eq: "lift_page f p = (map_err PageErr (fst (f p)), snd (f p))"
  by (simp add: lift_page_def op_map_err_def IndexPageError_from_eq)

lemma index_add_eq:
  "index_add_cell_at_slot_entry_index t i cell p =
     lift_page (add_cell_at_slot_entry_index t i (owned_bytes cell)) p"
  "index_add_cell_append_slot_entry t cell p =
     lift_page (add_cell_append_slot_entry t (owned_bytes cell)) p"
  by (simp_all add: index_add_cell_at_slot_entry_index_def index_add_cell_append_slot_entry_def
      owned_deref_def op_bind_def op_ret_def split: prod.split outcome.split)

lemma index_append_is_insert:
  assumes "wf_index p" and "length (owned_bytes cell) < 2 ^ 63"
  shows "index_add_cell_append_slot_entry t cell p = index_add_cell_at_slot_entry_index t (count_of p) cell p"
  using append_is_insert [OF wf_indexD(2) [OF assms(1)] assms(2), of t]
  by (simp add: index_add_eq lift_page_eq)

lemma length_index_entries [simp]: "length (index_entries p) = count_of p"
  by (simp add: index_entries_def)

lemma index_insert_fits:
  assumes "wf_index p" and "length key < 65536" and "length key + 14 \<le> room_of p" and "i \<le> count_of p"
  shows "\<exists>p'. index_add_cell_at_slot_entry_index t i (IndexCellOwned (encode_cell key c)) p = (Ok (), p') \<and>
    wf_index p' \<and> index_entries p' = insert_at i (key, c) (index_entries p) \<and>
    sibling_of p' = sibling_of p \<and> room_of p' = room_of p - (length key + 14) \<and> frame_of p' = frame_of p"
proof -
  note E = encode_cell_ok [OF assms(2), of c]
  from index_store.insert_typed [OF assms(1) E(1), of i t decode_cell] assms(2-4)
  obtain p' where p': "add_cell_at_slot_entry_index t i (encode_cell key c) p = (Ok (), p')"
    "wf_index p'" "frame_of p' = frame_of p"
    "map decode_cell (cells_of p') = insert_at i (decode_cell (encode_cell key c)) (map decode_cell (cells_of p))"
    "room_of p' = room_of p - (length key + 14)"
    by (auto simp: add.commute)
  moreover have "sibling_of p' = sibling_of p" by (rule frame_sibling [OF p'(2) assms(1) p'(3)])
  ultimately show ?thesis
    by (auto simp: index_add_eq lift_page_eq index_entries_def decode_cell_def E)
qed

lemma index_insert_refused:
  assumes "wf_index p" and "length key < 65536"
  shows "room_of p < length key + 14 \<Longrightarrow>
      index_add_cell_at_slot_entry_index t i (IndexCellOwned (encode_cell key c)) p =
        (Err (PageErr NoContigiousSpace), p)"
    and "length key + 14 \<le> room_of p \<Longrightarrow> count_of p < i \<Longrightarrow>
      index_add_cell_at_slot_entry_index t i (IndexCellOwned (encode_cell key c)) p =
        (Err (PageErr SlotIndexNotInRange), p)"
proof -
  note D = wf_indexD(1) [OF assms(1)]
  have len: "length (encode_cell key c) < 2 ^ 63" using assms(2) by simp
  show "room_of p < length key + 14 \<Longrightarrow>
      index_add_cell_at_slot_entry_index t i (IndexCellOwned (encode_cell key c)) p =
        (Err (PageErr NoContigiousSpace), p)"
    using slotted.insert_full [OF D len, where t = t and i = i] by (simp add: index_add_eq lift_page_eq)
  show "length key + 14 \<le> room_of p \<Longrightarrow> count_of p < i \<Longrightarrow>
      index_add_cell_at_slot_entry_index t i (IndexCellOwned (encode_cell key c)) p =
        (Err (PageErr SlotIndexNotInRange), p)"
    using slotted.insert_range [OF D len, where t = t and i = i] by (simp add: index_add_eq lift_page_eq)
qed

text \<open>Every outcome of an insertion of an encoded cell.\<close>

lemma index_insert_cases:
  assumes "wf_index p" and "length key < 65536"
  obtains (full) "room_of p < length key + 14"
      "index_add_cell_at_slot_entry_index t i (IndexCellOwned (encode_cell key c)) p = (Err (PageErr NoContigiousSpace), p)"
    | (range) "length key + 14 \<le> room_of p" "count_of p < i"
      "index_add_cell_at_slot_entry_index t i (IndexCellOwned (encode_cell key c)) p = (Err (PageErr SlotIndexNotInRange), p)"
    | (fits) p' where "length key + 14 \<le> room_of p" "i \<le> count_of p"
      "index_add_cell_at_slot_entry_index t i (IndexCellOwned (encode_cell key c)) p = (Ok (), p')"
      "wf_index p'" "index_entries p' = insert_at i (key, c) (index_entries p)" "sibling_of p' = sibling_of p"
      "room_of p' = room_of p - (length key + 14)" "frame_of p' = frame_of p"
  using index_insert_refused [OF assms, where t = t and c = c] index_insert_fits [OF assms, of i t c]
  by (metis linorder_not_less)

lemma IndexCellOwned_new_inv:
  assumes "IndexCellOwned_new t key c = (Ok cell :: ('e, IndexCellOwned) outcome)" and "length key < 2 ^ 63"
  shows "length key < 65536" and "cell = IndexCellOwned (encode_cell key c)"
proof -
  have small: "10 + length key < 4068"
    using assms IndexCellOwned_new_panic [of key t c, where 'a = 'e] by (cases "10 + length key < 4068") auto
  then show "length key < 65536" by simp
  show "cell = IndexCellOwned (encode_cell key c)" using assms(1) small by (simp add: IndexCellOwned_new_ok)
qed

section \<open>Initialisation, kind and level\<close>

definition init_index_bytes :: "u64 \<Rightarrow> RawPage" where
  "init_index_bytes lsn =
     (let p0 = replicate 4096 0;
          p1 = patch p0 10 [2];
          p2 = patch p1 16 (to_le_bytes (4080 :: u16));
          p3 = patch p2 12 (to_le_bytes (24 :: u16));
          p4 = patch p3 14 (to_le_bytes (4080 :: u16))
      in patch p4 0 (to_le_bytes lsn))"

lemma init_index_exec:
  assumes "length p = 4096"
  shows "init_in_place t lsn p = (Ok (), init_index_bytes lsn)"
proof -
  define p0 where "p0 = replicate 4096 (0 :: u8)"
  define p1 where "p1 = patch p0 10 [2]"
  define p2 where "p2 = patch p1 16 (to_le_bytes (4080 :: u16))"
  define p3 where "p3 = patch p2 12 (to_le_bytes (24 :: u16))"
  define p4 where "p4 = patch p3 14 (to_le_bytes (4080 :: u16))"
  define p5 where "p5 = patch p4 0 (to_le_bytes lsn)"
  have l: "length p0 = 4096" "length p1 = 4096" "length p2 = 4096" "length p3 = 4096" "length p4 = 4096"
    by (simp_all add: p0_def p1_def p2_def p3_def p4_def length_patch)
  have fs3: "fs_of p3 = 24" using l by (simp add: fs_of_def layout_defs p3_def word_at_patch_same)
  have pt: "PageType_into_u8 (PageType_new 2 0) = 2"
    by (simp add: PageType_into_u8_def PageType_new_def PAGE_TYPE_MASK_def Let_def)
  have "wipe_page p = (Ok (), p0)" using assms by (simp add: wipe_page_def p0_def)
  moreover have "set_page_type 2 p0 = (Ok (), p1)"
    using l by (simp add: set_page_type_def rust_simps layout_defs p1_def)
  moreover have "set_special_offset 16 p1 = (Ok (), p2)"
    using l by (simp add: set_special_offset_def rust_simps layout_defs p2_def)
  moreover have "set_free_start t 24 p2 = (Ok (), p3)"
    using l by (simp add: set_free_start_def rust_simps layout_defs p3_def)
  moreover have "set_free_end t 4080 p3 = (Ok (), p4)"
    using set_free_end_ok [OF l(4), of 4080 t] fs3 by (simp add: p4_def)
  moreover have "set_lsn lsn p4 = (Ok (), p5)"
    using l by (simp add: set_lsn_def rust_simps layout_defs p5_def)
  moreover have "init_index_bytes lsn = p5"
    by (simp add: init_index_bytes_def Let_def p0_def p1_def p2_def p3_def p4_def p5_def)
  ultimately show ?thesis
    by (simp add: init_in_place_def lift_page_def op_map_err_def op_bind_def op_ret_def pt cell_consts layout_defs)
qed

lemma init_index_reads:
  shows "length (init_index_bytes lsn) = 4096" and "fs_of (init_index_bytes lsn) = 24"
    and "fe_of (init_index_bytes lsn) = 4080" and "special_of (init_index_bytes lsn) = 4080"
    and "get_lsn t (init_index_bytes lsn) = Ok lsn"
    and "get_page_type (init_index_bytes lsn) = Ok 2"
    and "bytes_at (init_index_bytes lsn) 4088 8 = replicate 8 0"
proof -
  define p1 where "p1 = patch (replicate 4096 0) 10 [2]"
  define p2 where "p2 = patch p1 16 (to_le_bytes (4080 :: u16))"
  define p3 where "p3 = patch p2 12 (to_le_bytes (24 :: u16))"
  define p4 where "p4 = patch p3 14 (to_le_bytes (4080 :: u16))"
  define p5 where "p5 = patch p4 0 (to_le_bytes lsn)"
  have eq: "init_index_bytes lsn = p5"
    by (simp add: init_index_bytes_def Let_def p1_def p2_def p3_def p4_def p5_def)
  have l: "length p1 = 4096" "length p2 = 4096" "length p3 = 4096" "length p4 = 4096" "length p5 = 4096"
    by (simp_all add: p1_def p2_def p3_def p4_def p5_def length_patch)
  note w = word_at_patch_same word_at_patch_other
  show "length (init_index_bytes lsn) = 4096" by (simp add: eq l)
  show "fs_of (init_index_bytes lsn) = 24"
    using l by (simp add: eq fs_of_def layout_defs p5_def w) (simp add: p4_def w, simp add: p3_def w)
  show "fe_of (init_index_bytes lsn) = 4080"
    using l by (simp add: eq fe_of_def layout_defs p5_def w) (simp add: p4_def w)
  show "special_of (init_index_bytes lsn) = 4080"
    using l by (simp add: eq special_of_def layout_defs p5_def w)
      (simp add: p4_def w, simp add: p3_def w, simp add: p2_def w)
  show "get_lsn t (init_index_bytes lsn) = Ok lsn"
    using l by (simp add: eq get_lsn_def rust_simps layout_defs) (simp add: p5_def u64_codec.get_put_same)
  have "p5 ! 10 = 2"
    using l by (simp add: p5_def nth_patch) (simp add: p4_def nth_patch, simp add: p3_def nth_patch,
        simp add: p2_def nth_patch, simp add: p1_def nth_patch)
  then show "get_page_type (init_index_bytes lsn) = Ok 2"
    using l by (simp add: eq get_page_type_def rust_simps layout_defs)
  show "bytes_at (init_index_bytes lsn) 4088 8 = replicate 8 0"
    using l by (simp add: eq p5_def bytes_at_patch_disjoint)
      (simp add: p4_def bytes_at_patch_disjoint, simp add: p3_def bytes_at_patch_disjoint,
       simp add: p2_def bytes_at_patch_disjoint, simp add: p1_def bytes_at_patch_disjoint bytes_at_zero)
qed

end
