(* ===== verification/Index_Properties.thy ===== *)
theory Index_Properties
  imports Index_Page
begin

text \<open>
  The properties of the index page: cells round-trip, the search implements the B-link node
  search over the decoded entries, inserting a separator changes the search exactly where it
  should, initialisation and the header operations of the page type, and the limits where the
  code departs from what its assertions suggest.
\<close>

section \<open>The search over a sorted node\<close>

lemma first_above_append:
  "first_above key (xs @ ys) =
     (if \<exists>(k, c)\<in>set xs. key < k then first_above key xs else first_above key ys)"
  by (induction xs) auto

lemma first_above_None: "first_above key es = None \<longleftrightarrow> (\<forall>(k, c)\<in>set es. k \<le> key)"
  by (induction es) (auto simp: not_less split: if_splits)

lemma first_above_Some:
  assumes "sorted_wrt (<) (map fst es)"
  shows "first_above key es = Some c \<longleftrightarrow>
    (\<exists>k. (k, c) \<in> set es \<and> key < k \<and> (\<forall>k'\<in>fst ` set es. key < k' \<longrightarrow> k \<le> k'))"
  using assms
proof (induction es)
  case Nil
  then show ?case by simp
next
  case (Cons e es)
  obtain k0 c0 where e: "e = (k0, c0)" by (cases e)
  from Cons.prems have above: "\<forall>k\<in>fst ` set es. k0 < k" and s: "sorted_wrt (<) (map fst es)"
    by (auto simp: e)
  show ?case
  proof (cases "key < k0")
    case True
    have "k = k0 \<and> c = c0" if "(k, c) \<in> set (e # es)" "\<forall>k'\<in>fst ` set (e # es). key < k' \<longrightarrow> k \<le> k'" for k
      using that True above by (force simp: e)
    moreover have "\<forall>k'\<in>fst ` set (e # es). key < k' \<longrightarrow> k0 \<le> k'"
      using above by (auto simp: e less_imp_le)
    moreover have "(k0, c0) \<in> set (e # es)" by (simp add: e)
    ultimately have "(\<exists>k. (k, c) \<in> set (e # es) \<and> key < k \<and> (\<forall>k'\<in>fst ` set (e # es). key < k' \<longrightarrow> k \<le> k')) \<longleftrightarrow> c = c0"
      using True by blast
    then show ?thesis using True by (auto simp: e)
  next
    case False
    then show ?thesis using Cons.IH [OF s] by (auto simp: e)
  qed
qed

text \<open>The separators the search scans: all entries, without the high key of a split node.\<close>

definition high_slots :: "RawPage \<Rightarrow> nat" where
  "high_slots p = (if sibling_of p = None then 0 else 1)"

definition separators :: "RawPage \<Rightarrow> (block \<times> PageID) list" where
  "separators p = drop (high_slots p) (index_entries p)"

definition position_of :: "block \<Rightarrow> RawPage \<Rightarrow> nat" where
  "position_of k p = high_slots p + length (takeWhile (\<lambda>e. fst e < k) (separators p))"

lemma first_above_insert:
  assumes "sorted_wrt (<) (map fst es)" and "k \<notin> fst ` set es"
  shows "first_above key (insert_at (length (takeWhile (\<lambda>e. fst e < k) es)) (k, c) es) =
    (if key < k \<and> (\<forall>k'\<in>fst ` set es. k' < k \<longrightarrow> k' \<le> key) then Some c else first_above key es)"
proof -
  define A where "A = takeWhile (\<lambda>e. fst e < k) es"
  define B where "B = dropWhile (\<lambda>e. fst e < k) es"
  have es: "es = A @ B" by (simp add: A_def B_def)
  have split: "insert_at (length A) (k, c) es = A @ (k, c) # B"
    by (simp add: insert_at_def es)
  have A: "fst e < k" if "e \<in> set A" for e using that by (auto simp: A_def dest: set_takeWhileD)
  have B: "k < fst e" if "e \<in> set B" for e
  proof -
    from that obtain b bs where b: "B = b # bs" by (cases B) auto
    then have hd: "\<not> fst b < k" using hd_dropWhile [of "\<lambda>e. fst e < k" es] by (simp add: B_def)
    have "sorted_wrt (<) (map fst B)" using assms(1) by (simp add: es sorted_wrt_append)
    with that have "fst b \<le> fst e" by (auto simp: b less_imp_le)
    with hd have "k \<le> fst e" by simp
    moreover have "fst e \<noteq> k" using that assms(2) by (auto simp: es)
    ultimately show ?thesis by simp
  qed
  have keys: "fst ` set A = {k' \<in> fst ` set es. k' < k}" using A B by (auto simp: es dest: less_asym)
  have "(\<exists>(k', c')\<in>set A. key < k') \<longleftrightarrow> (\<exists>k'\<in>fst ` set A. key < k')" by (simp add: split_def)
  then have low: "(\<exists>(k', c')\<in>set A. key < k') \<longleftrightarrow> \<not> (\<forall>k'\<in>fst ` set es. k' < k \<longrightarrow> k' \<le> key)"
    unfolding keys by (auto simp: not_le)
  have "first_above key es = first_above key (A @ B)" by (simp add: es)
  then show ?thesis
    unfolding A_def [symmetric] split first_above_append using low by (auto split: if_splits)
qed

section \<open>Writes outside the cells\<close>

lemma patch_outside:
  assumes "wf_cells p" and "off + length bs \<le> 4096" and "off + length bs \<le> 12 \<or> limit_of p \<le> off"
  shows "fs_of (patch p off bs) = fs_of p" "fe_of (patch p off bs) = fe_of p"
    "special_of (patch p off bs) = special_of p" "cells_of (patch p off bs) = cells_of p"
    "wf_cells (patch p off bs)"
proof -
  let ?q = "patch p off bs"
  note D = wf_pageD [OF wf_cellsD(1) [OF assms(1)]]
  have len: "length ?q = 4096" using D(1) assms(2) by (simp add: length_patch)
  have w: "word_at ?q i = word_at p i" if "12 \<le> i" "i + 2 \<le> limit_of p" for i
    using that assms(2,3) D(1) by (auto simp: word_at_patch_other)
  show f: "fs_of ?q = fs_of p" "fe_of ?q = fe_of p" "special_of ?q = special_of p"
    using D w by (simp_all add: fs_of_def fe_of_def special_of_def layout_defs)
  then have lim: "limit_of ?q = limit_of p" and cnt: "count_of ?q = count_of p"
    by (simp_all add: limit_of_def count_of_def)
  have "entries_of ?q ! i = entries_of p ! i" if "i < count_of p" for i
    using that cnt D w by (simp add: nth_entries entry_at_def)
  then have ent: "entries_of ?q = entries_of p"
    by (simp add: list_eq_iff_nth_eq cnt)
  have "cell_of ?q se = cell_of p se" if "se \<in> set (entries_of p)" for se
  proof -
    have "entry_ok p se" using wf_cellsD(2) [OF assms(1) that] .
    then show ?thesis
      using assms(2,3) D by (auto simp: entry_ok_def cell_of_def intro!: bytes_at_patch_disjoint)
  qed
  then show "cells_of ?q = cells_of p" by (simp add: cells_of_def ent)
  have "entry_ok ?q = entry_ok p" by (simp add: fun_eq_iff entry_ok_def f lim)
  then show "wf_cells ?q"
    using assms(1) len D(1) by (simp add: wf_cells_def wf_page_def f lim ent layout_defs)
qed

lemma index_patch_type:
  assumes "wf_index p"
  shows "wf_index (patch p 10 [v])" "index_entries (patch p 10 [v]) = index_entries p"
    "sibling_of (patch p 10 [v]) = sibling_of p"
    "index_get_page_type (patch p 10 [v]) = (Ok (PageType v) :: ('e, PageType) outcome)"
proof -
  note D = wf_indexD [OF assms]
  note P = patch_outside [OF D(1), of 10 "[v]"]
  show "wf_index (patch p 10 [v])" "index_entries (patch p 10 [v]) = index_entries p"
    using P assms by (simp_all add: wf_index_def index_entries_def)
  show "sibling_of (patch p 10 [v]) = sibling_of p"
    using D(3) by (simp add: sibling_of_def bytes_at_patch_disjoint)
  show "index_get_page_type (patch p 10 [v]) = (Ok (PageType v) :: ('e, PageType) outcome)"
    using D(3) by (simp add: index_get_page_type_def get_page_type_def rust_simps layout_defs length_patch
        nth_patch PageType_from_u8_def)
qed

lemma set_page_type_exec:
  "length p = 4096 \<Longrightarrow> lift_page (set_page_type v) p = (Ok (), patch p 10 [v])"
  by (simp add: lift_page_def op_map_err_def set_page_type_def rust_simps layout_defs)

lemma index_page_type_ok:
  "length p = 4096 \<Longrightarrow> index_get_page_type p = Ok (PageType (p ! 10))"
  by (simp add: index_get_page_type_def get_page_type_def rust_simps layout_defs PageType_from_u8_def)

lemma level_ok: "IndexLevel_from (page_sub_type pt) = Ok (IndexLevel (page_sub_type pt))"
  by (simp add: IndexLevel_from_def IndexLevel_new_def IndexLevel_MAX_def rust_simps page_sub_type_le)

section \<open>Example pages\<close>

abbreviation (input) dev :: target where "dev \<equiv> \<lparr>debug = True, big_endian = False\<rparr>"

definition demo_index :: RawPage where "demo_index = init_index_bytes 7"

lemma fresh_index:
  "wf_index (init_index_bytes lsn)" "index_entries (init_index_bytes lsn) = []"
  "sibling_of (init_index_bytes lsn) = None" "room_of (init_index_bytes lsn) = 4056"
  "count_of (init_index_bytes lsn) = 0"
proof -
  note I = init_index_reads(1-4,7) [where lsn = lsn]
  have lim: "limit_of (init_index_bytes lsn) = 4080" using I by (simp add: limit_of_def)
  note F = wf_fresh [OF I(1,2), unfolded lim, OF I(3)]
  have c: "wf_cells (init_index_bytes lsn)" "cells_of (init_index_bytes lsn) = []" by (rule F; simp)+
  show "count_of (init_index_bytes lsn) = 0" by (rule F) simp_all
  show "wf_index (init_index_bytes lsn)" using c I by (simp add: wf_index_def)
  show "index_entries (init_index_bytes lsn) = []" using c by (simp add: index_entries_def)
  show "sibling_of (init_index_bytes lsn) = None"
    using I zeros_dec [of "replicate 8 0"] by (simp add: sibling_of_def Let_def)
  show "room_of (init_index_bytes lsn) = 4056" using I by (simp add: room_of_def)
qed

lemmas demo_index = fresh_index [of 7, folded demo_index_def]

definition demo_index1 :: RawPage where
  "demo_index1 = snd (index_add_cell_at_slot_entry_index dev 0 (IndexCellOwned (encode_cell [5] (PageID 9))) demo_index)"

lemma demo_index1:
  "wf_index demo_index1" "index_entries demo_index1 = [([5], PageID 9)]" "sibling_of demo_index1 = None"
  "room_of demo_index1 = 4041" "count_of demo_index1 = 1"
proof -
  from index_insert_fits [OF demo_index(1), of "[5]" 0 dev "PageID 9"] demo_index
  show "wf_index demo_index1" and e: "index_entries demo_index1 = [([5], PageID 9)]"
    and "sibling_of demo_index1 = None" and "room_of demo_index1 = 4041"
    by (auto simp: demo_index1_def insert_at_def)
  from e show "count_of demo_index1 = 1" using length_index_entries [of demo_index1] by simp
qed

section \<open>Properties\<close>

text \<open>
  C32: Index cells round-trip. A cell built from a key and a child pointer is accepted by
  \<^verbatim>\<open>IndexCell::from\<close>, gives back exactly that key and that child, on either byte order and in
  any build; the constructor panics exactly when the cell would reach \<^verbatim>\<open>MAX_INDEX_CELL_SIZE\<close>.
\<close>

theorem index_cell_roundtrip:
  assumes "length key < 2 ^ 63"
  shows "if 10 + length key < MAX_INDEX_CELL_SIZE
         then \<exists>cell. IndexCellOwned_new t key c = (Ok cell :: ('e, IndexCellOwned) outcome) \<and>
                IndexCell_from (owned_deref cell) = (Ok (IndexCell (owned_deref cell)) :: ('e, IndexCell) outcome) \<and>
                get_key u (IndexCell (owned_deref cell)) = (Ok key :: ('e, block) outcome) \<and>
                get_value_ptr u (IndexCell (owned_deref cell)) = (Ok c :: ('e, PageID) outcome)
         else IndexCellOwned_new t key c = (Panic :: ('e, IndexCellOwned) outcome)"
proof (cases "10 + length key < 4068")
  case True
  then have key: "length key < 65536" by simp
  note E = encode_cell_ok [OF key, of c]
  show ?thesis
    using True IndexCellOwned_new_ok [OF True, of t c]
    by (simp add: cell_consts layout_defs owned_deref_def IndexCellOwned_new_ok IndexCell_from_ok [OF E(1)]
        get_key_ok [OF E(1)] get_value_ptr_ok [OF E(1)] E)
next
  case False
  with assms show ?thesis
    by (simp add: cell_consts layout_defs IndexCellOwned_new_panic)
qed

theorem index_cell_roundtrip_witness:
  "\<exists>cell. IndexCellOwned_new dev [1, 2, 3] (PageID 77) = (Ok cell :: (unit, IndexCellOwned) outcome) \<and>
     get_key \<lparr>debug = False, big_endian = True\<rparr> (IndexCell (owned_deref cell)) = (Ok [1, 2, 3] :: (unit, block) outcome)"
  using index_cell_roundtrip [of "[1, 2, 3]" dev "PageID 77" "\<lparr>debug = False, big_endian = True\<rparr>", where 'e = unit]
  by (auto simp: cell_consts layout_defs)

text \<open>
  C2: \<^verbatim>\<open>find_child_ptr\<close> implements the B-link node search. On every well-formed index page, in
  every build, it returns what the search over the decoded entries returns: with a right
  sibling, the first entry is the high key, a greater key moves right and an empty page is the
  error \<^verbatim>\<open>EmptySlotDir\<close>; otherwise the child of the first separator greater than the key, or
  none. It terminates without panic and without reading outside the page.
\<close>

theorem find_child_ptr_refines:
  assumes "wf_index p"
  shows "find_child_ptr t p key = search_node key (index_entries p) (sibling_of p)"
  by (rule find_child_ptr_exec [OF assms])

theorem find_child_ptr_refines_witness:
  "find_child_ptr dev demo_index1 [3, 200] = Ok (Some (PageID 9)) \<and> find_child_ptr dev demo_index1 [5] = Ok None"
  using find_child_ptr_refines [OF demo_index1(1), of dev "[3, 200]"] find_child_ptr_refines [OF demo_index1(1), of dev "[5]"]
  by (simp add: demo_index1(2,3) search_node_def)

text \<open>
  On a node whose separators are in strictly increasing order, the search result is the
  child of the least separator greater than the key, and there is no result exactly when every
  separator is at most the key.
\<close>

theorem find_child_ptr_sorted:
  assumes "wf_index p" and "sorted_wrt (<) (map fst (separators p))"
    and "\<forall>r. sibling_of p = Some r \<longrightarrow> index_entries p \<noteq> [] \<and> key \<le> fst (hd (index_entries p))"
  shows "(find_child_ptr t p key = Ok (Some c) \<longleftrightarrow>
            (\<exists>k. (k, c) \<in> set (separators p) \<and> key < k \<and>
                 (\<forall>k'\<in>fst ` set (separators p). key < k' \<longrightarrow> k \<le> k'))) \<and>
         (find_child_ptr t p key = Ok None \<longleftrightarrow> (\<forall>k\<in>fst ` set (separators p). k \<le> key))"
proof -
  have "search_node key (index_entries p) (sibling_of p) = Ok (first_above key (separators p))"
    using assms(3)
    by (cases "sibling_of p"; cases "index_entries p")
      (auto simp: search_node_def separators_def high_slots_def)
  then have "find_child_ptr t p key = Ok (first_above key (separators p))"
    by (simp add: find_child_ptr_exec [OF assms(1)])
  then show ?thesis
    using first_above_Some [OF assms(2), of key c] first_above_None [of key "separators p"]
    by (auto simp: split_def)
qed

theorem find_child_ptr_sorted_witness:
  "find_child_ptr dev demo_index1 [4] = Ok (Some (PageID 9)) \<and> find_child_ptr dev demo_index1 [9] = Ok None"
  using find_child_ptr_sorted [OF demo_index1(1), of "[4]" dev "PageID 9"]
    find_child_ptr_sorted [OF demo_index1(1), of "[9]" dev "PageID 9"]
  by (simp add: separators_def high_slots_def demo_index1(2,3))

text \<open>
  C18: Inserting an entry. \<^verbatim>\<open>add_cell_at_slot_entry_index\<close> of the index page, given a cell built by
  \<^verbatim>\<open>IndexCellOwned::new\<close>, inserts exactly that key and child at that position of the decoded
  entries, keeps the page a well-formed index page and keeps the right sibling; it fails only
  for lack of space or for an index beyond the last entry, and then changes nothing.
\<close>

theorem index_insert_refines:
  assumes "wf_index p" and "IndexCellOwned_new t key c = (Ok cell :: ('e, IndexCellOwned) outcome)"
    and "length key < 2 ^ 63"
  shows "case index_add_cell_at_slot_entry_index t i cell p of
           (Ok u, p') \<Rightarrow> length key + 14 \<le> room_of p \<and> i \<le> length (index_entries p) \<and> wf_index p' \<and>
              index_entries p' = insert_at i (key, c) (index_entries p) \<and> sibling_of p' = sibling_of p
         | (Err e, p') \<Rightarrow> p' = p \<and>
              (e = PageErr NoContigiousSpace \<and> room_of p < length key + 14 \<or>
               e = PageErr SlotIndexNotInRange \<and> length (index_entries p) < i)
         | (Panic, p') \<Rightarrow> False
         | (UB, p') \<Rightarrow> False"
proof -
  note N = IndexCellOwned_new_inv [OF assms(2,3)]
  show ?thesis
    by (rule index_insert_cases [OF assms(1) N(1), of t i c]) (simp_all add: N(2))
qed

theorem index_insert_refines_witness:
  "fst (index_add_cell_at_slot_entry_index dev 3 (IndexCellOwned (encode_cell [5] (PageID 9))) demo_index) =
     Err (PageErr SlotIndexNotInRange)"
proof -
  have new: "IndexCellOwned_new dev [5] (PageID 9) = (Ok (IndexCellOwned (encode_cell [5] (PageID 9))) :: (unit, IndexCellOwned) outcome)"
    by (rule IndexCellOwned_new_ok) simp
  obtain r p' where eq: "index_add_cell_at_slot_entry_index dev 3
      (IndexCellOwned (encode_cell [5] (PageID 9))) demo_index = (r, p')" by fastforce
  have "length [5 :: u8] < 2 ^ 63" by simp
  from index_insert_refines [OF demo_index(1) new this, of 3, unfolded eq] demo_index(2,4)
  have "r = Err (PageErr SlotIndexNotInRange)" by (cases r) auto
  with eq show ?thesis by simp
qed

text \<open>
  C10: Insert and search. Putting a new separator at its sorted position changes the search
  result for exactly the keys between its predecessor and itself, as far as they are not above the
  high key of a node with a right sibling; they now lead to its child. Every other key is routed as
  before, and the keys above the high key still to the right sibling.
\<close>

theorem insert_then_search:
  assumes "wf_index p" and "sorted_wrt (<) (map fst (separators p))" and "k \<notin> fst ` set (separators p)"
    and "sibling_of p \<noteq> None \<longrightarrow> index_entries p \<noteq> []" and "length k < 65536"
    and "index_add_cell_at_slot_entry_index t (position_of k p) (IndexCellOwned (encode_cell k c)) p = (Ok (), p')"
  shows "find_child_ptr t p' key =
    (if key < k \<and> (\<forall>k'\<in>fst ` set (separators p). k' < k \<longrightarrow> k' \<le> key) \<and>
        (sibling_of p \<noteq> None \<longrightarrow> key \<le> fst (hd (index_entries p))) then Ok (Some c)
     else find_child_ptr t p key) \<and>
    (sibling_of p \<noteq> None \<and> fst (hd (index_entries p)) < key \<longrightarrow> find_child_ptr t p' key = Ok (sibling_of p))"
proof -
  let ?j = "length (takeWhile (\<lambda>e. fst e < k) (separators p))"
  have "high_slots p \<le> count_of p"
    using assms(4) length_index_entries [of p] by (cases "index_entries p") (auto simp: high_slots_def)
  moreover have "?j \<le> count_of p - high_slots p"
    using length_takeWhile_le [of "\<lambda>e. fst e < k" "separators p"] by (simp add: separators_def)
  ultimately have pos: "position_of k p \<le> count_of p" by (simp add: position_of_def)
  have room: "length k + 14 \<le> room_of p"
    using assms(6) index_insert_refused(1) [OF assms(1,5), of t "position_of k p" c]
    by (cases "length k + 14 \<le> room_of p") auto
  from index_insert_fits [OF assms(1,5) room pos, of t c] assms(6)
  have p': "wf_index p'" "index_entries p' = insert_at (position_of k p) (k, c) (index_entries p)"
    "sibling_of p' = sibling_of p" by auto
  have search: "search_node key (index_entries q) (sibling_of q) =
      (if sibling_of q \<noteq> None \<and> fst (hd (index_entries q)) < key then Ok (sibling_of q) else Ok (first_above key (separators q)))"
    if "sibling_of q \<noteq> None \<longrightarrow> index_entries q \<noteq> []" for q
    using that by (cases "sibling_of q"; cases "index_entries q")
      (auto simp: search_node_def separators_def high_slots_def)
  have "separators p' = insert_at ?j (k, c) (separators p)"
    using p' assms(4) by (cases "index_entries p")
      (auto simp: separators_def high_slots_def position_of_def insert_at_def)
  moreover have "sibling_of p' \<noteq> None \<longrightarrow> index_entries p' \<noteq> [] \<and> hd (index_entries p') = hd (index_entries p)"
    using p' assms(4) by (cases "index_entries p") (auto simp: position_of_def high_slots_def insert_at_def)
  ultimately show ?thesis
    using first_above_insert [OF assms(2,3), of key c] search [of p'] search [OF assms(4)] p'(3)
    by (auto simp: find_child_ptr_exec [OF p'(1)] find_child_ptr_exec [OF assms(1)] not_less)
qed

theorem insert_then_search_witness:
  "\<exists>p'. index_add_cell_at_slot_entry_index dev 0 (IndexCellOwned (encode_cell [2] (PageID 4))) demo_index1 = (Ok (), p') \<and>
     find_child_ptr dev p' [1, 9] = Ok (Some (PageID 4)) \<and> find_child_ptr dev p' [2] = find_child_ptr dev demo_index1 [2]"
proof -
  have pos: "position_of [2] demo_index1 = 0"
    by (simp add: position_of_def separators_def high_slots_def demo_index1(2,3))
  from index_insert_fits [OF demo_index1(1), of "[2]" 0 dev "PageID 4"] demo_index1(4)
  obtain p' where p': "index_add_cell_at_slot_entry_index dev 0
      (IndexCellOwned (encode_cell [2] (PageID 4))) demo_index1 = (Ok (), p')" by auto
  note T = insert_then_search [OF demo_index1(1), of "[2]" dev "PageID 4" p', unfolded pos]
  show ?thesis
    using p' T [of "[1, 9]"] T [of "[2]"]
    by (simp add: separators_def high_slots_def demo_index1(2,3))
qed

text \<open>
  \<^verbatim>\<open>init_in_place\<close> turns any page, whatever it held, into an empty well-formed index page:
  kind \<^verbatim>\<open>IndexInternal\<close>, level 0, no right sibling, the given LSN, and a search of it finds nothing.
\<close>

theorem init_in_place_fresh:
  assumes "length p = 4096"
  shows "\<exists>p'. init_in_place t lsn p = (Ok (), p') \<and> wf_index p' \<and> index_entries p' = [] \<and>
    index_kind p' = (Ok IndexInternal :: ('e, PageKind) outcome) \<and>
    index_level p' = (Ok (IndexLevel 0) :: ('e, IndexLevel) outcome) \<and>
    get_right_sibling t p' = (Ok None :: ('e, PageID option) outcome) \<and>
    get_lsn t p' = (Ok lsn :: ('e, u64) outcome) \<and> find_child_ptr t p' key = Ok None"
proof (intro exI conjI)
  let ?q = "init_index_bytes lsn"
  note I = init_index_reads [where lsn = lsn]
  show "init_in_place t lsn p = (Ok (), ?q)" by (rule init_index_exec [OF assms])
  show w: "wf_index ?q" and "index_entries ?q = []" by (rule fresh_index)+
  show "get_lsn t ?q = (Ok lsn :: ('e, u64) outcome)" by (rule I)
  have pt: "index_get_page_type ?q = (Ok (PageType 2) :: ('e, PageType) outcome)"
    by (simp add: index_get_page_type_def I(6) PageType_from_u8_def)
  show "index_kind ?q = (Ok IndexInternal :: ('e, PageKind) outcome)"
    by (simp add: index_kind_def pt page_kind_def page_type_def PAGE_TYPE_MASK_def PageKind_from_u8_def kind_consts)
  have "page_sub_type (PageType 2) = 0" by (simp add: page_sub_type_def SUBTYPE_MASK_def)
  then show "index_level ?q = (Ok (IndexLevel 0) :: ('e, IndexLevel) outcome)"
    using level_ok [of "PageType 2", where 'a = 'e] by (simp add: index_level_def pt)
  show "get_right_sibling t ?q = (Ok None :: ('e, PageID option) outcome)"
    by (simp add: right_sibling_ok [OF I(1,4)] fresh_index)
  show "find_child_ptr t ?q key = Ok None"
    by (simp add: find_child_ptr_exec [OF w] fresh_index search_node_def)
qed

theorem init_in_place_fresh_witness:
  "\<exists>p'. init_in_place dev 42 (replicate 4096 255) = (Ok (), p') \<and> get_lsn dev p' = (Ok 42 :: (unit, u64) outcome)"
  using init_in_place_fresh [of "replicate 4096 255" dev 42, where 'e = unit] by auto

text \<open>
  The level of an index page. \<^verbatim>\<open>set_level\<close> stores the level in the high nibble of the
  page-type byte, so a level up to 15 is read back, the kind of the page, its entries and its
  sibling do not change, and reading the level never fails its assertion.
\<close>

theorem set_level_get_level:
  assumes "wf_index p"
  shows "\<exists>p'. set_level level p = (Ok (), p') \<and> wf_index p' \<and>
    index_level p' = (Ok (IndexLevel (lvl level AND 15)) :: ('e, IndexLevel) outcome) \<and>
    index_kind p' = (index_kind p :: ('e, PageKind) outcome) \<and>
    index_entries p' = index_entries p \<and> sibling_of p' = sibling_of p"
proof (intro exI conjI)
  note D = wf_indexD [OF assms]
  let ?v = "PageType_into_u8 (set_subtype_page_bits (PageType (p ! 10)) (lvl level))"
  let ?q = "patch p 10 [?v]"
  show "set_level level p = (Ok (), ?q)"
    by (simp add: set_level_def op_bind_def op_read_def index_page_type_ok [OF D(3)] set_page_type_exec [OF D(3)]
        IndexLevel_into_def)
  note P = index_patch_type [OF assms, of ?v]
  show "wf_index ?q" "index_entries ?q = index_entries p" "sibling_of ?q = sibling_of p" by (rule P)+
  have v: "PageType ?v = set_subtype_page_bits (PageType (p ! 10)) (lvl level)"
    by (simp add: PageType_into_u8_def)
  have "lvl level AND PAGE_TYPE_MASK = lvl level AND 15" by (simp add: PAGE_TYPE_MASK_def)
  then show "index_level ?q = (Ok (IndexLevel (lvl level AND 15)) :: ('e, IndexLevel) outcome)"
    by (simp add: index_level_def P(4) v level_ok set_subtype_nibbles)
  show "index_kind ?q = (index_kind p :: ('e, PageKind) outcome)"
    by (simp add: index_kind_def P(4) v set_subtype_kind index_page_type_ok [OF D(3)])
qed

theorem set_level_get_level_witness:
  "\<exists>p'. set_level (IndexLevel 3) demo_index1 = (Ok (), p') \<and>
     index_level p' = (Ok (IndexLevel 3) :: (unit, IndexLevel) outcome) \<and> index_entries p' = [([5], PageID 9)]"
  using set_level_get_level [OF demo_index1(1), of "IndexLevel 3", where 'e = unit] demo_index1(2) by auto

text \<open>
  \<^verbatim>\<open>set_page_type\<close> of an index page writes the kind as the whole byte: the kind is read back,
  but the level of the page is lost, it reads 0 afterwards.
\<close>

theorem set_page_type_resets_level:
  assumes "wf_index p"
  shows "\<exists>p'. index_set_page_type k p = (Ok (), p') \<and> wf_index p' \<and>
    index_kind p' = (Ok k :: ('e, PageKind) outcome) \<and>
    index_level p' = (Ok (IndexLevel 0) :: ('e, IndexLevel) outcome) \<and> index_entries p' = index_entries p"
proof (intro exI conjI)
  note D = wf_indexD [OF assms]
  let ?q = "patch p 10 [PageKind_into_u8 k]"
  show "index_set_page_type k p = (Ok (), ?q)"
    by (simp add: index_set_page_type_def set_page_type_exec [OF D(3)])
  note P = index_patch_type [OF assms, of "PageKind_into_u8 k"]
  show "wf_index ?q" "index_entries ?q = index_entries p" by (rule P)+
  show "index_kind ?q = (Ok k :: ('e, PageKind) outcome)"
    using page_kind_from_kind [of k] by (simp add: index_kind_def P(4) PageType_from_u8_def)
  have "page_sub_type (PageType (PageKind_into_u8 k)) = 0"
    by (cases k) (simp_all add: page_sub_type_def SUBTYPE_MASK_def kind_consts)
  then show "index_level ?q = (Ok (IndexLevel 0) :: ('e, IndexLevel) outcome)"
    using level_ok [of "PageType (PageKind_into_u8 k)", where 'a = 'e] by (simp add: index_level_def P(4))
qed

theorem set_page_type_resets_level_witness:
  "\<exists>p'. index_set_page_type IndexLeaf demo_index1 = (Ok (), p') \<and>
     index_level p' = (Ok (IndexLevel 0) :: (unit, IndexLevel) outcome)"
  using set_page_type_resets_level [OF demo_index1(1), of IndexLeaf, where 'e = unit] by auto

text \<open>
  The right sibling. The sibling written by \<^verbatim>\<open>set_right_sibling\<close> is read back by
  \<^verbatim>\<open>get_right_sibling\<close> and announced by \<^verbatim>\<open>has_right_sibling\<close> of both views, page id 0 standing for
  none; the entries, the kind and the well-formedness of the page are kept.
\<close>

theorem set_right_sibling_get:
  assumes "wf_index p"
  shows "\<exists>p'. set_right_sibling t c p = (Ok (), p') \<and> wf_index p' \<and>
    get_right_sibling t p' = (Ok (if pid c = 0 then None else Some c) :: ('e, PageID option) outcome) \<and>
    has_right_sibling t p' = (Ok (pid c \<noteq> 0) :: ('e, bool) outcome) \<and>
    ref_has_right_sibling t p' = (Ok (pid c \<noteq> 0) :: ('e, bool) outcome) \<and>
    index_entries p' = index_entries p \<and> index_kind p' = (index_kind p :: ('e, PageKind) outcome)"
proof (intro exI conjI)
  note D = wf_indexD [OF assms]
  let ?q = "patch p 4088 (to_le_bytes (pid c))"
  show "set_right_sibling t c p = (Ok (), ?q)" by (rule set_right_sibling_exec [OF D(3,5)])
  note P = patch_outside [OF D(1), of 4088 "to_le_bytes (pid c)"]
  have q: "length ?q = 4096" "special_of ?q = 4080" using D P by (simp_all add: length_patch)
  show "wf_index ?q" "index_entries ?q = index_entries p"
    using P D assms by (simp_all add: wf_index_def index_entries_def)
  have sib: "sibling_of ?q = (if pid c = 0 then None else Some c)"
    using D(3) by (simp add: sibling_of_def u64_codec.get_put_same)
  show "get_right_sibling t ?q = (Ok (if pid c = 0 then None else Some c) :: ('e, PageID option) outcome)"
    "has_right_sibling t ?q = (Ok (pid c \<noteq> 0) :: ('e, bool) outcome)"
    "ref_has_right_sibling t ?q = (Ok (pid c \<noteq> 0) :: ('e, bool) outcome)"
    by (simp_all add: right_sibling_ok [OF q] sib)
  show "index_kind ?q = (index_kind p :: ('e, PageKind) outcome)"
    using D(3) by (simp add: index_kind_def index_page_type_ok q nth_patch)
qed

theorem set_right_sibling_get_witness:
  "\<exists>p'. set_right_sibling dev (PageID 12) demo_index1 = (Ok (), p') \<and>
     get_right_sibling dev p' = (Ok (Some (PageID 12)) :: (unit, PageID option) outcome)"
  using set_right_sibling_get [OF demo_index1(1), of dev "PageID 12", where 'e = unit] by auto

text \<open>
  The size limit of \<^verbatim>\<open>IndexCellOwned::new\<close> is not the limit of the page: a cell of 4053 to
  4067 bytes is accepted by the constructor and fits no index page, not even an empty one.
\<close>

theorem accepted_cell_fits_no_page:
  assumes "wf_index p" and "4053 \<le> 10 + length key" and "10 + length key < MAX_INDEX_CELL_SIZE"
  shows "\<exists>cell. IndexCellOwned_new t key c = (Ok cell :: ('e, IndexCellOwned) outcome) \<and>
    index_add_cell_at_slot_entry_index t i cell p = (Err (PageErr NoContigiousSpace), p) \<and>
    index_add_cell_append_slot_entry t cell p = (Err (PageErr NoContigiousSpace), p)"
proof -
  note D = wf_indexD [OF assms(1)]
  have small: "10 + length key < 4068" using assms(3) by (simp add: cell_consts layout_defs)
  then have key: "length key < 65536" by simp
  have "room_of p \<le> 4056" using wf_pageD [OF D(2)] D(4) by (simp add: room_of_def)
  then have full: "room_of p < length key + 14" using assms(2) by simp
  note R = index_insert_refused(1) [OF assms(1) key full]
  have "length (owned_bytes (IndexCellOwned (encode_cell key c))) < 2 ^ 63" using small by simp
  note A = index_append_is_insert [OF assms(1) this]
  show ?thesis
    by (rule exI [where x = "IndexCellOwned (encode_cell key c)"]) (simp add: IndexCellOwned_new_ok [OF small] A R)
qed

theorem accepted_cell_fits_no_page_witness:
  "\<exists>cell. IndexCellOwned_new dev (replicate 4050 1) (PageID 9) = (Ok cell :: (unit, IndexCellOwned) outcome) \<and>
     index_add_cell_append_slot_entry dev cell demo_index = (Err (PageErr NoContigiousSpace), demo_index)"
  using accepted_cell_fits_no_page [OF demo_index(1), of "replicate 4050 1" dev "PageID 9", where 'e = unit]
  by (auto simp: cell_consts layout_defs)

text \<open>
  \<^verbatim>\<open>get_key\<close> trusts the length stored in the cell. When it is longer than the cell, a debug
  build panics, and a release build makes a slice that runs past the cell, which is undefined
  behaviour; the check of \<^verbatim>\<open>IndexCell::from\<close> does not exclude it.
\<close>

theorem corrupt_key_length_reads_outside:
  assumes "10 \<le> length c" and "length c < 10 + unat (word_at c 8)"
  shows "IndexCell_from c = (Ok (IndexCell c) :: ('e, IndexCell) outcome) \<and>
    get_key t (IndexCell c) = (if debug t then Panic else UB :: ('e, block) outcome)"
  using assms
  by (simp add: IndexCell_from_def get_key_def rust_simps cell_consts word_at_def Let_def debug_assert_def
      ptr_read_def)

theorem corrupt_key_length_reads_outside_witness:
  "get_key \<lparr>debug = False, big_endian = False\<rparr> (IndexCell (replicate 8 0 @ [4, 0, 7])) = (UB :: (unit, block) outcome)"
  using corrupt_key_length_reads_outside [of "replicate 8 0 @ [4, 0, 7]" "\<lparr>debug = False, big_endian = False\<rparr>",
      where 'e = unit]
  by (simp add: word_at_def bytes_at_def from_le_bytes_def)

end
