(* ===== verification/Page_Shape.thy ===== *)
theory Page_Shape
  imports Index_Properties
begin

text \<open>
  The loops over the slot directory end on any contents whatever, however wrong the directory is.
\<close>

section \<open>Loops over the slot directory\<close>

text \<open>The loops with a bound on the calls of \<^verbatim>\<open>next\<close>; \<open>None\<close> when the bound is reached.\<close>

fun collect_within :: "nat \<Rightarrow> target \<Rightarrow> RawPage \<Rightarrow> SlotDirIter \<Rightarrow> ('e, SlotEntry list) outcome option" where
  "collect_within 0 t p it = None"
| "collect_within (Suc n) t p it =
     (case iter_next t p it of
        Ok (None, it') \<Rightarrow> Some (Ok [])
      | Ok (Some e, it') \<Rightarrow> map_option (\<lambda>r. obind r (\<lambda>es. Ok (e # es))) (collect_within n t p it')
      | Err x \<Rightarrow> Some (Err x)
      | Panic \<Rightarrow> Some Panic
      | UB \<Rightarrow> Some UB)"

definition read_separator :: "target \<Rightarrow> RawPage \<Rightarrow> SlotEntry \<Rightarrow> ('e, IndexCell \<times> block) outcome" where
  "read_separator t p se =
     obind (ref_cell_slice_from_entry t p se) (\<lambda>slice.
     obind (IndexCell_from slice) (\<lambda>cell.
     obind (get_key t cell) (\<lambda>cell_key. Ok (cell, cell_key))))"

fun find_within :: "nat \<Rightarrow> target \<Rightarrow> RawPage \<Rightarrow> block \<Rightarrow> SlotDirIter \<Rightarrow> ('e, PageID option) outcome option" where
  "find_within 0 t p key it = None"
| "find_within (Suc n) t p key it =
     (case iter_next t p it of
        Ok (None, it') \<Rightarrow> Some (Ok None)
      | Ok (Some se, it') \<Rightarrow>
          (case read_separator t p se of
             Ok (cell, cell_key) \<Rightarrow>
               if key < cell_key then Some (obind (get_value_ptr t cell) (\<lambda>pid. Ok (Some pid)))
               else find_within n t p key it'
           | Err x \<Rightarrow> Some (Err x) | Panic \<Rightarrow> Some Panic | UB \<Rightarrow> Some UB)
      | Err x \<Rightarrow> Some (Err x)
      | Panic \<Rightarrow> Some Panic
      | UB \<Rightarrow> Some UB)"

lemma next_left:
  assumes "iter_next t p it = Ok (Some e, it')"
  shows "Suc (iter_slot_count it' - it_pos it') = iter_slot_count it - it_pos it"
  using next_entry_Some [OF assms [unfolded iter_next_def]] by (auto simp: iter_slot_count_def)

lemma collect_within_enough:
  "iter_slot_count it - it_pos it < n \<Longrightarrow> collect_within n t p it = (Some (iter_collect t p it) :: ('e, SlotEntry list) outcome option)"
proof (induction n arbitrary: it)
  case (Suc n)
  have "collect_within n t p it' = (Some (iter_collect t p it') :: ('e, SlotEntry list) outcome option)" if "iter_next t p it = (Ok (Some e, it') :: ('e, _) outcome)" for e it'
    using Suc.IH [of it'] Suc.prems next_left [OF that] by simp
  then show ?case
    by (subst iter_collect.simps) (auto split: outcome.split option.split)
qed simp

lemma find_loop_separators:
  "find_loop t p key it =
     (case iter_next t p it of
        Ok (None, it') \<Rightarrow> Ok None
      | Ok (Some se, it') \<Rightarrow>
          obind (read_separator t p se) (\<lambda>(cell, cell_key).
            if key < cell_key then obind (get_value_ptr t cell) (\<lambda>pid. Ok (Some pid)) else find_loop t p key it')
      | Err x \<Rightarrow> Err x | Panic \<Rightarrow> Panic | UB \<Rightarrow> UB)"
  by (subst find_loop.simps) (simp add: read_separator_def obind_assoc split: outcome.split option.split)

lemma find_within_enough:
  "iter_slot_count it - it_pos it < n \<Longrightarrow> find_within n t p key it = (Some (find_loop t p key it) :: ('e, PageID option) outcome option)"
proof (induction n arbitrary: it)
  case (Suc n)
  have "find_within n t p key it' = (Some (find_loop t p key it') :: ('e, PageID option) outcome option)" if "iter_next t p it = (Ok (Some e, it') :: ('e, _) outcome)" for e it'
    using Suc.IH [of it'] Suc.prems next_left [OF that] by simp
  then show ?case
    by (subst find_loop_separators) (auto split: outcome.split option.split)
qed simp

lemma iter_skip_left:
  "iter_skip t p k it = (Ok it' :: ('e, SlotDirIter) outcome) \<Longrightarrow> iter_slot_count it' - it_pos it' \<le> iter_slot_count it - it_pos it"
proof (induction k arbitrary: it)
  case (Suc k)
  then obtain e it1 where n: "iter_next t p it = (Ok (e, it1) :: ('e, SlotEntry option \<times> SlotDirIter) outcome)" by (auto simp: obind_eq_Ok)
  show ?case
  proof (cases e)
    case None
    then have "it1 = it" "it' = it1" using n Suc.prems by (auto simp: iter_next_def next_entry_def obind_eq_Ok Let_def split: if_splits)
    then show ?thesis by simp
  next
    case (Some se)
    then have "iter_skip t p k it1 = (Ok it' :: ('e, SlotDirIter) outcome)" using n Suc.prems by simp
    from Suc.IH [OF this] next_left [OF n [unfolded Some]] show ?thesis by simp
  qed
qed simp

section \<open>Properties\<close>

text \<open>
  C22: Loops over the slot directory end. On every page, however corrupt, iterating the directory
  and the scan of \<^verbatim>\<open>find_child_ptr\<close>, which starts at the first slot or, on a page with a right sibling,
  behind the high key, come back after at most one call of \<^verbatim>\<open>next\<close> more than the directory has slots,
  at most 16378 calls, with the results the model gives them.
\<close>

theorem slot_scan_terminates:
  assumes "length p = PAGE_SIZE" and "slot_dir_ref t p = (Ok sd :: ('e, SlotRef) outcome)"
    and "iter_skip t p skip (slot_iter sd) = (Ok it :: ('e, SlotDirIter) outcome)"
  shows "slot_count sd + 1 \<le> 16378 \<and>
    collect_within (slot_count sd + 1) t p it = (Some (iter_collect t p it) :: ('e, SlotEntry list) outcome option) \<and>
    find_within (slot_count sd + 1) t p key it = (Some (find_loop t p key it) :: ('e, PageID option) outcome option)"
proof -
  have sd: "sr_size sd = fs_of p - 24" and fs: "24 \<le> fs_of p"
    using assms(1,2) by (auto simp: slot_dir_ref_def header_reads rust_assert_def usize_sub_def layout_defs SlotRef_new_def split: if_splits)
  have n: "iter_slot_count (slot_iter sd) = slot_count sd" "it_pos (slot_iter sd) = 0"
    by (simp_all add: iter_slot_count_def slot_iter_def SlotDirIter_new_def slot_count_def layout_defs)
  then have left: "iter_slot_count it - it_pos it < slot_count sd + 1" using iter_skip_left [OF assms(3)] by simp
  have "(fs_of p - 24) div 4 \<le> (65535 - 24) div 4" using fields_bound(1) [of p] by (intro div_le_mono) simp
  then have "slot_count sd + 1 \<le> 16378" by (simp add: slot_count_def sd layout_defs)
  then show ?thesis using collect_within_enough [OF left] find_within_enough [OF left] by blast
qed

theorem slot_scan_terminates_witness:
  "find_within 2 \<lparr>debug = True, big_endian = False\<rparr> demo_index1 [3] \<lparr>it_ptr = 24, it_size = 4, it_pos = 0\<rparr> =
     (Some (Ok (Some (PageID 9))) :: (unit, PageID option) outcome option) \<and>
   find_within 2 \<lparr>debug = True, big_endian = False\<rparr> demo_index1 [3] \<lparr>it_ptr = 24, it_size = 4, it_pos = 1\<rparr> =
     (Some (Ok None) :: (unit, PageID option) outcome option)"
proof -
  let ?t = "\<lparr>debug = True, big_endian = False\<rparr>" and ?sd = "\<lparr>sr_ptr = 24, sr_size = 4\<rparr>"
  note D = wf_indexD [OF demo_index1(1)]
  have sd: "slot_dir_ref ?t demo_index1 = (Ok ?sd :: (unit, SlotRef) outcome)" by (simp add: slot_dir_ref_ok [OF D(2)] demo_index1(5))
  have i0: "iter_skip ?t demo_index1 0 (slot_iter ?sd) = (Ok \<lparr>it_ptr = 24, it_size = 4, it_pos = 0\<rparr> :: (unit, SlotDirIter) outcome)"
    by (simp add: slot_iter_def SlotDirIter_new_def)
  have i1: "iter_skip ?t demo_index1 1 (slot_iter ?sd) = (Ok \<lparr>it_ptr = 24, it_size = 4, it_pos = 1\<rparr> :: (unit, SlotDirIter) outcome)"
    using iter_next_ok [OF D(2), of 0 ?t, where 'a = unit] demo_index1(5) by (simp add: slot_iter_def SlotDirIter_new_def)
  have l: "length demo_index1 = PAGE_SIZE" using D(3) by (simp add: PAGE_SIZE_def)
  have F: "find_loop ?t demo_index1 [3] \<lparr>it_ptr = 24, it_size = 4, it_pos = k\<rparr> =
      (Ok (first_above [3] (drop k [([5], PageID 9)])) :: (unit, PageID option) outcome)" if "k \<le> 1" for k
    using find_loop_ok [OF demo_index1(1), of k ?t "[3]", where 'a = unit] demo_index1(2,5) that by simp
  show ?thesis
    using slot_scan_terminates [OF l sd i0, of "[3]"] slot_scan_terminates [OF l sd i1, of "[3]"] F [of 0] F [of 1]
    by (simp add: slot_count_def ENTRY_SIZE_def del: find_within.simps collect_within.simps flip: numeral_2_eq_2)
qed

end
