(* ===== verification/Transition.thy ===== *)
theory Transition
  imports Main
begin

text \<open>
  Step relations of the concurrent components: reachability, the interface of an invariant and
  of a stable property, and the rules every state machine of the development uses.
\<close>

section \<open>Reachability\<close>

inductive reach :: "('s \<Rightarrow> bool) \<Rightarrow> ('s \<Rightarrow> 's \<Rightarrow> bool) \<Rightarrow> 's \<Rightarrow> bool" for init step where
  reach_init: "init s \<Longrightarrow> reach init step s"
| reach_step: "reach init step s \<Longrightarrow> step s s' \<Longrightarrow> reach init step s'"

lemma reach_steps: "step\<^sup>*\<^sup>* s s' \<Longrightarrow> reach init step s \<Longrightarrow> reach init step s'"
  by (induction rule: rtranclp_induct) (auto intro: reach_step)

section \<open>Interfaces\<close>

text \<open>An inductive invariant of a transition system.\<close>

locale invariant_system =
  fixes init :: "'s \<Rightarrow> bool" and step :: "'s \<Rightarrow> 's \<Rightarrow> bool" and inv :: "'s \<Rightarrow> bool"
  assumes inv_init: "init s \<Longrightarrow> inv s"
    and inv_step: "inv s \<Longrightarrow> step s s' \<Longrightarrow> inv s'"
begin

lemma reach_inv: "reach init step s \<Longrightarrow> inv s"
  by (induction rule: reach.induct) (auto intro: inv_init inv_step)

lemma steps_inv: "step\<^sup>*\<^sup>* s s' \<Longrightarrow> inv s \<Longrightarrow> inv s'"
  by (induction rule: rtranclp_induct) (auto intro: inv_step)

end

text \<open>
  A relation between a state and its successors that every step respects, given the invariant:
  what holds of one step holds of every execution.
\<close>

locale guarantee_system = invariant_system init step inv
  for init :: "'s \<Rightarrow> bool" and step :: "'s \<Rightarrow> 's \<Rightarrow> bool" and inv :: "'s \<Rightarrow> bool" +
  fixes guar :: "'s \<Rightarrow> 's \<Rightarrow> bool"
  assumes guar_refl: "guar s s"
    and guar_trans: "guar s s' \<Longrightarrow> guar s' s'' \<Longrightarrow> guar s s''"
    and guar_step: "inv s \<Longrightarrow> step s s' \<Longrightarrow> guar s s'"
begin

lemma steps_guar: "step\<^sup>*\<^sup>* s s' \<Longrightarrow> inv s \<Longrightarrow> guar s s'"
proof (induction rule: rtranclp_induct)
  case base
  show ?case by (rule guar_refl)
next
  case (step y z)
  from steps_inv [OF step.hyps(1) step.prems] have "guar y z" using step.hyps(2) by (rule guar_step)
  with step.IH [OF step.prems] show ?case by (rule guar_trans)
qed

lemma reach_guar: "reach init step s \<Longrightarrow> step\<^sup>*\<^sup>* s s' \<Longrightarrow> guar s s'"
  using reach_inv steps_guar by blast

end

text \<open>
  A refinement mapping: every step of the system, given its invariant, is mapped to zero or more
  steps of another. The reachable states of the first are then mapped to reachable states of the second.
\<close>

locale refinement_mapping = invariant_system init step inv
  for init :: "'s \<Rightarrow> bool" and step :: "'s \<Rightarrow> 's \<Rightarrow> bool" and inv :: "'s \<Rightarrow> bool" +
  fixes ainit :: "'a \<Rightarrow> bool" and astep :: "'a \<Rightarrow> 'a \<Rightarrow> bool" and mapping :: "'s \<Rightarrow> 'a"
  assumes init_mapped: "init s \<Longrightarrow> ainit (mapping s)"
    and step_mapped: "inv s \<Longrightarrow> step s s' \<Longrightarrow> astep\<^sup>*\<^sup>* (mapping s) (mapping s')"
begin

lemma reach_mapped: "reach init step s \<Longrightarrow> reach ainit astep (mapping s)"
proof (induction rule: reach.induct)
  case (reach_init s)
  then show ?case by (intro reach.reach_init init_mapped)
next
  case (reach_step s s')
  have "astep\<^sup>*\<^sup>* (mapping s) (mapping s')" using reach_inv [OF reach_step.hyps(1)] reach_step.hyps(2) by (rule step_mapped)
  then show ?case using reach_step.IH by (induction rule: rtranclp_induct) (auto intro: reach.reach_step)
qed

end

section \<open>Runs of commands\<close>

text \<open>A caller that gives commands one after the other, with the answer to each.\<close>

fun run_cmds :: "('c \<Rightarrow> 's \<Rightarrow> 'o \<times> 's) \<Rightarrow> 'c list \<Rightarrow> 's \<Rightarrow> 'o list \<times> 's" where
  "run_cmds f [] s = ([], s)"
| "run_cmds f (c # cs) s = (let (r, s') = f c s; (rs, s'') = run_cmds f cs s' in (r # rs, s''))"

text \<open>
  Data refinement: on states with the invariant every legal command answers and moves as the
  specification does on the abstract state. What holds of one command holds of every run.
\<close>

locale data_refinement =
  fixes invar :: "'s \<Rightarrow> bool" and abstract :: "'s \<Rightarrow> 'a" and legal :: "'c \<Rightarrow> bool"
    and cexec :: "'c \<Rightarrow> 's \<Rightarrow> 'o \<times> 's" and aexec :: "'c \<Rightarrow> 'a \<Rightarrow> 'o \<times> 'a"
  assumes command_invar: "invar s \<Longrightarrow> legal c \<Longrightarrow> invar (snd (cexec c s))"
    and command_refines: "invar s \<Longrightarrow> legal c \<Longrightarrow> map_prod id abstract (cexec c s) = aexec c (abstract s)"
begin

lemma run_refines:
  assumes "invar s" and "list_all legal cs"
  shows "map_prod id abstract (run_cmds cexec cs s) = run_cmds aexec cs (abstract s) \<and> invar (snd (run_cmds cexec cs s))"
  using assms
proof (induction cs arbitrary: s)
  case (Cons c cs)
  obtain r s' where c: "cexec c s = (r, s')" by fastforce
  have I: "invar s'" and R: "aexec c (abstract s) = (r, abstract s')"
    using Cons.prems command_invar [of s c] command_refines [of s c] c by simp_all
  obtain rs s'' where cs: "run_cmds cexec cs s' = (rs, s'')" by fastforce
  have "run_cmds aexec cs (abstract s') = (rs, abstract s'') \<and> invar s''"
    using Cons.IH [OF I] Cons.prems cs by simp
  then show ?case by (simp add: c cs R)
qed simp

text \<open>An answer no command of the specification gives is given in no run.\<close>

lemma run_never:
  assumes "invar s" and "list_all legal cs" and "\<And>c a. fst (aexec c a) \<noteq> bad"
  shows "bad \<notin> set (fst (run_cmds cexec cs s))"
proof -
  have "bad \<notin> set (fst (run_cmds aexec cs a))" for a
  proof (induction cs arbitrary: a)
    case (Cons c cs)
    obtain r a' where c: "aexec c a = (r, a')" by fastforce
    then show ?case using Cons.IH [of a'] assms(3) [of c a] by (auto simp: split_def Let_def)
  qed simp
  moreover have "fst (run_cmds cexec cs s) = fst (run_cmds aexec cs (abstract s))"
    using run_refines [OF assms(1,2)] by (metis fst_map_prod id_apply)
  ultimately show ?thesis by simp
qed

text \<open>Answers depend on the abstract state only.\<close>

lemma run_answers:
  assumes "invar s" and "invar s'" and "abstract s = abstract s'" and "list_all legal cs"
  shows "fst (run_cmds cexec cs s) = fst (run_cmds cexec cs s')"
  using run_refines [OF assms(1,4)] run_refines [OF assms(2,4)] assms(3)
  by (metis fst_map_prod id_apply)

end

text \<open>A run each command of which is legal in the state it is given in.\<close>

fun legal_run :: "('c \<Rightarrow> 's \<Rightarrow> 'o \<times> 's) \<Rightarrow> ('s \<Rightarrow> 'c \<Rightarrow> bool) \<Rightarrow> 'c list \<Rightarrow> 's \<Rightarrow> bool" where
  "legal_run f legal [] s \<longleftrightarrow> True"
| "legal_run f legal (c # cs) s \<longleftrightarrow> legal s c \<and> legal_run f legal cs (snd (f c s))"

lemma legal_run_always: "legal_run f (\<lambda>_. legal) cs s \<longleftrightarrow> list_all legal cs"
  by (induction cs arbitrary: s) simp_all

text \<open>
  A machine that is safe: legal commands keep an invariant and give no bad answer under it. The
  invariant may say far less than that the machine works, and which commands are legal may depend on the state.
\<close>

locale safe_machine =
  fixes invar :: "'s \<Rightarrow> bool" and legal :: "'s \<Rightarrow> 'c \<Rightarrow> bool" and cexec :: "'c \<Rightarrow> 's \<Rightarrow> 'o \<times> 's" and bad :: 'o
  assumes preservation: "invar s \<Longrightarrow> legal s c \<Longrightarrow> invar (snd (cexec c s))"
    and no_bad: "invar s \<Longrightarrow> legal s c \<Longrightarrow> fst (cexec c s) \<noteq> bad"
begin

lemma run_safe:
  assumes "invar s" and "legal_run cexec legal cs s"
  shows "invar (snd (run_cmds cexec cs s)) \<and> bad \<notin> set (fst (run_cmds cexec cs s))"
  using assms
proof (induction cs arbitrary: s)
  case (Cons c cs)
  obtain r s' where c: "cexec c s = (r, s')" by fastforce
  then have "invar s'" "r \<noteq> bad" using Cons.prems preservation [of s c] no_bad [of s c] by auto
  then show ?case using Cons.IH [of s'] Cons.prems c by (auto simp: split_def Let_def)
qed simp

end

end
