(* ===== verification/Slotted_Machine.thy ===== *)
theory Slotted_Machine
  imports Index_Properties Transition
begin

text \<open>
  The interfaces of \<^verbatim>\<open>SlottedPageMut\<close> and \<^verbatim>\<open>SlottedPageRef\<close>, \<^verbatim>\<open>page/slotted_page.rs\<close>, as the page types
  use them: a command for each operation that keeps a page well formed, run on the bytes of a page, and the store of
  cells they implement. Any sequence of commands answers on the bytes what it answers on the store.
  Not among the commands are the operations a caller can break the page with: \<^verbatim>\<open>wipe_page\<close> and \<^verbatim>\<open>init_new\<close> one
  without the other, the setters of the free-space pointers and of the special offset, and single
  slot entries; and the reads by slot entry, whose result is not a function of the cells. All of these are
  commands of \<open>Slotted_Safety\<close>.
\<close>

section \<open>Commands\<close>

datatype page_view = MutView | RefView

datatype slotted_cmd =
    WipeInit u8
  | SetType u8
  | SetFlags u8
  | SetLsn u64
  | AppendCell block
  | InsertCell usize block
  | FillSpecial block
  | GetType page_view
  | GetFlags
  | GetLsn
  | FreeStart page_view
  | FreeEnd page_view
  | FreeSpace page_view
  | Fragmented page_view
  | SlotCount page_view
  | CellById page_view SlotID
  | SpecialOffset page_view
  | SpecialSize
  | GetSpecial page_view

datatype slotted_answer =
    Unit
  | Byte u8
  | Lsn u64
  | Count usize
  | Offset u16
  | Bytes block

text \<open>
  \<^verbatim>\<open>FillSpecial\<close> borrows the special area and copies a slice of its length into it, as the page types
  do; \<^verbatim>\<open>SlotCount\<close> asks the slot directory for its number of slots.
\<close>

fun slotted_exec :: "target \<Rightarrow> slotted_cmd \<Rightarrow> slotted_answer page_op" where
  "slotted_exec t (WipeInit ty) = op_bind wipe_page (\<lambda>_. op_bind (init_new ty) (\<lambda>_. op_ret Unit))"
| "slotted_exec t (SetType ty) = op_bind (set_page_type ty) (\<lambda>_. op_ret Unit)"
| "slotted_exec t (SetFlags f) = op_bind (set_flags f) (\<lambda>_. op_ret Unit)"
| "slotted_exec t (SetLsn l) = op_bind (set_lsn l) (\<lambda>_. op_ret Unit)"
| "slotted_exec t (AppendCell c) = op_bind (add_cell_append_slot_entry t c) (\<lambda>_. op_ret Unit)"
| "slotted_exec t (InsertCell i c) = op_bind (add_cell_at_slot_entry_index t i c) (\<lambda>_. op_ret Unit)"
| "slotted_exec t (FillSpecial bs) =
     op_bind (op_read (get_special_mut t)) (\<lambda>(lo, hi). op_bind (slice_write lo hi bs) (\<lambda>_. op_ret Unit))"
| "slotted_exec t (GetType v) =
     op_bind (op_read (case v of MutView \<Rightarrow> get_page_type | RefView \<Rightarrow> ref_get_page_type)) (\<lambda>b. op_ret (Byte b))"
| "slotted_exec t GetFlags = op_bind (op_read get_flags) (\<lambda>b. op_ret (Byte b))"
| "slotted_exec t GetLsn = op_bind (op_read (get_lsn t)) (\<lambda>l. op_ret (Lsn l))"
| "slotted_exec t (FreeStart v) =
     op_bind (op_read (case v of MutView \<Rightarrow> free_start t | RefView \<Rightarrow> ref_free_start t)) (\<lambda>n. op_ret (Count n))"
| "slotted_exec t (FreeEnd v) =
     op_bind (op_read (case v of MutView \<Rightarrow> free_end t | RefView \<Rightarrow> ref_free_end t)) (\<lambda>n. op_ret (Count n))"
| "slotted_exec t (FreeSpace v) =
     op_bind (op_read (case v of MutView \<Rightarrow> free_contiguous_space t | RefView \<Rightarrow> ref_free_contiguous_space t)) (\<lambda>n. op_ret (Count n))"
| "slotted_exec t (Fragmented v) =
     op_bind (op_read (\<lambda>p. Ok (case v of MutView \<Rightarrow> free_fragmented_space p | RefView \<Rightarrow> ref_free_fragmented_space p)))
       (\<lambda>n. op_ret (Count n))"
| "slotted_exec t (SlotCount v) =
     op_bind (op_read (case v of MutView \<Rightarrow> slot_dir_ref t | RefView \<Rightarrow> ref_slot_dir_ref t)) (\<lambda>d. op_ret (Count (slot_count d)))"
| "slotted_exec t (CellById v s) =
     op_bind (op_read (\<lambda>p. case v of MutView \<Rightarrow> cell_slice_from_id t p s | RefView \<Rightarrow> ref_cell_slice_from_id t p s))
       (\<lambda>c. op_ret (Bytes c))"
| "slotted_exec t (SpecialOffset v) =
     op_bind (op_read (case v of MutView \<Rightarrow> get_special_offset t | RefView \<Rightarrow> ref_get_special_offset t)) (\<lambda>w. op_ret (Offset w))"
| "slotted_exec t SpecialSize = op_bind (op_read (special_size t)) (\<lambda>n. op_ret (Count n))"
| "slotted_exec t (GetSpecial v) =
     op_bind (op_read (case v of MutView \<Rightarrow> get_special_ref t | RefView \<Rightarrow> ref_get_special_ref t)) (\<lambda>b. op_ret (Bytes b))"

section \<open>The store\<close>

record store =
  st_cells :: "block list"
  st_room :: nat
  st_special :: "block option"
  st_lsn :: u64
  st_type :: u8
  st_flags :: u8

definition fresh_store :: "u8 \<Rightarrow> store" where
  "fresh_store ty = \<lparr>st_cells = [], st_room = 4072, st_special = None, st_lsn = 0, st_type = ty, st_flags = 0\<rparr>"

definition store_insert :: "usize \<Rightarrow> block \<Rightarrow> store \<Rightarrow> (PageError, slotted_answer) outcome \<times> store" where
  "store_insert i c s =
     (if st_room s < length c + 4 then (Err NoContigiousSpace, s)
      else if length (st_cells s) < i then (Err SlotIndexNotInRange, s)
      else (Ok Unit, s\<lparr>st_cells := insert_at i c (st_cells s), st_room := st_room s - (length c + 4)\<rparr>))"

definition store_lookup :: "SlotID \<Rightarrow> store \<Rightarrow> (PageError, slotted_answer) outcome" where
  "store_lookup i s =
     (if st_cells s = [] then Err EmptySlotDir
      else if length (st_cells s) \<le> unat (sid i) then Err SlotIDOutOfBounds
      else Ok (Bytes (st_cells s ! unat (sid i))))"

fun store_exec :: "slotted_cmd \<Rightarrow> store \<Rightarrow> (PageError, slotted_answer) outcome \<times> store" where
  "store_exec (WipeInit ty) s = (Ok Unit, fresh_store ty)"
| "store_exec (SetType ty) s = (Ok Unit, s\<lparr>st_type := ty\<rparr>)"
| "store_exec (SetFlags f) s = (Ok Unit, s\<lparr>st_flags := f\<rparr>)"
| "store_exec (SetLsn l) s = (Ok Unit, s\<lparr>st_lsn := l\<rparr>)"
| "store_exec (AppendCell c) s = store_insert (length (st_cells s)) c s"
| "store_exec (InsertCell i c) s = store_insert i c s"
| "store_exec (FillSpecial bs) s =
     (case st_special s of
        None \<Rightarrow> (Err SpecialOffsetIsZero, s)
      | Some old \<Rightarrow> if length bs = length old then (Ok Unit, s\<lparr>st_special := Some bs\<rparr>) else (Panic, s))"
| "store_exec (GetType v) s = (Ok (Byte (st_type s)), s)"
| "store_exec GetFlags s = (Ok (Byte (st_flags s)), s)"
| "store_exec GetLsn s = (Ok (Lsn (st_lsn s)), s)"
| "store_exec (FreeStart v) s = (Ok (Count (24 + 4 * length (st_cells s))), s)"
| "store_exec (FreeEnd v) s = (Ok (Count (24 + 4 * length (st_cells s) + st_room s)), s)"
| "store_exec (FreeSpace v) s = (Ok (Count (st_room s)), s)"
| "store_exec (Fragmented v) s = (Ok (Count 0), s)"
| "store_exec (SlotCount v) s = (Ok (Count (length (st_cells s))), s)"
| "store_exec (CellById v i) s = (store_lookup i s, s)"
| "store_exec (SpecialOffset v) s =
     (Ok (Offset (case st_special s of None \<Rightarrow> 0 | Some bs \<Rightarrow> of_nat (4096 - length bs))), s)"
| "store_exec SpecialSize s = (Ok (Count (case st_special s of None \<Rightarrow> 0 | Some bs \<Rightarrow> length bs)), s)"
| "store_exec (GetSpecial v) s =
     (case st_special s of None \<Rightarrow> (Err SpecialOffsetIsZero, s) | Some bs \<Rightarrow> (Ok (Bytes bs), s))"

definition special_area :: "RawPage \<Rightarrow> block option" where
  "special_area p = (if special_of p = 0 then None else Some (bytes_at p (special_of p) (4096 - special_of p)))"

definition store_of :: "RawPage \<Rightarrow> store" where
  "store_of p = \<lparr>st_cells = cells_of p, st_room = room_of p, st_special = special_area p,
     st_lsn = from_le_bytes (bytes_at p 0 8), st_type = p ! 10, st_flags = p ! 11\<rparr>"

text \<open>Rust slices are shorter than \<^verbatim>\<open>2^63\<close> bytes.\<close>

fun cell_args :: "slotted_cmd \<Rightarrow> bool" where
  "cell_args (AppendCell c) \<longleftrightarrow> length c < 2 ^ 63"
| "cell_args (InsertCell i c) \<longleftrightarrow> length c < 2 ^ 63"
| "cell_args _ \<longleftrightarrow> True"

section \<open>Each command refines the store\<close>

definition slotted_ok :: "target \<Rightarrow> slotted_cmd \<Rightarrow> RawPage \<Rightarrow> bool" where
  "slotted_ok t c p \<longleftrightarrow> wf_cells (snd (slotted_exec t c p)) \<and> map_prod id store_of (slotted_exec t c p) = store_exec c (store_of p)"

lemma slotted_okI:
  "slotted_exec t c p = (r, q) \<Longrightarrow> wf_cells q \<Longrightarrow> store_exec c (store_of p) = (r, store_of q) \<Longrightarrow> slotted_ok t c p"
  by (simp add: slotted_ok_def)

lemmas machine_simps = op_bind_def op_read_def op_ret_def op_out_def

lemma special_bounds:
  assumes "wf_page p" and "special_of p \<noteq> 0"
  shows "special_of p \<le> 4096" and "fe_of p \<le> special_of p"
  using wf_pageD(4,5) [OF assms(1)] assms(2) by (simp_all add: limit_of_def)

lemma special_reads:
  assumes "wf_page p"
  shows "get_special_ref t p = (case special_area p of None \<Rightarrow> Err SpecialOffsetIsZero | Some bs \<Rightarrow> Ok bs)"
    and "special_size t p = (Ok (case special_area p of None \<Rightarrow> 0 | Some bs \<Rightarrow> length bs) :: ('e, usize) outcome)"
    and "get_special_mut t p = (if special_of p = 0 then Err SpecialOffsetIsZero else Ok (special_of p, 4096))"
proof -
  note D = wf_pageD [OF assms] and B = special_bounds(1) [OF assms]
  have w: "unat (word_at p 16) = special_of p" by (simp add: special_of_def layout_defs)
  have g: "get_special_offset t p = (Ok (word_at p 16) :: ('f, u16) outcome)"
    using D(1) by (simp add: header_reads layout_defs)
  show "get_special_ref t p = (case special_area p of None \<Rightarrow> Err SpecialOffsetIsZero | Some bs \<Rightarrow> Ok bs)"
    using B D(1) by (simp add: get_special_ref_def g w special_area_def rust_simps layout_defs Let_def)
  show "special_size t p = (Ok (case special_area p of None \<Rightarrow> 0 | Some bs \<Rightarrow> length bs) :: ('e, usize) outcome)"
    using B D(1) by (simp add: special_size_def ref_view_eqs g w special_area_def rust_simps layout_defs Let_def length_bytes_at)
  show "get_special_mut t p = (if special_of p = 0 then Err SpecialOffsetIsZero else Ok (special_of p, 4096))"
    using B D(1) by (simp add: get_special_mut_def g w rust_simps layout_defs Let_def)
qed

lemma slotted_reads:
  assumes "wf_cells p"
  shows "slotted_ok t (GetType v) p" and "slotted_ok t GetFlags p" and "slotted_ok t GetLsn p"
    and "slotted_ok t (FreeStart v) p" and "slotted_ok t (FreeEnd v) p" and "slotted_ok t (FreeSpace v) p"
    and "slotted_ok t (Fragmented v) p" and "slotted_ok t (SlotCount v) p" and "slotted_ok t (CellById v s) p"
    and "slotted_ok t (SpecialOffset v) p" and "slotted_ok t SpecialSize p" and "slotted_ok t (GetSpecial v) p"
proof -
  note W = wf_cellsD(1) [OF assms]
  note D = wf_pageD [OF W]
  note M = slotted_ok_def machine_simps store_of_def ref_view_eqs
  show "slotted_ok t (GetType v) p" "slotted_ok t GetFlags p"
    using assms D(1) by (auto simp: M get_page_type_def get_flags_def rust_simps layout_defs split: page_view.split)
  show "slotted_ok t GetLsn p"
    using assms D(1) by (simp add: M get_lsn_def rust_simps layout_defs)
  show "slotted_ok t (FreeSpace v) p" "slotted_ok t (Fragmented v) p"
    using assms D by (auto simp: M free_contiguous_space_def free_fragmented_space_def ref_free_fragmented_space_def
        header_reads layout_defs rust_simps room_of_def split: page_view.split)
  show "slotted_ok t (SlotCount v) p"
    using assms by (auto simp: M slot_dir_ref_ok [OF W] slot_count_def layout_defs split: page_view.split)
  show "slotted_ok t (CellById v s) p"
    using assms by (auto simp: M cell_slice_from_id_ok [OF assms] abs_lookup_def abs_of_def store_lookup_def split: page_view.split)
  show "slotted_ok t (FreeStart v) p" "slotted_ok t (FreeEnd v) p"
    using assms D by (auto simp: M header_reads layout_defs room_of_def split: page_view.split)
  have "word_at p 16 = (of_nat (special_of p) :: u16)" by (simp add: special_of_def layout_defs)
  then show "slotted_ok t (SpecialOffset v) p"
    using assms D(1) special_bounds(1) [OF W]
    by (auto simp: M header_reads layout_defs special_area_def length_bytes_at split: page_view.split)
  show "slotted_ok t SpecialSize p" "slotted_ok t (GetSpecial v) p"
    using assms by (auto simp: M special_reads [OF W] split: page_view.split option.split)
qed


lemma special_area_frame:
  assumes "frame_of p = frame_of q"
  shows "special_area p = special_area q"
proof -
  note S = frame_special [OF assms]
  then have "bytes_at p (limit_of p) (4096 - limit_of p) = bytes_at q (limit_of p) (4096 - limit_of p)"
    using assms by (simp add: frame_of_def limit_of_def layout_defs split: if_splits)
  with S show ?thesis by (auto simp: special_area_def limit_of_def)
qed

lemma store_patch_head:
  assumes "wf_cells p" and "off + length bs \<le> 12"
  shows "store_of (patch p off bs) = (store_of p)\<lparr>st_lsn := from_le_bytes (bytes_at (patch p off bs) 0 8),
    st_type := patch p off bs ! 10, st_flags := patch p off bs ! 11\<rparr>" (is ?store) and "wf_cells (patch p off bs)"
proof -
  note D = wf_pageD [OF wf_cellsD(1) [OF assms(1)]]
  have P: "fs_of (patch p off bs) = fs_of p" "fe_of (patch p off bs) = fe_of p" "special_of (patch p off bs) = special_of p"
    "cells_of (patch p off bs) = cells_of p" and w: "wf_cells (patch p off bs)"
    using patch_outside [OF assms(1), of off bs] assms(2) by simp_all
  have "special_of p \<noteq> 0 \<Longrightarrow> 24 \<le> special_of p" using D by (simp add: limit_of_def)
  then have "special_area (patch p off bs) = special_area p"
    using assms(2) D(1) by (cases "special_of p = 0") (simp_all add: special_area_def P bytes_at_patch_disjoint)
  then show ?store by (simp add: store_of_def P room_of_def)
  from w show "wf_cells (patch p off bs)" .
qed

lemma slotted_header_writes:
  assumes "wf_cells p"
  shows "slotted_ok t (SetType ty) p" and "slotted_ok t (SetFlags f) p" and "slotted_ok t (SetLsn l) p"
proof -
  have L: "length p = 4096" by (rule wf_pageD [OF wf_cellsD(1) [OF assms]])
  note M = machine_simps rust_simps layout_defs L and R = nth_patch bytes_at_patch_disjoint L
  show "slotted_ok t (SetType ty) p"
    by (rule slotted_okI [of _ _ _ "Ok Unit" "patch p 10 [ty]"])
      (simp_all add: M set_page_type_def store_patch_head [OF assms], simp add: R store_of_def)
  show "slotted_ok t (SetFlags f) p"
    by (rule slotted_okI [of _ _ _ "Ok Unit" "patch p 11 [f]"])
      (simp_all add: M set_flags_def store_patch_head [OF assms], simp add: R store_of_def)
  show "slotted_ok t (SetLsn l) p"
    by (rule slotted_okI [of _ _ _ "Ok Unit" "patch p 0 (to_le_bytes l)"])
      (simp_all add: M set_lsn_def store_patch_head [OF assms], simp add: R store_of_def bytes_at_patch_same u64_codec.dec_enc)
qed

lemma slotted_wipe_init:
  assumes "length p = 4096"
  shows "slotted_ok t (WipeInit ty) p"
proof (rule slotted_okI)
  let ?z = "replicate 4096 0 :: RawPage" and ?q = "init_bytes ty (replicate 4096 0)"
  show "slotted_exec t (WipeInit ty) p = (Ok Unit, ?q)"
    using assms by (simp add: machine_simps wipe_page_def init_new_exec)
  note F = init_new_fresh [OF zero_page, of ty] and R = init_bytes_reads [OF zero_page(1), of ty]
  show "wf_cells ?q" by (rule F)
  have "?q ! 10 = ty" using R(1) R(5) [where 'a = unit] by (simp add: rust_simps)
  moreover have "bytes_at ?q 0 8 = replicate 8 0" "?q ! 11 = 0"
    by (simp_all add: init_bytes_def Let_def bytes_at_patch_disjoint length_patch bytes_at_zero nth_patch)
  moreover have "from_le_bytes (replicate 8 0) = (0 :: u64)" by (simp add: from_le_bytes_def numeral_eq_Suc)
  ultimately show "store_exec (WipeInit ty) (store_of p) = (Ok Unit, store_of ?q)"
    using R(4) zero_page(2) by (simp add: fresh_store_def store_of_def F special_area_def)
qed

lemma slotted_insert:
  assumes "wf_cells p" and "length c < 2 ^ 63"
  shows "slotted_ok t (InsertCell i c) p"
proof -
  note D = wf_pageD [OF wf_cellsD(1) [OF assms(1)]]
  consider "room_of p < length c + 4" | "length c + 4 \<le> room_of p" "count_of p < i"
    | "length c + 4 \<le> room_of p" "i \<le> count_of p" by linarith
  then show ?thesis
  proof cases
    case 3
    then obtain p' where p': "add_cell_at_slot_entry_index t i c p = (Ok (), p')" "wf_cells p'"
        "cells_of p' = insert_at i c (cells_of p)" "room_of p' = room_of p - (length c + 4)"
      using slotted.insert_fits [OF assms, of i t] by auto
    have F: "frame_of p' = frame_of p" using slotted_frame.insert_frame [OF assms, of t i] p'(1) by simp
    then have H: "bytes_at p' 0 12 = bytes_at p 0 12" by (simp add: frame_of_def)
    have L': "length p' = 4096" by (rule wf_pageD [OF wf_cellsD(1) [OF p'(2)]])
    have "p' ! k = p ! k" if "k < 12" for k
      using arg_cong [OF H, of "\<lambda>b. b ! k"] that L' D(1) by (simp add: nth_bytes_at)
    moreover have "bytes_at p' 0 8 = bytes_at p 0 8"
      using arg_cong [OF H, of "\<lambda>b. bytes_at b 0 8"] by (simp add: bytes_at_bytes_at)
    ultimately have "store_of p' = (store_of p)\<lparr>st_cells := cells_of p', st_room := room_of p'\<rparr>"
      by (simp add: store_of_def special_area_frame [OF F])
    then show ?thesis
      using 3 p' by (intro slotted_okI [of _ _ _ "Ok Unit" p']) (simp_all add: machine_simps store_insert_def, simp_all add: store_of_def)
  qed (use assms slotted.insert_full [OF assms] slotted.insert_range [OF assms] in
      \<open>auto simp: slotted_ok_def machine_simps store_insert_def store_of_def\<close>)
qed

lemma slotted_append:
  assumes "wf_cells p" and "length c < 2 ^ 63"
  shows "slotted_ok t (AppendCell c) p"
  using slotted_insert [OF assms, of t "count_of p"] append_is_insert [OF wf_cellsD(1) [OF assms(1)] assms(2)]
  by (simp add: slotted_ok_def op_bind_def store_of_def)

lemma slotted_fill_special:
  assumes "wf_cells p"
  shows "slotted_ok t (FillSpecial bs) p"
proof (cases "special_of p = 0")
  case True
  then show ?thesis using assms by (simp add: slotted_ok_def machine_simps special_reads [OF wf_cellsD(1) [OF assms]] store_of_def special_area_def)
next
  case False
  note D = wf_pageD [OF wf_cellsD(1) [OF assms]] and B = special_bounds(1) [OF wf_cellsD(1) [OF assms] False]
  have x: "slotted_exec t (FillSpecial bs) p = op_bind (slice_write (special_of p) 4096 bs) (\<lambda>_. op_ret Unit) p"
    using False by (simp add: machine_simps(1,2) special_reads [OF wf_cellsD(1) [OF assms]])
  have l: "length (bytes_at p (special_of p) (4096 - special_of p)) = 4096 - special_of p"
    using B D(1) by (simp add: length_bytes_at)
  show ?thesis
  proof (cases "length bs = 4096 - special_of p")
    case False
    then have "slotted_exec t (FillSpecial bs) p = (Panic, p)" using B D(1)
      unfolding x by (simp add: machine_simps slice_write_def)
    then show ?thesis
      using assms False \<open>special_of p \<noteq> 0\<close> l by (simp add: slotted_ok_def store_of_def special_area_def)
  next
    case True
    let ?q = "patch p (special_of p) bs"
    have "24 \<le> special_of p" using D \<open>special_of p \<noteq> 0\<close> by (simp add: limit_of_def)
    moreover have P: "fs_of ?q = fs_of p" "fe_of ?q = fe_of p" "special_of ?q = special_of p" "cells_of ?q = cells_of p" "wf_cells ?q"
      using patch_outside [OF assms, of "special_of p" bs] True B \<open>special_of p \<noteq> 0\<close> by (simp_all add: limit_of_def)
    ultimately have "store_of ?q = (store_of p)\<lparr>st_special := Some bs\<rparr>"
      using True B D(1) \<open>special_of p \<noteq> 0\<close>
      by (simp add: store_of_def room_of_def special_area_def bytes_at_patch_same bytes_at_patch_disjoint nth_patch)
    moreover have "slotted_exec t (FillSpecial bs) p = (Ok Unit, ?q)"
      using True B D(1) unfolding x by (simp add: machine_simps raw_access)
    ultimately show ?thesis
      using P(5) True \<open>special_of p \<noteq> 0\<close> l by (intro slotted_okI) (simp_all, simp add: store_of_def special_area_def)
  qed
qed

lemma slotted_cmd_ok: "wf_cells p \<Longrightarrow> cell_args c \<Longrightarrow> slotted_ok t c p"
  by (cases c) (simp_all add: slotted_reads slotted_header_writes slotted_insert slotted_append slotted_fill_special
      slotted_wipe_init wf_pageD(1) [OF wf_cellsD(1)])

interpretation slotted_api: data_refinement wf_cells store_of cell_args "slotted_exec t" store_exec for t
  by unfold_locales (use slotted_cmd_ok in \<open>auto simp: slotted_ok_def\<close>)

section \<open>Properties\<close>

text \<open>
  C5: The slotted page implements the store of cells. Take as operations \<^verbatim>\<open>wipe_page\<close> followed by \<^verbatim>\<open>init_new\<close>,
  the setters of type, flags and LSN, the two ways to add a cell, filling the special area, and of both
  views the readers of type, flags, LSN, free start, free end, free and fragmented space, slot count, special
  offset, size and area, and the lookup of a cell by its id. Run on the bytes of any well-formed page,
  with or without a special area, every sequence of these operations gives the answers the store gives,
  errors included, in every build and on either byte order: cells stay where they were inserted, each insertion costs
  its length and one slot of room and nothing else, and the header fields and the special area are
  independent of the cells and of each other. The page is well formed at the end and no operation is undefined.
\<close>

theorem slotted_api_refines:
  assumes "wf_cells p" and "list_all cell_args cs"
  shows "map_prod id store_of (run_cmds (slotted_exec t) cs p) = run_cmds store_exec cs (store_of p) \<and>
    wf_cells (snd (run_cmds (slotted_exec t) cs p)) \<and> UB \<notin> set (fst (run_cmds (slotted_exec t) cs p))"
proof -
  have "fst (store_exec c s) \<noteq> UB" for c s
    by (cases c) (auto simp: store_insert_def store_lookup_def split: option.split)
  then show ?thesis using slotted_api.run_refines [OF assms, of t] slotted_api.run_never [OF assms, of UB t] by simp
qed

theorem slotted_api_refines_witness:
  "fst (run_cmds (slotted_exec dev) [AppendCell [1, 2], InsertCell 0 [3], SetLsn 7, InsertCell 5 [4], GetLsn,
       CellById RefView (SlotID 1), CellById MutView (SlotID 2), SlotCount RefView, FreeSpace MutView, FreeEnd RefView, GetSpecial RefView,
       WipeInit 4, GetType RefView, CellById MutView (SlotID 0)] demo_page) =
     [Ok Unit, Ok Unit, Ok Unit, Err SlotIndexNotInRange, Ok (Lsn 7), Ok (Bytes [1, 2]), Err SlotIDOutOfBounds, Ok (Count 2),
      Ok (Count 4061), Ok (Count 4093), Err SpecialOffsetIsZero, Ok Unit, Ok (Byte 4), Err EmptySlotDir]"
proof -
  let ?cs = "[AppendCell [1, 2], InsertCell 0 [3], SetLsn 7, InsertCell 5 [4], GetLsn,
       CellById RefView (SlotID 1), CellById MutView (SlotID 2), SlotCount RefView, FreeSpace MutView, FreeEnd RefView, GetSpecial RefView,
       WipeInit 4, GetType RefView, CellById MutView (SlotID 0)]"
  have "slotted_ok dev (WipeInit 2) (replicate 4096 0)" by (rule slotted_wipe_init) simp
  then have s: "store_of demo_page = fresh_store 2"
    by (simp add: slotted_ok_def demo_page_def machine_simps wipe_page_def init_new_exec)
  have "list_all cell_args ?cs" by simp
  from slotted_api_refines [OF demo_page(1) this, of dev]
  have "fst (run_cmds (slotted_exec dev) ?cs demo_page) = fst (run_cmds store_exec ?cs (fresh_store 2))"
    unfolding s by (metis fst_map_prod id_apply)
  also have "\<dots> = [Ok Unit, Ok Unit, Ok Unit, Err SlotIndexNotInRange, Ok (Lsn 7), Ok (Bytes [1, 2]), Err SlotIDOutOfBounds,
      Ok (Count 2), Ok (Count 4061), Ok (Count 4093), Err SpecialOffsetIsZero, Ok Unit, Ok (Byte 4), Err EmptySlotDir]"
    by (simp add: fresh_store_def store_insert_def store_lookup_def insert_at_def)
  finally show ?thesis .
qed

end
