(* ===== verification/Index_Machine.thy ===== *)
theory Index_Machine
  imports Slotted_Machine
begin

text \<open>
  The interfaces of \<^verbatim>\<open>IndexPageMut\<close> and \<^verbatim>\<open>IndexPageRef\<close> as a whole, \<^verbatim>\<open>page/internal_page.rs\<close>: a command
  for each of their operations, run on the bytes of a page, and the node they implement (\<^verbatim>\<open>get_page_type\<close>,
  which reads kind and level as one byte, is left to the commands for its halves). Any
  sequence of commands answers on the bytes what it answers on the node.
\<close>

section \<open>Commands\<close>

datatype index_cmd =
    InitInPlace u64
  | SetPageType PageKind
  | SetLevel u8
  | SetRightSibling PageID
  | AddCellAppend block PageID
  | AddCellAt usize block PageID
  | GetKind page_view
  | GetLevel page_view
  | HasRightSibling page_view
  | GetRightSibling
  | FindChildPtr block

datatype index_answer =
    Done
  | IsKind PageKind
  | IsLevel IndexLevel
  | IsBool bool
  | IsPage "PageID option"

text \<open>
  Cells and levels are built by their constructors first, whose assertions can panic. A read-only
  command leaves the bytes alone.
\<close>

fun index_exec :: "target \<Rightarrow> index_cmd \<Rightarrow> index_answer index_op" where
  "index_exec t (InitInPlace lsn) = op_bind (init_in_place t lsn) (\<lambda>_. op_ret Done)"
| "index_exec t (SetPageType k) = op_bind (index_set_page_type k) (\<lambda>_. op_ret Done)"
| "index_exec t (SetLevel v) = op_bind (op_out (IndexLevel_new v)) (\<lambda>level. op_bind (set_level level) (\<lambda>_. op_ret Done))"
| "index_exec t (SetRightSibling r) = op_bind (set_right_sibling t r) (\<lambda>_. op_ret Done)"
| "index_exec t (AddCellAppend key c) =
     op_bind (op_out (IndexCellOwned_new t key c)) (\<lambda>cell.
     op_bind (index_add_cell_append_slot_entry t cell) (\<lambda>_. op_ret Done))"
| "index_exec t (AddCellAt i key c) =
     op_bind (op_out (IndexCellOwned_new t key c)) (\<lambda>cell.
     op_bind (index_add_cell_at_slot_entry_index t i cell) (\<lambda>_. op_ret Done))"
| "index_exec t (GetKind v) =
     op_bind (op_read (case v of MutView \<Rightarrow> index_kind | RefView \<Rightarrow> ref_index_kind)) (\<lambda>k. op_ret (IsKind k))"
| "index_exec t (GetLevel v) =
     op_bind (op_read (case v of MutView \<Rightarrow> index_level | RefView \<Rightarrow> ref_index_level)) (\<lambda>l. op_ret (IsLevel l))"
| "index_exec t (HasRightSibling v) =
     op_bind (op_read (case v of MutView \<Rightarrow> has_right_sibling t | RefView \<Rightarrow> ref_has_right_sibling t)) (\<lambda>b. op_ret (IsBool b))"
| "index_exec t GetRightSibling = op_bind (op_read (get_right_sibling t)) (\<lambda>r. op_ret (IsPage r))"
| "index_exec t (FindChildPtr key) = op_bind (op_read (\<lambda>p. find_child_ptr t p key)) (\<lambda>c. op_ret (IsPage c))"

section \<open>The node\<close>

record node =
  n_entries :: "(block \<times> PageID) list"
  n_room :: nat
  n_right :: "PageID option"
  n_kind :: PageKind
  n_level :: u8

definition fresh_node :: node where
  "fresh_node = \<lparr>n_entries = [], n_room = 4056, n_right = None, n_kind = IndexInternal, n_level = 0\<rparr>"

definition node_insert :: "usize \<Rightarrow> block \<Rightarrow> PageID \<Rightarrow> node \<Rightarrow> (IndexPageError, index_answer) outcome \<times> node" where
  "node_insert i key c n =
     (if 4068 \<le> 10 + length key then (Panic, n)
      else if n_room n < length key + 14 then (Err (PageErr NoContigiousSpace), n)
      else if length (n_entries n) < i then (Err (PageErr SlotIndexNotInRange), n)
      else (Ok Done, n\<lparr>n_entries := insert_at i (key, c) (n_entries n), n_room := n_room n - (length key + 14)\<rparr>))"

fun node_exec :: "index_cmd \<Rightarrow> node \<Rightarrow> (IndexPageError, index_answer) outcome \<times> node" where
  "node_exec (InitInPlace lsn) n = (Ok Done, fresh_node)"
| "node_exec (SetPageType k) n = (Ok Done, n\<lparr>n_kind := k, n_level := 0\<rparr>)"
| "node_exec (SetLevel v) n = (if v \<le> 15 then (Ok Done, n\<lparr>n_level := v\<rparr>) else (Panic, n))"
| "node_exec (SetRightSibling r) n = (Ok Done, n\<lparr>n_right := if pid r = 0 then None else Some r\<rparr>)"
| "node_exec (AddCellAppend key c) n = node_insert (length (n_entries n)) key c n"
| "node_exec (AddCellAt i key c) n = node_insert i key c n"
| "node_exec (GetKind v) n = (Ok (IsKind (n_kind n)), n)"
| "node_exec (GetLevel v) n = (Ok (IsLevel (IndexLevel (n_level n))), n)"
| "node_exec (HasRightSibling v) n = (Ok (IsBool (n_right n \<noteq> None)), n)"
| "node_exec GetRightSibling n = (Ok (IsPage (n_right n)), n)"
| "node_exec (FindChildPtr key) n =
     (case search_node key (n_entries n) (n_right n) of
        Ok c \<Rightarrow> (Ok (IsPage c), n) | Err e \<Rightarrow> (Err e, n) | Panic \<Rightarrow> (Panic, n) | UB \<Rightarrow> (UB, n))"

definition node_of :: "RawPage \<Rightarrow> node" where
  "node_of p = \<lparr>n_entries = index_entries p, n_room = room_of p, n_right = sibling_of p,
     n_kind = page_kind (PageType (p ! 10)), n_level = page_sub_type (PageType (p ! 10))\<rparr>"

text \<open>Rust slices are shorter than \<^verbatim>\<open>2^63\<close> bytes.\<close>

fun slice_args :: "index_cmd \<Rightarrow> bool" where
  "slice_args (AddCellAppend key c) \<longleftrightarrow> length key < 2 ^ 63"
| "slice_args (AddCellAt i key c) \<longleftrightarrow> length key < 2 ^ 63"
| "slice_args _ \<longleftrightarrow> True"

section \<open>Each command refines the node\<close>

definition cmd_ok :: "target \<Rightarrow> index_cmd \<Rightarrow> RawPage \<Rightarrow> bool" where
  "cmd_ok t c p \<longleftrightarrow> wf_index (snd (index_exec t c p)) \<and> map_prod id node_of (index_exec t c p) = node_exec c (node_of p)"

lemma cmd_okI:
  "index_exec t c p = (r, q) \<Longrightarrow> wf_index q \<Longrightarrow> node_exec c (node_of p) = (r, node_of q) \<Longrightarrow> cmd_ok t c p"
  by (simp add: cmd_ok_def)

lemma cmd_reads:
  assumes "wf_index p"
  shows "cmd_ok t (GetKind v) p" and "cmd_ok t (GetLevel v) p" and "cmd_ok t (HasRightSibling v) p"
    and "cmd_ok t GetRightSibling p" and "cmd_ok t (FindChildPtr key) p"
proof -
  note D = wf_indexD [OF assms]
  note T = index_page_type_ok [OF D(3)] right_sibling_ok [OF D(3,5)]
  have R: "ref_index_kind p = (index_kind p :: ('e, PageKind) outcome)" "ref_index_level p = (index_level p :: ('e, IndexLevel) outcome)"
    by (simp_all add: ref_index_kind_def index_kind_def ref_index_level_def index_level_def ref_index_get_page_type_def
        index_get_page_type_def ref_view_eqs)
  show "cmd_ok t (GetKind v) p" "cmd_ok t (GetLevel v) p" "cmd_ok t (HasRightSibling v) p" "cmd_ok t GetRightSibling p"
    using assms
    by (auto simp: cmd_ok_def op_bind_def op_read_def op_ret_def R T index_kind_def index_level_def level_ok node_of_def
        split: page_view.split)
  show "cmd_ok t (FindChildPtr key) p"
    using assms
    by (auto simp: cmd_ok_def op_bind_def op_read_def op_ret_def find_child_ptr_exec [OF assms] node_of_def split: outcome.split)
qed

lemma frame_type_byte:
  assumes "frame_of p = frame_of q" and "length p = 4096" and "length q = 4096"
  shows "p ! 10 = q ! 10"
proof -
  have "bytes_at p 0 12 ! 10 = bytes_at q 0 12 ! 10" using assms(1) by (simp add: frame_of_def)
  then show ?thesis using assms(2,3) by (simp add: nth_bytes_at)
qed

lemma cmd_init:
  assumes "length p = 4096"
  shows "cmd_ok t (InitInPlace lsn) p"
proof (rule cmd_okI)
  let ?q = "init_index_bytes lsn"
  show "index_exec t (InitInPlace lsn) p = (Ok Done, ?q)"
    by (simp add: op_bind_def op_ret_def init_index_exec [OF assms])
  show "wf_index ?q" by (rule fresh_index)
  note L = init_index_reads(1) [of lsn]
  have "get_page_type ?q = (Ok 2 :: (unit, u8) outcome)" by (rule init_index_reads)
  then have "?q ! 10 = 2" using L by (simp add: get_page_type_def rust_simps layout_defs)
  then have "page_kind (PageType (?q ! 10)) = IndexInternal" "page_sub_type (PageType (?q ! 10)) = 0"
    using page_kind_from_kind [of IndexInternal]
    by (simp_all add: PageType_from_u8_def kind_consts page_sub_type_def SUBTYPE_MASK_def)
  then show "node_exec (InitInPlace lsn) (node_of p) = (Ok Done, node_of ?q)"
    by (simp add: node_of_def fresh_node_def fresh_index)
qed

lemma node_patch_type:
  assumes "wf_index p"
  shows "node_of (patch p 10 [v]) = (node_of p)\<lparr>n_kind := page_kind (PageType v), n_level := page_sub_type (PageType v)\<rparr>"
proof -
  note D = wf_indexD [OF assms]
  note P = patch_outside(1,2) [OF D(1), of 10 "[v]"]
  have "room_of (patch p 10 [v]) = room_of p" using P by (simp add: room_of_def)
  moreover have "patch p 10 [v] ! 10 = v" using D(3) by (simp add: nth_patch)
  ultimately show ?thesis by (simp add: node_of_def index_patch_type [OF assms])
qed

lemma cmd_set_page_type:
  assumes "wf_index p"
  shows "cmd_ok t (SetPageType k) p"
proof (rule cmd_okI)
  note D = wf_indexD [OF assms]
  let ?q = "patch p 10 [PageKind_into_u8 k]"
  show "index_exec t (SetPageType k) p = (Ok Done, ?q)"
    by (simp add: op_bind_def op_ret_def index_set_page_type_def set_page_type_exec [OF D(3)])
  show "wf_index ?q" by (rule index_patch_type [OF assms])
  have "page_sub_type (PageType (PageKind_into_u8 k)) = 0"
    by (cases k) (simp_all add: page_sub_type_def SUBTYPE_MASK_def kind_consts)
  then show "node_exec (SetPageType k) (node_of p) = (Ok Done, node_of ?q)"
    using page_kind_from_kind [of k] by (simp add: node_patch_type [OF assms] PageType_from_u8_def)
qed

lemma cmd_set_level:
  assumes "wf_index p"
  shows "cmd_ok t (SetLevel v) p"
proof (cases "v \<le> 15")
  case False
  then show ?thesis
    using assms by (simp add: cmd_ok_def op_bind_def op_out_def IndexLevel_new_def IndexLevel_MAX_def rust_assert_def)
next
  case True
  note D = wf_indexD [OF assms]
  let ?b = "PageType_into_u8 (set_subtype_page_bits (PageType (p ! 10)) v)"
  have b: "PageType ?b = set_subtype_page_bits (PageType (p ! 10)) v" by (simp add: PageType_into_u8_def)
  have lv: "page_sub_type (set_subtype_page_bits (PageType (p ! 10)) v) = v"
    using low_nibble_idem [OF True] by (simp add: set_subtype_nibbles)
  have x: "index_exec t (SetLevel v) p = (Ok Done, patch p 10 [?b])"
    using True by (simp add: op_bind_def op_out_def op_ret_def op_read_def IndexLevel_new_def IndexLevel_MAX_def rust_assert_def
        set_level_def index_page_type_ok [OF D(3)] set_page_type_exec [OF D(3)] IndexLevel_into_def)
  show ?thesis
  proof (rule cmd_okI [OF x])
    show "wf_index (patch p 10 [?b])" by (rule index_patch_type [OF assms])
    have "node_of (patch p 10 [?b]) = (node_of p)\<lparr>n_level := v\<rparr>"
      unfolding node_patch_type [OF assms] b by (simp add: lv set_subtype_kind node_of_def)
    then show "node_exec (SetLevel v) (node_of p) = (Ok Done, node_of (patch p 10 [?b]))" using True by simp
  qed
qed

lemma cmd_set_right_sibling:
  assumes "wf_index p"
  shows "cmd_ok t (SetRightSibling r) p"
proof (rule cmd_okI)
  note D = wf_indexD [OF assms]
  let ?q = "patch p 4088 (to_le_bytes (pid r))"
  note P = patch_outside [OF D(1), of 4088 "to_le_bytes (pid r)"]
  show "index_exec t (SetRightSibling r) p = (Ok Done, ?q)"
    by (simp add: op_bind_def op_ret_def set_right_sibling_exec [OF D(3,5)])
  show w: "wf_index ?q" using P D assms by (simp add: wf_index_def)
  have "sibling_of ?q = (if pid r = 0 then None else Some r)" using D(3) by (simp add: sibling_of_def u64_codec.get_put_same)
  moreover have "index_entries ?q = index_entries p" "room_of ?q = room_of p"
    using P D by (simp_all add: index_entries_def room_of_def)
  moreover have "?q ! 10 = p ! 10" using D(3) by (simp add: nth_patch)
  ultimately show "node_exec (SetRightSibling r) (node_of p) = (Ok Done, node_of ?q)" by (simp add: node_of_def)
qed

lemma cmd_add_at:
  assumes "wf_index p" and "length key < 2 ^ 63"
  shows "cmd_ok t (AddCellAt i key c) p"
proof (cases "10 + length key < 4068")
  case False
  then have "IndexCellOwned_new t key c = (Panic :: (IndexPageError, IndexCellOwned) outcome)"
    using assms(2) by (intro IndexCellOwned_new_panic) simp_all
  then show ?thesis using assms(1) False by (simp add: cmd_ok_def op_bind_def op_out_def node_insert_def)
next
  case True
  then have key: "length key < 65536" by simp
  note D = wf_indexD [OF assms(1)]
  note X = op_bind_def op_out_def op_ret_def IndexCellOwned_new_ok [OF True]
  show ?thesis
  proof (rule index_insert_cases [OF assms(1) key, of t i c])
    fix p' assume F: "length key + 14 \<le> room_of p" "i \<le> count_of p"
      "index_add_cell_at_slot_entry_index t i (IndexCellOwned (encode_cell key c)) p = (Ok (), p')" "wf_index p'"
      "index_entries p' = insert_at i (key, c) (index_entries p)" "sibling_of p' = sibling_of p"
      "room_of p' = room_of p - (length key + 14)" "frame_of p' = frame_of p"
    have "p' ! 10 = p ! 10" by (rule frame_type_byte [OF F(8) wf_indexD(3) [OF F(4)] D(3)])
    then show ?thesis using True F by (intro cmd_okI [of _ _ _ "Ok Done" p']) (simp_all add: X node_insert_def node_of_def)
  qed (use assms(1) True in \<open>auto simp: cmd_ok_def X node_insert_def node_of_def\<close>)
qed

lemma cmd_add_append:
  assumes "wf_index p" and "length key < 2 ^ 63"
  shows "cmd_ok t (AddCellAppend key c) p"
proof -
  have "index_exec t (AddCellAppend key c) p = index_exec t (AddCellAt (count_of p) key c) p"
  proof (cases "IndexCellOwned_new t key c :: (IndexPageError, IndexCellOwned) outcome")
    case (Ok cell)
    have "length (owned_bytes cell) < 2 ^ 63" using IndexCellOwned_new_inv [OF Ok assms(2)] by simp
    then show ?thesis using index_append_is_insert [OF assms(1)] by (simp add: op_bind_def op_out_def Ok)
  qed (simp_all add: op_bind_def op_out_def)
  then show ?thesis using cmd_add_at [OF assms, of t "count_of p" c] by (simp add: cmd_ok_def node_of_def)
qed

lemma index_cmd_ok: "wf_index p \<Longrightarrow> slice_args c \<Longrightarrow> cmd_ok t c p"
  by (cases c) (simp_all add: cmd_init wf_indexD(3) cmd_set_page_type cmd_set_level cmd_set_right_sibling cmd_add_append
      cmd_add_at cmd_reads)

interpretation index_api: data_refinement wf_index node_of slice_args "index_exec t" node_exec for t
  by unfold_locales (use index_cmd_ok in \<open>auto simp: cmd_ok_def\<close>)

section \<open>Properties\<close>

text \<open>
  C4: The index page implements the node. Run on the bytes of any well-formed index page, every
  sequence of the commands of \<^verbatim>\<open>IndexPageMut\<close> and \<^verbatim>\<open>IndexPageRef\<close> gives the answers the node gives, with
  the same errors and the same panics of the constructors, in every build and on either byte order;
  no operation of the sequence is undefined, and the page is well formed at its end.
\<close>

theorem index_api_refines:
  assumes "wf_index p" and "list_all slice_args cs"
  shows "map_prod id node_of (run_cmds (index_exec t) cs p) = run_cmds node_exec cs (node_of p) \<and>
    wf_index (snd (run_cmds (index_exec t) cs p)) \<and> UB \<notin> set (fst (run_cmds (index_exec t) cs p))"
proof -
  have "fst (node_exec c n) \<noteq> UB" for c n
    by (cases c) (auto simp: node_insert_def search_node_def split: option.split list.split)
  then show ?thesis using index_api.run_refines [OF assms, of t] index_api.run_never [OF assms, of UB t] by simp
qed

theorem index_api_refines_witness:
  "fst (run_cmds (index_exec dev) [AddCellAppend [5] (PageID 9), SetLevel 2, SetRightSibling (PageID 4), FindChildPtr [7],
       SetLevel 16, GetLevel RefView, GetKind MutView, AddCellAt 3 [6] (PageID 1)] demo_index) =
     [Ok Done, Ok Done, Ok Done, Ok (IsPage (Some (PageID 4))), Panic, Ok (IsLevel (IndexLevel 2)), Ok (IsKind IndexInternal),
      Err (PageErr SlotIndexNotInRange)]"
proof -
  let ?cs = "[AddCellAppend [5] (PageID 9), SetLevel 2, SetRightSibling (PageID 4), FindChildPtr [7],
       SetLevel 16, GetLevel RefView, GetKind MutView, AddCellAt 3 [6] (PageID 1)]"
  have "cmd_ok dev (InitInPlace 7) (replicate 4096 0)" by (rule cmd_init) simp
  then have n: "node_of demo_index = fresh_node"
    by (simp add: cmd_ok_def demo_index_def op_bind_def op_ret_def init_index_exec [of "replicate 4096 0"])
  have "list_all slice_args ?cs" by simp
  from index_api_refines [OF demo_index(1) this, of dev]
  have "fst (run_cmds (index_exec dev) ?cs demo_index) = fst (run_cmds node_exec ?cs fresh_node)"
    unfolding n by (metis fst_map_prod id_apply)
  also have "\<dots> = [Ok Done, Ok Done, Ok Done, Ok (IsPage (Some (PageID 4))), Panic, Ok (IsLevel (IndexLevel 2)), Ok (IsKind IndexInternal),
      Err (PageErr SlotIndexNotInRange)]"
    by (simp add: fresh_node_def node_insert_def insert_at_def search_node_def)
  finally show ?thesis .
qed

end
