(* ===== verification/Page_Limits.thy ===== *)
theory Page_Limits
  imports Index_Machine
begin

text \<open>
  The space of a page, \<^verbatim>\<open>page/slotted_page.rs\<close> and \<^verbatim>\<open>page/internal_page.rs\<close>: where every byte of it is
  accounted for, how many keys fit, and what happens when a used page is initialised again.
\<close>

section \<open>Accounting\<close>

lemma length_cell_of:
  assumes "wf_cells p" and "se \<in> set (entries_of p)"
  shows "length (cell_of p se) = unat (se_length se)"
proof -
  note D = wf_pageD [OF wf_cellsD(1) [OF assms(1)]]
  have "entry_ok p se" by (rule wf_cellsD(2) [OF assms])
  then show ?thesis using D by (simp add: entry_ok_def cell_of_def length_bytes_at)
qed

lemma room_accounting:
  assumes "wf_cells p"
  shows "room_of p + sum_list (map (\<lambda>c. length c + 4) (cells_of p)) = limit_of p - 24"
proof -
  note D = wf_pageD [OF wf_cellsD(1) [OF assms]] and S = wf_cellsD(4) [OF assms]
  have "map length (cells_of p) = map (\<lambda>se. unat (se_length se)) (entries_of p)"
    using length_cell_of [OF assms] by (simp add: cells_of_def)
  then have "sum_list (map length (cells_of p)) = limit_of p - fe_of p" using S by simp
  moreover have "sum_list (map (\<lambda>c. length c + 4) (cells_of p)) = sum_list (map length (cells_of p)) + count_of p * 4"
    by (simp add: sum_list_addf sum_list_triv)
  ultimately show ?thesis using D by (simp add: room_of_def)
qed

lemma index_accounting:
  assumes "wf_index p"
  shows "room_of p + sum_list (map (\<lambda>e. length (fst e) + 14) (index_entries p)) = 4056"
proof -
  note D = wf_indexD [OF assms]
  have "map (\<lambda>e. length (fst e) + 14) (index_entries p) = map (\<lambda>c. length c + 4) (cells_of p)"
    using D(6) by (auto simp: index_entries_def decode_cell_def key_of_def wf_cell_def length_bytes_at)
  then show ?thesis using room_accounting [OF D(1)] D(4) by simp
qed

section \<open>The cells tile their area\<close>

text \<open>
  The cells of a page leave no gap: disjoint areas between two bounds have at most the length
  between them, and the lengths of the cells add up to all of it.
\<close>

lemma disjoint_areas_fit:
  assumes "sorted_wrt areas_disjoint es"
    and "\<And>se. se \<in> set es \<Longrightarrow> lo \<le> unat (se_offset se) \<and> unat (se_offset se) + unat (se_length se) \<le> hi"
  shows "sum_list (map (\<lambda>se. unat (se_length se)) es) \<le> hi - lo"
proof -
  define area where "area = (\<lambda>i. {unat (se_offset (es ! i))..<unat (se_offset (es ! i)) + unat (se_length (es ! i))})"
  have dis: "area i \<inter> area j = {}" if "i < length es" "j < length es" "i \<noteq> j" for i j
  proof -
    have "areas_disjoint (es ! i) (es ! j) \<or> areas_disjoint (es ! j) (es ! i)"
      using assms(1) that by (metis linorder_neqE_nat sorted_wrt_iff_nth_less)
    then show ?thesis by (auto simp: area_def areas_disjoint_def)
  qed
  have "sum_list (map (\<lambda>se. unat (se_length se)) es) = (\<Sum>i<length es. unat (se_length (es ! i)))"
    by (simp add: sum_list_sum_nth atLeast0LessThan)
  also have "\<dots> = (\<Sum>i<length es. card (area i))" by (simp add: area_def)
  also have "\<dots> = card (\<Union>i<length es. area i)"
    using dis by (subst card_UN_disjoint) (auto simp: area_def)
  also have "\<dots> \<le> card {lo..<hi}"
  proof (intro card_mono UN_least)
    fix i assume "i \<in> {..<length es}"
    then show "area i \<subseteq> {lo..<hi}" using assms(2) [of "es ! i"] by (auto simp: area_def)
  qed simp
  finally show ?thesis by simp
qed

lemma some_cell_ends_at_limit:
  assumes "wf_cells p" and "cells_of p \<noteq> []"
  shows "\<exists>se\<in>set (entries_of p). unat (se_offset se) + unat (se_length se) = limit_of p"
proof (rule ccontr)
  assume none: "\<not> (\<exists>se\<in>set (entries_of p). unat (se_offset se) + unat (se_length se) = limit_of p)"
  note W = wf_cellsD [OF assms(1)]
  have E: "fe_of p \<le> unat (se_offset se) \<and> unat (se_offset se) + unat (se_length se) \<le> limit_of p - 1"
    if "se \<in> set (entries_of p)" for se
    using W(2) [OF that] that none by (fastforce simp: entry_ok_def)
  obtain se where se: "se \<in> set (entries_of p)" using assms(2) by (cases "entries_of p") (auto simp: cells_of_def)
  have "fe_of p < limit_of p"
    using E [OF se] W(2) [OF se] se none by (fastforce simp: entry_ok_def)
  then show False
    using disjoint_areas_fit [OF W(3), of "fe_of p" "limit_of p - 1"] E W(4) by fastforce
qed

text \<open>Iterating the slot directory and reading the cell of every entry, as \<^verbatim>\<open>find_child_ptr\<close> does.\<close>

primrec read_cells :: "target \<Rightarrow> RawPage \<Rightarrow> SlotEntry list \<Rightarrow> ('e, block list) outcome" where
  "read_cells t p [] = Ok []"
| "read_cells t p (se # es) =
     obind (cell_slice_from_entry t p se) (\<lambda>c. obind (read_cells t p es) (\<lambda>cs. Ok (c # cs)))"

definition scan_cells :: "target \<Rightarrow> RawPage \<Rightarrow> ('e, block list) outcome" where
  "scan_cells t p =
     obind (slot_dir_ref t p) (\<lambda>slot_dir. obind (iter_collect t p (slot_iter slot_dir)) (read_cells t p))"

lemma read_cells_eq:
  assumes "\<And>se. se \<in> set es \<Longrightarrow> unat (se_offset se) + unat (se_length se) \<le> length p" and "length p = 4096"
  shows "read_cells t p es =
    (if debug t \<and> (\<exists>se\<in>set es. unat (se_offset se) + unat (se_length se) = 4096) then Panic else Ok (map (cell_of p) es) :: ('e, block list) outcome)"
  using assms
proof (induction es)
  case (Cons se es)
  have le: "unat (se_offset se) + unat (se_length se) \<le> 4096" using Cons.prems by simp
  have "cell_slice_from_entry t p se =
      (if debug t \<and> unat (se_offset se) + unat (se_length se) = 4096 then Panic else Ok (cell_of p se) :: ('e, block) outcome)"
    using le Cons.prems(2)
    by (auto simp: cell_slice_from_entry_def debug_assert_def raw_access cell_of_def layout_defs Let_def)
  then show ?case using Cons.IH Cons.prems by (auto split: if_splits)
qed simp

section \<open>The first cell of a page that is initialised again\<close>

lemma first_cell_exec:
  assumes "length p = 4096" and "fs_of p = 24" and "fe_of p = 4096" and "length c \<le> 4068"
  shows "\<exists>q. add_cell_append_slot_entry t c p = (Ok (), q) \<and> length q = 4096 \<and> special_of q = special_of p \<and>
    bytes_at q (4096 - length c) (length c) = c"
proof -
  define off where "off = 4096 - length c"
  define p1 where "p1 = patch (patch p 24 (to_le_bytes (of_nat off :: u16))) 26 (to_le_bytes (of_nat (length c) :: u16))"
  define p2 where "p2 = patch p1 12 (to_le_bytes (28 :: u16))"
  define p3 where "p3 = patch p2 off c"
  define q where "q = patch p3 14 (to_le_bytes (of_nat off :: u16))"
  have off: "28 \<le> off" "off + length c = 4096" using assms(4) by (simp_all add: off_def)
  have l1: "length p1 = 4096" using assms(1) by (simp add: p1_def length_patch)
  have f1: "fs_of p1 = 24" "fe_of p1 = 4096" "special_of p1 = special_of p"
    using assms(1-3) by (simp_all add: p1_def fields_patch_body length_patch)
  have inc: "increment_free_start t 4 p1 = (Ok 28, p2)"
    using increment_free_start_ok [of p1 4 t] l1 f1 by (simp add: p2_def)
  have l2: "length p2 = 4096" using l1 by (simp add: p2_def length_patch)
  have f2: "fs_of p2 = 28" "special_of p2 = special_of p"
    using l1 f1(3) by (simp_all add: p2_def fs_of_def special_of_def layout_defs word_at_patch_same word_at_patch_other)
  have l3: "length p3 = 4096" using l2 off by (simp add: p3_def length_patch)
  have f3: "fs_of p3 = 28" "special_of p3 = special_of p" using l2 f2 off by (simp_all add: p3_def fields_patch_body)
  have fin: "set_free_end t off p3 = (Ok (), q)"
    using set_free_end_ok [of p3 off t] l3 f3 off by (simp add: q_def)
  have "append_slot_entry t (of_nat (length c)) (of_nat off) p = (Ok (), p2)"
    using assms(1-3) inc
    by (simp add: append_slot_entry_def rust_simps layout_defs length_patch) (simp add: p1_def op_bind_def op_ret_def)
  then have "add_cell_append_slot_entry t c p = (Ok (), q)"
    using assms off l2 fin
    by (simp add: add_cell_append_slot_entry_def rust_simps layout_defs flip: off_def) (simp add: p3_def op_bind_def op_ret_def)
  moreover have "special_of q = special_of p" using patch_free_end(3) [OF l3] f3 by (simp add: q_def)
  moreover have "bytes_at q off (length c) = c"
    using l2 l3 off by (simp add: q_def bytes_at_patch_disjoint) (simp add: p3_def bytes_at_patch_same)
  ultimately show ?thesis using l3 by (intro exI [of _ q]) (simp add: off_def q_def length_patch)
qed

section \<open>Properties\<close>

text \<open>
  No byte of an index page is lost. On every well-formed index page the free room and the
  entries, 14 bytes and its key for each, add up to the 4056 bytes between header and special area;
  so a page holds at most 289 entries, and any insertion that fits leaves the room the sum demands.
\<close>

theorem index_page_capacity:
  assumes "wf_index p"
  shows "room_of p + sum_list (map (\<lambda>e. length (fst e) + 14) (index_entries p)) = 4056 \<and> length (index_entries p) \<le> 289"
proof -
  note A = index_accounting [OF assms]
  have "14 * length es \<le> sum_list (map (\<lambda>e. length (fst e) + 14) es)" for es :: "(block \<times> PageID) list"
    by (induction es) simp_all
  from this [of "index_entries p"] A show ?thesis by linarith
qed

theorem index_page_capacity_witness:
  "room_of demo_index1 + sum_list (map (\<lambda>e. length (fst e) + 14) (index_entries demo_index1)) = 4056 \<and> room_of demo_index1 = 4041"
  using index_page_capacity [OF demo_index1(1)] demo_index1(4) by simp

text \<open>
  C39: Reading all cells by their entries. On a well-formed page the cells tile the area from
  \<^verbatim>\<open>free_end\<close> to the special area or the end of the page, so one of them ends there; iterating the
  directory and reading every entry with \<^verbatim>\<open>cell_slice_from_entry\<close> returns all cells in order, except
  that in a debug build it panics on every page that has a cell and no special area (or an empty one).
\<close>

theorem scan_cells_result:
  assumes "wf_cells p"
  shows "scan_cells t p = (if debug t \<and> limit_of p = PAGE_SIZE \<and> cells_of p \<noteq> [] then Panic else Ok (cells_of p) :: ('e, block list) outcome)"
proof -
  note W = wf_cellsD [OF assms]
  note D = wf_pageD [OF W(1)]
  have sd: "slot_dir_ref t p = (Ok \<lparr>sr_ptr = 24, sr_size = count_of p * 4\<rparr> :: ('f, SlotRef) outcome)" by (rule slot_dir_ref_ok [OF W(1)])
  have le: "unat (se_offset se) + unat (se_length se) \<le> limit_of p" if "se \<in> set (entries_of p)" for se
    using W(2) [OF that] by (simp add: entry_ok_def)
  have R: "scan_cells t p = (if debug t \<and> (\<exists>se\<in>set (entries_of p). unat (se_offset se) + unat (se_length se) = 4096) then Panic
      else Ok (cells_of p) :: ('e, block list) outcome)"
  proof -
    have "unat (se_offset se) + unat (se_length se) \<le> length p" if "se \<in> set (entries_of p)" for se
      using le [OF that] D(1,5) by simp
    from read_cells_eq [OF this D(1), where 'e = 'e] show ?thesis
      by (simp add: scan_cells_def sd iter_collect_ok [OF W(1) sd] cells_of_def)
  qed
  have "(\<exists>se\<in>set (entries_of p). unat (se_offset se) + unat (se_length se) = 4096) \<longleftrightarrow> limit_of p = 4096 \<and> cells_of p \<noteq> []"
    using some_cell_ends_at_limit [OF assms] le D(5) by (fastforce simp: cells_of_def)
  then show ?thesis using R by (simp add: PAGE_SIZE_def)
qed

theorem scan_cells_result_witness:
  "scan_cells \<lparr>debug = True, big_endian = False\<rparr> demo_page1 = (Panic :: (unit, block list) outcome) \<and>
   scan_cells \<lparr>debug = False, big_endian = False\<rparr> demo_page1 = (Ok [[1, 2, 3]] :: (unit, block list) outcome)"
proof -
  have "limit_of demo_page1 = PAGE_SIZE"
    using wf_cellsD(4) [OF demo_page1(1)] demo_page1(4) wf_pageD(5) [OF wf_cellsD(1) [OF demo_page1(1)]]
      wf_cellsD(2) [OF demo_page1(1), of "\<lparr>se_offset = 4093, se_length = 3\<rparr>"]
    by (simp add: entry_ok_def PAGE_SIZE_def)
  then show ?thesis
    using scan_cells_result [OF demo_page1(1), of "\<lparr>debug = True, big_endian = False\<rparr>", where 'e = unit]
      scan_cells_result [OF demo_page1(1), of "\<lparr>debug = False, big_endian = False\<rparr>", where 'e = unit] demo_page1(2)
    by simp
qed

text \<open>
  Two large keys never share a page. The comment in \<^verbatim>\<open>internal_key.rs\<close> asks for a maximum key
  size that lets at least two keys fit; the constructor of cells accepts keys of up to 4057 bytes,
  and on a page that holds a key of more than 2014 bytes every insertion of another such key is
  refused, wherever it is to go and even when it is the only other entry.
\<close>

theorem big_keys_share_no_page:
  assumes "wf_index p" and "e \<in> set (index_entries p)" and "2014 < length (fst e)"
    and "2014 < length key" and "10 + length key < MAX_INDEX_CELL_SIZE"
  shows "\<exists>cell. IndexCellOwned_new t key c = (Ok cell :: ('e, IndexCellOwned) outcome) \<and>
    index_add_cell_at_slot_entry_index t i cell p = (Err (PageErr NoContigiousSpace), p)"
proof -
  have small: "10 + length key < 4068" using assms(5) by (simp add: cell_consts layout_defs)
  then have key: "length key < 65536" by simp
  have "length (fst e) + 14 \<le> sum_list (map (\<lambda>e. length (fst e) + 14) (index_entries p))"
    using assms(2) by (intro member_le_sum_list) auto
  then have full: "room_of p < length key + 14" using index_accounting [OF assms(1)] assms(3,4) by linarith
  show ?thesis
    by (rule exI [where x = "IndexCellOwned (encode_cell key c)"])
      (simp add: IndexCellOwned_new_ok [OF small] index_insert_refused(1) [OF assms(1) key full])
qed

theorem big_keys_share_no_page_witness:
  "\<exists>p cell. index_entries p = [(replicate 2015 1, PageID 7)] \<and>
     IndexCellOwned_new dev (replicate 2015 2) (PageID 9) = (Ok cell :: (unit, IndexCellOwned) outcome) \<and>
     index_add_cell_at_slot_entry_index dev 1 cell p = (Err (PageErr NoContigiousSpace), p)"
proof -
  have "length (replicate 2015 (1 :: u8)) < 65536" by simp
  then obtain p where p: "wf_index p" "index_entries p = [(replicate 2015 1, PageID 7)]"
    using index_insert_cases [OF demo_index(1), of "replicate 2015 1" dev 0 "PageID 7"] demo_index
    by (auto simp: insert_at_def)
  have "(replicate 2015 1, PageID 7) \<in> set (index_entries p)" by (simp add: p)
  from big_keys_share_no_page [OF p(1) this, of "replicate 2015 2" dev "PageID 9" 1, where 'e = unit] p(2)
  show ?thesis by (auto simp: cell_consts layout_defs)
qed

text \<open>
  C40: \<^verbatim>\<open>init_new\<close> forgets the special area. It sets the free space to the end of the page and leaves
  the special offset of the page's former use in place, so the page that is given out has a special
  area and no room kept for it: the first cell that is appended overwrites it, and reading the special
  area returns the cell.
\<close>

theorem reinit_loses_special:
  assumes "length p = PAGE_SIZE" and "special_of p + length c = PAGE_SIZE" and "28 \<le> special_of p" and "c \<noteq> []"
  shows "\<exists>q. op_bind (init_new ty) (\<lambda>_. add_cell_append_slot_entry t c) p = (Ok (), q) \<and>
    get_special_ref t q = Ok c \<and> ref_get_special_ref t q = Ok c"
proof -
  have L: "length p = 4096" and s: "special_of p = 4096 - length c" "length c \<le> 4068" "0 < special_of p"
    using assms by (auto simp: PAGE_SIZE_def)
  note R = init_bytes_reads [OF L, of ty]
  obtain q where q: "add_cell_append_slot_entry t c (init_bytes ty p) = (Ok (), q)" "length q = 4096"
      "special_of q = special_of p" "bytes_at q (4096 - length c) (length c) = c"
    using first_cell_exec [OF R(1-3) s(2), of t] R(4) by auto
  have w: "unat (word_at q 16) = special_of p" using q(3) by (simp add: special_of_def layout_defs)
  have "get_special_ref t q = Ok c"
    using q(2,4) w s by (simp add: get_special_ref_def header_reads layout_defs rust_simps Let_def)
  then show ?thesis using q(1) by (simp add: op_bind_def init_new_exec [OF L] ref_view_eqs)
qed

theorem reinit_loses_special_witness:
  "\<exists>q. op_bind (init_new 2) (\<lambda>_. add_cell_append_slot_entry dev (replicate 16 170)) demo_index = (Ok (), q) \<and>
     get_special_ref dev q = Ok (replicate 16 170)"
  using reinit_loses_special [of demo_index "replicate 16 170" 2 dev] wf_indexD(3,5) [OF demo_index(1)]
  by (auto simp: PAGE_SIZE_def)

end
