(* ===== verification/Slotted_Safety.thy ===== *)
theory Slotted_Safety
  imports Slotted_Machine
begin

text \<open>
  Memory safety of the whole of \<^verbatim>\<open>SlottedPageMut\<close> and \<^verbatim>\<open>SlottedPageRef\<close>, \<^verbatim>\<open>page/slotted_page.rs\<close>. Besides
  the commands of \<open>Slotted_Machine\<close> these have operations that set the header or a slot to any value and that leave
  a page half made: \<^verbatim>\<open>wipe_page\<close> and \<^verbatim>\<open>init_new\<close> each alone, the setters of the free-space pointers and
  of the special offset, single slot entries, and reads by an entry. All of them are commands here, run on any
  4096 bytes. Those that follow the pointers of the header are safe where the header is sane, all
  others always; and it is stated which commands keep the header sane.
\<close>

section \<open>Commands\<close>

datatype raw_cmd =
    Api slotted_cmd
  | Wipe
  | InitNew u8
  | SetFreeStart usize
  | IncrementFreeStart usize
  | SetFreeEnd usize
  | SetSpecialOffset u16
  | AppendSlot u16 u16
  | InsertSlot usize SlotEntry
  | CellByEntry page_view SlotEntry
  | IterSlots page_view

datatype raw_answer =
    Answer slotted_answer
  | Slots "SlotEntry list"

definition op_answer :: "('a \<Rightarrow> slotted_answer) \<Rightarrow> 'a page_op \<Rightarrow> raw_answer page_op" where
  "op_answer f g = op_bind g (\<lambda>a. op_ret (Answer (f a)))"

fun raw_exec :: "target \<Rightarrow> raw_cmd \<Rightarrow> raw_answer page_op" where
  "raw_exec t (Api c) = op_answer id (slotted_exec t c)"
| "raw_exec t Wipe = op_answer (\<lambda>_. Unit) wipe_page"
| "raw_exec t (InitNew ty) = op_answer (\<lambda>_. Unit) (init_new ty)"
| "raw_exec t (SetFreeStart off) = op_answer (\<lambda>_. Unit) (set_free_start t off)"
| "raw_exec t (IncrementFreeStart n) = op_answer Count (increment_free_start t n)"
| "raw_exec t (SetFreeEnd off) = op_answer (\<lambda>_. Unit) (set_free_end t off)"
| "raw_exec t (SetSpecialOffset s) = op_answer (\<lambda>_. Unit) (set_special_offset s)"
| "raw_exec t (AppendSlot sz off) = op_answer (\<lambda>_. Unit) (append_slot_entry t sz off)"
| "raw_exec t (InsertSlot i se) = op_answer (\<lambda>_. Unit) (insert_slot_entry_at_index t i se)"
| "raw_exec t (CellByEntry v se) =
     op_answer Bytes (op_read (\<lambda>p. case v of MutView \<Rightarrow> cell_slice_from_entry t p se | RefView \<Rightarrow> ref_cell_slice_from_entry t p se))"
| "raw_exec t (IterSlots v) =
     op_bind (op_read (\<lambda>p. obind (case v of MutView \<Rightarrow> slot_dir_ref t p | RefView \<Rightarrow> ref_slot_dir_ref t p)
       (\<lambda>sd. iter_collect t p (slot_iter sd)))) (\<lambda>ses. op_ret (Slots ses))"

section \<open>Sane headers\<close>

definition sane_header :: "RawPage \<Rightarrow> bool" where
  "sane_header p \<longleftrightarrow> length p = PAGE_SIZE \<and> HEADER_SIZE \<le> fs_of p \<and> fs_of p \<le> fe_of p \<and> fe_of p \<le> PAGE_SIZE \<and>
     (special_of p = 0 \<or> HEADER_SIZE \<le> special_of p)"

text \<open>The commands that follow the pointers of the header into the page.\<close>

fun follows_header :: "raw_cmd \<Rightarrow> bool" where
  "follows_header (Api (AppendCell c)) \<longleftrightarrow> True"
| "follows_header (Api (InsertCell i c)) \<longleftrightarrow> True"
| "follows_header (Api (CellById v s)) \<longleftrightarrow> True"
| "follows_header (AppendSlot sz off) \<longleftrightarrow> True"
| "follows_header (InsertSlot i se) \<longleftrightarrow> True"
| "follows_header (IterSlots v) \<longleftrightarrow> True"
| "follows_header _ \<longleftrightarrow> False"

text \<open>What has to hold of the arguments of a command for it to keep a sane header sane.\<close>

fun keeps_header :: "RawPage \<Rightarrow> raw_cmd \<Rightarrow> bool" where
  "keeps_header p Wipe \<longleftrightarrow> False"
| "keeps_header p (SetFreeStart off) \<longleftrightarrow> HEADER_SIZE \<le> off \<and> off \<le> fe_of p"
| "keeps_header p (IncrementFreeStart n) \<longleftrightarrow> fs_of p + n \<le> fe_of p"
| "keeps_header p (SetFreeEnd off) \<longleftrightarrow> off \<le> PAGE_SIZE"
| "keeps_header p (SetSpecialOffset s) \<longleftrightarrow> unat s \<le> PAGE_SIZE - HEADER_SIZE"
| "keeps_header p _ \<longleftrightarrow> True"

text \<open>Rust slices are shorter than \<^verbatim>\<open>2^63\<close> bytes.\<close>

fun raw_args :: "raw_cmd \<Rightarrow> bool" where
  "raw_args (Api c) \<longleftrightarrow> cell_args c"
| "raw_args _ \<longleftrightarrow> True"

definition header_legal :: "RawPage \<Rightarrow> raw_cmd \<Rightarrow> bool" where
  "header_legal p c \<longleftrightarrow> raw_args c \<and> (follows_header c \<longrightarrow> sane_header p)"

definition header_keeping :: "RawPage \<Rightarrow> raw_cmd \<Rightarrow> bool" where
  "header_keeping p c \<longleftrightarrow> raw_args c \<and> keeps_header p c"

lemma sane_headerD:
  assumes "sane_header p"
  shows "length p = 4096" "24 \<le> fs_of p" "fs_of p \<le> fe_of p" "fe_of p \<le> 4096" "special_of p = 0 \<or> 24 \<le> special_of p"
  using assms by (auto simp: sane_header_def layout_defs)

lemma wf_page_sane: "wf_page p \<Longrightarrow> sane_header p"
  using wf_pageD [of p] by (auto simp: sane_header_def limit_of_def layout_defs split: if_splits)

text \<open>Writes next to and into the three pointers.\<close>

lemma sane_patch:
  assumes "sane_header p" and "off + length bs \<le> 12 \<or> 24 \<le> off" and "off + length bs \<le> 4096"
  shows "sane_header (patch p off bs)" "fs_of (patch p off bs) = fs_of p" "fe_of (patch p off bs) = fe_of p"
proof -
  note D = sane_headerD [OF assms(1)]
  have f: "fs_of (patch p off bs) = fs_of p" "fe_of (patch p off bs) = fe_of p" "special_of (patch p off bs) = special_of p"
    using assms(2,3) D(1) by (auto simp: fs_of_def fe_of_def special_of_def word_at_patch_other layout_defs)
  then show "fs_of (patch p off bs) = fs_of p" "fe_of (patch p off bs) = fe_of p" by simp_all
  show "sane_header (patch p off bs)" using assms D f by (simp add: sane_header_def length_patch layout_defs)
qed

lemma sane_pointers:
  assumes "sane_header p"
  shows "24 \<le> unat (w :: u16) \<Longrightarrow> unat w \<le> fe_of p \<Longrightarrow>
      sane_header (patch p 12 (to_le_bytes w)) \<and> fs_of (patch p 12 (to_le_bytes w)) = unat w \<and> fe_of (patch p 12 (to_le_bytes w)) = fe_of p"
    and "fs_of p \<le> unat w \<Longrightarrow> unat w \<le> 4096 \<Longrightarrow> sane_header (patch p 14 (to_le_bytes w))"
    and "24 \<le> unat w \<Longrightarrow> sane_header (patch p 16 (to_le_bytes w))"
  using sane_headerD [OF assms]
  by (simp_all add: sane_header_def fs_of_def fe_of_def special_of_def layout_defs length_patch word_at_patch_same word_at_patch_other)

section \<open>No command is undefined\<close>

lemma safe_op_answer: "safe_step g p \<Longrightarrow> safe_step (op_answer f g) p"
  unfolding op_answer_def by (intro safe_step_bind safe_step_basic)

lemma safe_op_read: "length p = 4096 \<Longrightarrow> f p \<noteq> UB \<Longrightarrow> safe_step (op_read f) p"
  by (simp add: safe_step_def op_read_def)

lemma special_safe:
  assumes "length p = 4096"
  shows "special_size t p \<noteq> UB" "get_special_ref t p \<noteq> UB" "get_special_mut t p \<noteq> UB"
  using assms
  by (auto simp: special_size_def get_special_ref_def get_special_mut_def ref_view_eqs header_reads layout_defs Let_def
      slice_range_def rust_assert_def debug_assert_def usize_sub_def overflow_def)

lemma obind_no_UB: "r \<noteq> UB \<Longrightarrow> (\<And>a. r = Ok a \<Longrightarrow> f a \<noteq> UB) \<Longrightarrow> obind r f \<noteq> UB"
  by (cases r) auto

lemma iter_collect_safe:
  assumes "length p = 4096" and "it_ptr it = 24" and "it_size it \<le> 4072"
  shows "iter_collect t p it \<noteq> (UB :: ('e, SlotEntry list) outcome)"
  using assms(2,3)
proof (induction "iter_slot_count it - it_pos it" arbitrary: it)
  case 0
  then show ?case by (simp add: iter_collect.simps iter_next_def next_entry_def)
next
  case (Suc n)
  let ?it = "it\<lparr>it_pos := it_pos it + 1\<rparr>"
  have pos: "it_pos it < it_size it div 4" using Suc.hyps(2) by (simp add: iter_slot_count_def layout_defs)
  then have "24 + it_pos it * 4 + 4 \<le> 4096" using Suc.prems(2) by linarith
  then obtain e where "iter_next t p it = (Ok (Some e, ?it) :: ('e, _) outcome)"
    using pos Suc.prems(1) assms(1) by (simp add: iter_next_def next_entry_def iter_slot_count_def layout_defs rust_simps Let_def)
  moreover have "iter_collect t p ?it \<noteq> (UB :: ('e, SlotEntry list) outcome)"
    using Suc.hyps(2) Suc.prems by (intro Suc.hyps(1)) (simp_all add: iter_slot_count_def)
  ultimately show ?case by (subst iter_collect.simps) (simp add: obind_no_UB)
qed

lemma iter_slots_safe:
  assumes "sane_header p"
  shows "obind (slot_dir_ref t p) (\<lambda>sd. iter_collect t p (slot_iter sd)) \<noteq> (UB :: ('e, SlotEntry list) outcome)"
proof -
  note D = sane_headerD [OF assms]
  have "slot_dir_ref t p = (Ok \<lparr>sr_ptr = 24, sr_size = fs_of p - 24\<rparr> :: ('e, SlotRef) outcome)"
    using D by (simp add: slot_dir_ref_def SlotRef_new_def rust_simps layout_defs)
  then show ?thesis
    using D iter_collect_safe [OF D(1), of "\<lparr>it_ptr = 24, it_size = fs_of p - 24, it_pos = 0\<rparr>" t, where 'e = 'e]
    by (simp add: slot_iter_def SlotDirIter_new_def)
qed

lemma slotted_exec_safe:
  assumes "length p = 4096" and "cell_args c" and "follows_header (Api c) \<Longrightarrow> sane_header p"
  shows "safe_step (slotted_exec t c) p"
proof -
  note L = assms(1)
  note R = safe_op_read [OF L]
  have sane: "24 \<le> fs_of p" "fs_of p \<le> fe_of p" "fe_of p \<le> 4096" if "follows_header (Api c)"
    using sane_headerD [OF assms(3) [OF that]] by simp_all
  note M = safe_step_def machine_simps rust_simps layout_defs length_patch
  show ?thesis
  proof (cases c)
    case (AppendCell b)
    then show ?thesis using safe_add_cell(1) [OF L sane] assms(2) by (auto intro!: safe_step_bind safe_step_basic)
  next
    case (InsertCell i b)
    then show ?thesis using safe_add_cell(2) [OF L sane] assms(2) by (auto intro!: safe_step_bind safe_step_basic)
  next
    case (CellById v s)
    then show ?thesis
      using safe_lookup [OF L, of t s] sane by (cases v) (auto simp: ref_view_eqs intro!: safe_step_bind safe_step_basic R)
  next
    case (FillSpecial bs)
    have "safe_step (case lh of (lo, hi) \<Rightarrow> op_bind (slice_write lo hi bs) (\<lambda>_. op_ret Unit)) q" if "length q = 4096" for lh q
      using that by (auto simp: slice_write_def safe_step_def machine_simps length_patch split: prod.split)
    then show ?thesis unfolding FillSpecial slotted_exec.simps by (rule safe_step_bind [OF R [of "get_special_mut t", OF special_safe(3) [OF L]]])
  qed (use L special_safe [OF L, of t] in \<open>auto simp: M ref_view_eqs wipe_page_def init_new_def set_page_type_def set_flags_def set_lsn_def
      get_page_type_def get_flags_def get_lsn_def free_contiguous_space_def slot_dir_ref_def header_reads arith_safe obind_no_UB
      split: page_view.split outcome.split\<close>)
qed

lemma safe_setters:
  assumes "length p = 4096"
  shows "safe_step (set_free_start t off) p" and "safe_step (set_special_offset s) p"
  unfolding set_free_start_def set_special_offset_def
  by (intro safe_step_bind safe_step_basic arith_safe; simp add: assms layout_defs)+

lemma raw_exec_safe:
  assumes "length p = 4096" and "header_legal p c"
  shows "safe_step (raw_exec t c) p"
proof -
  note L = assms(1)
  have sane: "24 \<le> fs_of p" "fs_of p \<le> fe_of p" "fe_of p \<le> 4096" if "follows_header c"
    using sane_headerD [of p] assms(2) that by (simp_all add: header_legal_def)
  note M = safe_step_def machine_simps rust_simps layout_defs length_patch
  show ?thesis
  proof (cases c)
    case (Api a)
    then show ?thesis using slotted_exec_safe [OF L, of a t] assms(2) by (simp add: header_legal_def safe_op_answer)
  next
    case Wipe
    have "safe_step wipe_page p" using L by (simp add: wipe_page_def safe_step_def)
    then show ?thesis using Wipe by (simp add: safe_op_answer)
  next
    case (InitNew ty)
    have "safe_step (init_new ty) p" using L init_bytes_reads(1) [OF L, of ty] by (simp add: init_new_exec safe_step_def)
    then show ?thesis using InitNew by (simp add: safe_op_answer)
  next
    case (SetFreeStart off)
    then show ?thesis using safe_setters(1) [OF L] by (simp add: safe_op_answer)
  next
    case (IncrementFreeStart n)
    then show ?thesis using safe_increment [OF L] by (simp add: safe_op_answer)
  next
    case (SetFreeEnd off)
    then show ?thesis using safe_set_free_end [OF L] by (simp add: safe_op_answer)
  next
    case (SetSpecialOffset s)
    then show ?thesis using safe_setters(2) [OF L] by (simp add: safe_op_answer)
  next
    case (AppendSlot sz off)
    then show ?thesis using safe_append_slot [OF L sane] by (simp add: safe_op_answer)
  next
    case (InsertSlot i se)
    then show ?thesis using safe_insert_slot [OF L sane] by (simp add: safe_op_answer)
  next
    case (CellByEntry v se)
    have "cell_slice_from_entry t p se \<noteq> (UB :: (PageError, block) outcome)"
      by (auto simp: cell_slice_from_entry_def Let_def debug_assert_def slice_range_def intro!: obind_no_UB)
    then show ?thesis using CellByEntry by (cases v) (auto simp: ref_view_eqs intro!: safe_op_answer safe_op_read L)
  next
    case (IterSlots v)
    then have "sane_header p" using assms(2) by (simp add: header_legal_def)
    from iter_slots_safe [OF this, of t, where 'e = PageError] show ?thesis
      using IterSlots L by (cases v) (auto simp: ref_view_eqs intro!: safe_step_bind safe_step_basic safe_op_read)
  qed
qed

section \<open>The header stays sane\<close>

text \<open>A slot entry that is added moves \<^verbatim>\<open>free_start\<close> by its size and nothing else of the header.\<close>

lemma increment_sane:
  assumes "sane_header p" and "fs_of p + n \<le> fe_of p"
  shows "\<exists>q. increment_free_start t n p = (Ok (fs_of p + n), q) \<and> sane_header q \<and> fs_of q = fs_of p + n \<and> fe_of q = fe_of p"
proof -
  note D = sane_headerD [OF assms(1)]
  have "unat (of_nat (fs_of p + n) :: u16) = fs_of p + n" using assms(2) D by (intro unat_of_nat_u16) simp
  then show ?thesis
    using increment_free_start_ok [OF D(1,2) assms(2), of t] sane_pointers(1) [OF assms(1), of "of_nat (fs_of p + n)"] D assms(2) by simp
qed

lemma append_slot_sane:
  assumes "sane_header p" and "4 \<le> fe_of p - fs_of p"
  shows "\<exists>q. append_slot_entry t sz off p = (Ok (), q) \<and> sane_header q \<and> fs_of q = fs_of p + 4 \<and> fe_of q = fe_of p"
proof -
  note D = sane_headerD [OF assms(1)]
  let ?p1 = "patch p (fs_of p) (to_le_bytes off)"
  let ?p2 = "patch ?p1 (fs_of p + 2) (to_le_bytes sz)"
  have 1: "sane_header ?p1" "fs_of ?p1 = fs_of p" "fe_of ?p1 = fe_of p"
    using sane_patch [OF assms(1), of "fs_of p" "to_le_bytes off"] D assms(2) by simp_all
  have 2: "sane_header ?p2" "fs_of ?p2 = fs_of p" "fe_of ?p2 = fe_of p"
    using sane_patch [OF 1(1), of "fs_of p + 2" "to_le_bytes sz"] 1 D assms(2) by simp_all
  have le: "fs_of ?p2 + 4 \<le> fe_of ?p2" unfolding 2(2,3) using D assms(2) by simp
  from increment_sane [OF 2(1) le, of t, unfolded 2(2,3)] obtain q where
    q: "increment_free_start t 4 ?p2 = (Ok (fs_of p + 4), q)" "sane_header q" "fs_of q = fs_of p + 4" "fe_of q = fe_of p" by blast
  have "append_slot_entry t sz off p = (Ok (), q)"
    using D assms(2) q(1) sane_headerD(1) [OF 1(1)] by (simp add: append_slot_entry_def rust_simps layout_defs)
  with q show ?thesis by blast
qed

lemma insert_slot_sane:
  assumes "sane_header p" and "4 \<le> fe_of p - fs_of p" and "i \<le> (fs_of p - 24) div 4"
  shows "\<exists>q. insert_slot_entry_at_index t i se p = (Ok (), q) \<and> sane_header q \<and> fs_of q = fs_of p + 4 \<and> fe_of q = fe_of p"
proof (cases "i = (fs_of p - 24) div 4")
  case True
  note D = sane_headerD [OF assms(1)]
  show ?thesis
    using append_slot_sane [OF assms(1,2), of t "se_length se" "se_offset se"] True D assms(2)
    by (simp add: insert_slot_entry_at_index_def rust_simps layout_defs Let_def)
next
  case False
  note D = sane_headerD [OF assms(1)]
  define n where "n = (fs_of p - 24) div 4"
  have n: "24 + n * 4 \<le> fs_of p" "i < n" using D(2) False assms(3) by (simp_all add: n_def)
  let ?io = "24 + i * 4"
  let ?bs = "bytes_at p ?io ((n - i) * 4)"
  let ?p1 = "patch p (?io + 4) ?bs"
  let ?p2 = "patch ?p1 ?io (to_le_bytes (se_offset se))"
  let ?p3 = "patch ?p2 (?io + 2) (to_le_bytes (se_length se))"
  have bs: "length ?bs = (n - i) * 4" using D n assms(2) by (simp add: length_bytes_at)
  have 1: "sane_header ?p1" "fs_of ?p1 = fs_of p" "fe_of ?p1 = fe_of p"
    using sane_patch [OF assms(1), of "?io + 4" ?bs] D assms(2) n bs by simp_all
  have 2: "sane_header ?p2" "fs_of ?p2 = fs_of p" "fe_of ?p2 = fe_of p"
    using sane_patch [OF 1(1), of ?io "to_le_bytes (se_offset se)"] 1 D assms(2) n by simp_all
  have 3: "sane_header ?p3" "fs_of ?p3 = fs_of p" "fe_of ?p3 = fe_of p"
    using sane_patch [OF 2(1), of "?io + 2" "to_le_bytes (se_length se)"] 2 D assms(2) n by simp_all
  have le: "fs_of ?p3 + 4 \<le> fe_of ?p3" unfolding 3(2,3) using D assms(2) by simp
  from increment_sane [OF 3(1) le, of t, unfolded 3(2,3)] obtain q where
    q: "increment_free_start t 4 ?p3 = (Ok (fs_of p + 4), q)" "sane_header q" "fs_of q = fs_of p + 4" "fe_of q = fe_of p" by blast
  have cpy: "ptr_copy ?io (?io + 4) ((n - i) * 4) p = (Ok (), ?p1)"
    using D assms(2) n by (simp add: ptr_copy_in_bounds)
  have "insert_slot_entry_at_index t i se p = (Ok (), q)"
    using D assms(2) n q(1) cpy sane_headerD(1) [OF 1(1)] sane_headerD(1) [OF 2(1)]
    by (simp add: insert_slot_entry_at_index_def rust_simps layout_defs Let_def flip: n_def del: add_2_eq_Suc')
  with q show ?thesis by blast
qed

text \<open>A cell that is added takes its length and a slot from the free space.\<close>

lemma add_cell_sane:
  assumes "sane_header p" and "length c < 2 ^ 63"
  shows "sane_header (snd (add_cell_append_slot_entry t c p))" and "sane_header (snd (add_cell_at_slot_entry_index t i c p))"
proof -
  note D = sane_headerD [OF assms(1)]
  let ?off = "fe_of p - length c"
  have tail: "sane_header (snd (op_bind (ptr_write ?off c) (\<lambda>_. op_bind (set_free_end t ?off) (\<lambda>_. op_ret ())) q))"
    if "sane_header q" "fs_of q = fs_of p + 4" "length c + 4 \<le> fe_of p - fs_of p" for q
  proof -
    have off: "24 \<le> ?off" "?off + length c \<le> 4096" "fs_of q \<le> ?off" using that D by simp_all
    note P = sane_patch [OF that(1), of ?off c]
    have "set_free_end t ?off (patch q ?off c) = (Ok (), patch (patch q ?off c) 14 (to_le_bytes (of_nat ?off :: u16)))"
      using P off D(2) that(2) sane_headerD(1) [of "patch q ?off c"] by (intro set_free_end_ok) simp_all
    moreover have "unat (of_nat ?off :: u16) = ?off" using off by (intro unat_of_nat_u16) simp
    ultimately show ?thesis
      using P off sane_pointers(2) [OF P(1), of "of_nat ?off"] sane_headerD(1) [OF that(1)] by (simp add: machine_simps raw_access)
  qed
  show "sane_header (snd (add_cell_append_slot_entry t c p))"
  proof (cases "length c + 4 \<le> fe_of p - fs_of p")
    case True
    then have "4 \<le> fe_of p - fs_of p" and le: "length c \<le> fe_of p" "length c \<le> 65535" "?off \<le> 65535" using D by simp_all
    from append_slot_sane [OF assms(1) this(1), of t "of_nat (length c)" "of_nat ?off"] obtain q where
      "append_slot_entry t (of_nat (length c)) (of_nat ?off) p = (Ok (), q)" "sane_header q" "fs_of q = fs_of p + 4" by blast
    then show ?thesis
      using tail [of q] True le D assms(2) by (simp add: add_cell_append_slot_entry_def rust_simps layout_defs)
  qed (use assms D in \<open>simp add: add_cell_append_slot_entry_def rust_simps layout_defs\<close>)
  show "sane_header (snd (add_cell_at_slot_entry_index t i c p))"
  proof (cases "length c + 4 \<le> fe_of p - fs_of p \<and> i \<le> (fs_of p - 24) div 4")
    case True
    then have room: "length c + 4 \<le> fe_of p - fs_of p" and i: "i \<le> (fs_of p - 24) div 4" by simp_all
    then have "4 \<le> fe_of p - fs_of p" and le: "length c \<le> fe_of p" "length c \<le> 65535" "?off \<le> 65535" using D by simp_all
    from insert_slot_sane [OF assms(1) this(1) i, of t "\<lparr>se_offset = of_nat ?off, se_length = of_nat (length c)\<rparr>"] obtain q where
      "insert_slot_entry_at_index t i \<lparr>se_offset = of_nat ?off, se_length = of_nat (length c)\<rparr> p = (Ok (), q)"
      "sane_header q" "fs_of q = fs_of p + 4" by blast
    then show ?thesis
      using tail [of q] room le D assms(2) by (simp add: add_cell_at_slot_entry_index_def SlotEntry_new_def rust_simps layout_defs)
  next
    case False
    then consider "fe_of p - fs_of p < length c + 4" | "length c + 4 \<le> fe_of p - fs_of p" "(fs_of p - 24) div 4 < i" by linarith
    then show ?thesis
      using assms D by cases (simp_all add: add_cell_at_slot_entry_index_def insert_slot_entry_at_index_def rust_simps layout_defs Let_def)
  qed
qed

lemma op_answer_snd: "snd (op_answer f g p) = snd (g p)" "snd (op_bind g (\<lambda>a. op_ret (h a)) p) = snd (g p)"
  by (auto simp: op_answer_def op_bind_def op_ret_def split: prod.split outcome.split)

lemma op_read_snd: "snd (op_read f p) = p"
  by (simp add: op_read_def)

lemma slot_ops_sane:
  assumes "sane_header p"
  shows "sane_header (snd (append_slot_entry t sz off p))" and "sane_header (snd (insert_slot_entry_at_index t i se p))"
proof -
  note D = sane_headerD [OF assms]
  show "sane_header (snd (append_slot_entry t sz off p))"
    using append_slot_sane [OF assms, of t sz off] assms D
    by (cases "4 \<le> fe_of p - fs_of p") (auto simp: append_slot_entry_def rust_simps layout_defs)
  consider "fe_of p - fs_of p < 4" | "4 \<le> fe_of p - fs_of p" "(fs_of p - 24) div 4 < i"
    | "4 \<le> fe_of p - fs_of p" "i \<le> (fs_of p - 24) div 4" by linarith
  then show "sane_header (snd (insert_slot_entry_at_index t i se p))"
  proof cases
    case 3
    then show ?thesis using insert_slot_sane [OF assms, of i t se] by auto
  qed (use assms D in \<open>simp_all add: insert_slot_entry_at_index_def rust_simps layout_defs Let_def\<close>)
qed

lemma raw_setters_sane:
  assumes "sane_header p"
  shows "24 \<le> off \<Longrightarrow> off \<le> fe_of p \<Longrightarrow> sane_header (snd (set_free_start t off p))"
    and "off \<le> 4096 \<Longrightarrow> sane_header (snd (set_free_end t off p))"
    and "unat s \<le> 4072 \<Longrightarrow> sane_header (snd (set_special_offset s p))"
    and "sane_header (snd (init_new ty p))"
proof -
  note D = sane_headerD [OF assms]
  have u: "unat (of_nat off :: u16) = off" if "off \<le> 4096" using that by (intro unat_of_nat_u16) simp
  show "24 \<le> off \<Longrightarrow> off \<le> fe_of p \<Longrightarrow> sane_header (snd (set_free_start t off p))"
    using D u sane_pointers(1) [OF assms, of "of_nat off"] by (simp add: set_free_start_def rust_simps layout_defs)
  show "off \<le> 4096 \<Longrightarrow> sane_header (snd (set_free_end t off p))"
    using assms D u sane_pointers(2) [OF assms, of "of_nat off"]
    by (auto simp: set_free_end_def machine_simps debug_assert_def op_err_def rust_simps layout_defs)
  show "sane_header (snd (set_special_offset s p))" if s: "unat s \<le> 4072"
  proof -
    have "s \<le> 4096" using s by (simp add: word_le_nat_alt)
    then have "unat (4096 - s) = 4096 - unat s" by (simp add: unat_sub)
    then show ?thesis
      using assms D s sane_pointers(3) [OF assms, of "4096 - s"]
      by (auto simp: set_special_offset_def machine_simps rust_assert_def rust_simps layout_defs word_less_nat_alt)
  qed
  show "sane_header (snd (init_new ty p))"
    using D init_bytes_reads(1-4) [OF D(1), of ty] by (simp add: init_new_exec sane_header_def layout_defs)
qed

lemma slotted_exec_sane:
  assumes "sane_header p" and "cell_args c"
  shows "sane_header (snd (slotted_exec t c p))"
proof -
  note D = sane_headerD [OF assms(1)]
  have wipe: "sane_header (snd (slotted_exec t (WipeInit ty) p))" for ty
    using slotted_wipe_init [OF D(1), of t ty] by (auto simp: slotted_ok_def intro!: wf_page_sane dest: wf_cellsD(1))
  have fill: "sane_header (snd (slotted_exec t (FillSpecial bs) p))" for bs
  proof (cases "get_special_mut t p")
    case (Ok lh)
    then have "fst lh = special_of p" "special_of p \<noteq> 0"
      using D(1) by (auto simp: get_special_mut_def header_reads special_of_def layout_defs Let_def obind_eq_Ok split: if_splits)
    then show ?thesis
      using assms(1) D(5) sane_patch(1) [OF assms(1), of "special_of p" bs] D(1) Ok
      by (auto simp: machine_simps slice_write_def split: prod.split)
  qed (use assms(1) in \<open>simp_all add: machine_simps\<close>)
  show ?thesis
    using assms add_cell_sane [OF assms(1), of _ t] sane_patch(1) [OF assms(1)] D(1) wipe fill
    by (cases c) (simp_all add: op_answer_snd op_read_snd set_page_type_def set_flags_def set_lsn_def rust_simps layout_defs
        del: slotted_exec.simps(1,7))
qed

lemma increment_keeps_sane: "sane_header p \<Longrightarrow> fs_of p + n \<le> fe_of p \<Longrightarrow> sane_header (snd (increment_free_start t n p))"
  using increment_sane [of p n t] by auto

lemma raw_exec_sane:
  assumes "sane_header p" and "header_keeping p c"
  shows "sane_header (snd (raw_exec t c p))"
  using assms increment_keeps_sane [OF assms(1), of _ t] slotted_exec_sane [OF assms(1), of _ t] slot_ops_sane [OF assms(1), of t] raw_setters_sane [OF assms(1)]
  by (cases c) (auto simp: op_answer_snd op_read_snd header_keeping_def layout_defs)

interpretation raw_safety: safe_machine "\<lambda>p. length p = PAGE_SIZE" header_legal "raw_exec t" UB for t
  by unfold_locales (use raw_exec_safe [of _ _ t] in \<open>auto simp: safe_step_def PAGE_SIZE_def\<close>)

interpretation sane_safety: safe_machine sane_header header_keeping "raw_exec t" UB for t
proof unfold_locales
  show "sane_header (snd (raw_exec t c p))" if "sane_header p" "header_keeping p c" for p c using that by (rule raw_exec_sane)
  show "fst (raw_exec t c p) \<noteq> UB" if "sane_header p" "header_keeping p c" for p c
    using raw_exec_safe [OF sane_headerD(1) [OF that(1)], of c t] that by (simp add: safe_step_def header_legal_def header_keeping_def)
qed

section \<open>Properties\<close>

text \<open>A page whose only slot names an area at offset 65535.\<close>

definition stray_slot_page :: RawPage where
  "stray_slot_page = patch demo_page1 24 [255, 255]"

lemma stray_slot_page: "sane_header stray_slot_page" "length stray_slot_page = PAGE_SIZE"
proof -
  show "sane_header stray_slot_page"
    unfolding stray_slot_page_def by (rule sane_patch [OF wf_page_sane [OF wf_cellsD(1) [OF demo_page1(1)]]]) simp_all
  then show "length stray_slot_page = PAGE_SIZE" by (simp add: sane_header_def)
qed

text \<open>
  C20: Memory safety of the slotted page. Let any operations of \<^verbatim>\<open>SlottedPageMut\<close> and \<^verbatim>\<open>SlottedPageRef\<close> run one
  after the other on any 4096 bytes, with any slots and cells, the raw setters of the header, single slot entries,
  reads by an arbitrary entry, and \<^verbatim>\<open>wipe_page\<close> and \<^verbatim>\<open>init_new\<close> alone included. None of them accesses memory
  outside the page, in any build, as long as those that follow the pointers of the header into the page
  (adding cells or slots, looking a cell up by id, iterating the slots) run where the header is sane:
  \<^verbatim>\<open>24 <= free_start <= free_end <= 4096\<close> and a special area that does not begin inside the header. From a sane
  header every operation keeps it sane, and so everything stays legal, except \<^verbatim>\<open>wipe_page\<close> and the setters with
  arguments outside these bounds.
\<close>

theorem slotted_api_memory_safe:
  assumes "length p = PAGE_SIZE"
  shows "(legal_run (raw_exec t) header_legal cs p \<longrightarrow> UB \<notin> set (fst (run_cmds (raw_exec t) cs p))) \<and>
    (sane_header p \<and> legal_run (raw_exec t) header_keeping cs p \<longrightarrow>
      UB \<notin> set (fst (run_cmds (raw_exec t) cs p)) \<and> sane_header (snd (run_cmds (raw_exec t) cs p)))"
  using raw_safety.run_safe [OF assms, of t cs] sane_safety.run_safe [of p t cs] by blast

theorem slotted_api_memory_safe_witness:
  "UB \<notin> set (fst (run_cmds (raw_exec dev) [IterSlots RefView, Api (CellById RefView (SlotID 0)), SetFreeEnd 4000, AppendSlot 9 65535,
       SetSpecialOffset 16, Api (InsertCell 0 [7]), InitNew 3, CellByEntry MutView \<lparr>se_offset = 65535, se_length = 65535\<rparr>] stray_slot_page)) \<and>
   UB \<notin> set (fst (run_cmds (raw_exec dev) [SetFreeStart 65532, Wipe, InitNew 3, Api (AppendCell [7])] stray_slot_page))"
proof
  let ?cs = "[IterSlots RefView, Api (CellById RefView (SlotID 0)), SetFreeEnd 4000, AppendSlot 9 65535,
       SetSpecialOffset 16, Api (InsertCell 0 [7]), InitNew 3, CellByEntry MutView \<lparr>se_offset = 65535, se_length = 65535\<rparr>]"
  have "legal_run (raw_exec dev) header_keeping ?cs stray_slot_page"
    by (simp add: header_keeping_def layout_defs del: raw_exec.simps)
  then show "UB \<notin> set (fst (run_cmds (raw_exec dev) ?cs stray_slot_page))"
    using slotted_api_memory_safe [OF stray_slot_page(2), of dev ?cs] stray_slot_page(1) by blast
  let ?ds = "[SetFreeStart 65532, Wipe, InitNew 3, Api (AppendCell [7])]"
  let ?q = "snd (raw_exec dev (SetFreeStart 65532) stray_slot_page)"
  have "length ?q = 4096" using raw_exec_safe [of stray_slot_page "SetFreeStart 65532" dev] stray_slot_page(2)
    by (simp add: safe_step_def header_legal_def PAGE_SIZE_def del: raw_exec.simps)
  then have "snd (raw_exec dev (InitNew 3) (snd (raw_exec dev Wipe ?q))) = init_bytes 3 (replicate 4096 0)"
    by (simp add: op_answer_snd wipe_page_def init_new_exec del: raw_exec.simps(4))
  moreover have "sane_header (init_bytes 3 (replicate 4096 0))"
    by (rule wf_page_sane [OF wf_cellsD(1) [OF init_new_fresh(1) [OF zero_page]]])
  ultimately have "legal_run (raw_exec dev) header_legal ?ds stray_slot_page"
    by (simp add: header_legal_def del: raw_exec.simps)
  then show "UB \<notin> set (fst (run_cmds (raw_exec dev) ?ds stray_slot_page))"
    using slotted_api_memory_safe [OF stray_slot_page(2), of dev ?ds] by blast
qed

end
