(* ===== verification/Corrupt_Pages.thy ===== *)
theory Corrupt_Pages
  imports Index_Machine Slotted_Safety
begin

text \<open>
  Memory safety of the index page's interface on pages whose contents are damaged. The bytes come from a
  file, so nothing can be assumed of the slots and the cells: here only the header is sane, slots
  may name any area, cells may overlap and the lengths stored in them are arbitrary. Operations may
  then return an error or panic, but they do not touch memory outside the page.
\<close>

section \<open>The header\<close>

lemma wf_page_patch:
  assumes "wf_page p" and "off + length bs \<le> 12 \<or> 24 \<le> off" and "off + length bs \<le> 4096"
  shows "wf_page (patch p off bs)" and "special_of (patch p off bs) = special_of p"
proof -
  note L = wf_pageD(1) [OF assms(1)]
  have f: "fs_of (patch p off bs) = fs_of p" "fe_of (patch p off bs) = fe_of p"
    and s: "special_of (patch p off bs) = special_of p"
    using assms(2,3) L by (auto simp: fs_of_def fe_of_def special_of_def word_at_patch_other layout_defs)
  then have "limit_of (patch p off bs) = limit_of p" by (simp add: limit_of_def)
  then show "wf_page (patch p off bs)" using assms L f by (simp add: wf_page_def length_patch layout_defs)
  from s show "special_of (patch p off bs) = special_of p" .
qed

lemma lookup_no_UB:
  assumes "wf_page p"
  shows "cell_slice_from_id t p s \<noteq> UB"
  by (rule safe_lookup) (use wf_pageD [OF assms] in auto)

section \<open>The index page\<close>

text \<open>
  A build with debug assertions checks the key length of a cell before the key is read. A build
  without relies on the cells: every area a slot names that is long enough to be a cell must hold its key.
\<close>

definition key_bounded :: "block \<Rightarrow> bool" where
  "key_bounded c \<longleftrightarrow> 10 \<le> length c \<longrightarrow> 10 + unat (word_at c 8) \<le> length c"

definition keys_bounded :: "RawPage \<Rightarrow> bool" where
  "keys_bounded p \<longleftrightarrow> list_all (\<lambda>se. unat (se_offset se) + unat (se_length se) \<le> 4096 \<longrightarrow> key_bounded (cell_of p se)) (entries_of p)"

lemma IndexCell_from_no_UB:
  "IndexCell_from s \<noteq> UB" "IndexCell_from s = Ok c \<Longrightarrow> c = IndexCell s \<and> 10 \<le> length s"
  by (auto simp: IndexCell_from_def rust_assert_def split: if_splits)

lemma get_key_no_UB:
  assumes "10 \<le> length s" and "debug t \<or> key_bounded s"
  shows "get_key t (IndexCell s) \<noteq> UB"
  using assms
  by (auto simp: get_key_def rust_simps cell_consts word_at_def Let_def key_bounded_def ptr_read_def debug_assert_def)

lemma get_value_ptr_no_UB: "10 \<le> length s \<Longrightarrow> get_value_ptr t (IndexCell s) \<noteq> UB"
  by (simp add: get_value_ptr_def rust_simps cell_consts)

lemma slot_cell_no_UB:
  assumes "length p = 4096"
  shows "cell_slice_from_entry t p se \<noteq> UB"
    and "cell_slice_from_entry t p se = Ok s \<Longrightarrow> unat (se_offset se) + unat (se_length se) \<le> 4096 \<and> s = cell_of p se"
  using assms
  by (auto simp: cell_slice_from_entry_def Let_def debug_assert_def slice_range_def cell_of_def obind_eq_Ok split: if_splits)

text \<open>A separator can be read where the cell of its slot can, or the search panics before.\<close>

lemma read_entry_no_UB:
  assumes "length p = 4096" and "debug t \<or> keys_bounded p" and "se \<in> set (entries_of p)" and "\<And>k. rest k \<noteq> UB"
  shows "obind (ref_cell_slice_from_entry t p se) (\<lambda>slice. obind (IndexCell_from slice) (\<lambda>cell.
    obind (get_key t cell) (\<lambda>k. if key < k then obind (get_value_ptr t cell) (\<lambda>pid. Ok (Some pid)) else rest k))) \<noteq> UB"
proof (unfold ref_view_eqs, intro obind_no_UB slot_cell_no_UB(1) [OF assms(1)] IndexCell_from_no_UB(1))
  fix s c assume "cell_slice_from_entry t p se = Ok s" and "IndexCell_from s = Ok c"
  from slot_cell_no_UB(2) [OF assms(1) this(1)] IndexCell_from_no_UB(2) [OF this(2)] assms(2,3)
  have c: "c = IndexCell s" "10 \<le> length s" "debug t \<or> key_bounded s" by (auto simp: keys_bounded_def list_all_iff)
  show "get_key t c \<noteq> UB" unfolding c(1) by (rule get_key_no_UB [OF c(2,3)])
  show "(if key < k then obind (get_value_ptr t c) (\<lambda>pid. Ok (Some pid)) else rest k) \<noteq> UB" for k
    by (cases "key < k") (simp_all add: c(1) obind_no_UB get_value_ptr_no_UB [OF c(2)] assms(4))
qed

lemma find_loop_no_UB:
  assumes "wf_page p" and "debug t \<or> keys_bounded p" and "k \<le> count_of p"
  shows "find_loop t p key \<lparr>it_ptr = 24, it_size = count_of p * 4, it_pos = k\<rparr> \<noteq> UB"
  using assms(3)
proof (induction "count_of p - k" arbitrary: k)
  case 0
  then show ?case by (subst find_loop.simps) (simp add: iter_next_end)
next
  case (Suc n)
  then have k: "k < count_of p" and n: "n = count_of p - Suc k" "Suc k \<le> count_of p" by simp_all
  have "entries_of p ! k \<in> set (entries_of p)" using k by simp
  from read_entry_no_UB [OF wf_pageD(1) [OF assms(1)] assms(2) this Suc.hyps(1) [OF n]]
  show ?case by (subst find_loop.simps) (simp add: iter_next_ok [OF assms(1) k])
qed

lemma lookup_cell:
  assumes "wf_page p" and "cell_slice_from_id t p (SlotID 0) = Ok s"
  shows "0 < count_of p" and "s = cell_of p (entries_of p ! 0)"
    and "unat (se_offset (entries_of p ! 0)) + unat (se_length (entries_of p ! 0)) \<le> 4096"
proof -
  show k: "0 < count_of p"
    using assms(2) by (auto simp: cell_slice_from_id_def slot_dir_ref_ok [OF assms(1)] slot_count_def layout_defs Let_def split: if_splits)
  have "read_u16_le_unsafe t p 24 = (Ok (se_offset (entries_of p ! 0)) :: (PageError, u16) outcome)"
    "read_u16_le_unsafe t p 26 = (Ok (se_length (entries_of p ! 0)) :: (PageError, u16) outcome)"
    using entry_reads_ok [OF assms(1) k] by simp_all
  then show "s = cell_of p (entries_of p ! 0)"
    "unat (se_offset (entries_of p ! 0)) + unat (se_length (entries_of p ! 0)) \<le> 4096"
    using assms(2) k by (auto simp: cell_slice_from_id_def slot_dir_ref_ok [OF assms(1)] slot_count_def layout_defs Let_def
        slice_range_def cell_of_def split: if_splits)
qed

text \<open>The header of an index page: a sane slotted header and the special area of 16 bytes.\<close>

definition index_header :: "RawPage \<Rightarrow> bool" where
  "index_header p \<longleftrightarrow> wf_page p \<and> special_of p = 4080"

lemma find_child_ptr_no_UB:
  assumes "index_header p" and "debug t \<or> keys_bounded p"
  shows "find_child_ptr t p key \<noteq> UB"
proof -
  have W: "wf_page p" and L: "length p = 4096" and S: "special_of p = 4080"
    using assms(1) wf_pageD(1) by (auto simp: index_header_def)
  note R = right_sibling_ok [OF L S]
  have iter: "slot_iter \<lparr>sr_ptr = 24, sr_size = count_of p * 4\<rparr> = \<lparr>it_ptr = 24, it_size = count_of p * 4, it_pos = 0\<rparr>"
    by (simp add: slot_iter_def SlotDirIter_new_def)
  note F = find_child_ptr_def R ref_view_eqs slot_dir_ref_ok [OF W] iter Let_def
  show ?thesis
  proof (cases "sibling_of p")
    case None
    then show ?thesis using find_loop_no_UB [OF W assms(2), of 0 key] by (simp add: F)
  next
    case (Some r)
    have "obind (IndexCell_from s) (\<lambda>c. obind (get_key t c) (\<lambda>high.
        if key > high then Ok (Some r) else find_loop t p key \<lparr>it_ptr = 24, it_size = count_of p * 4, it_pos = 1\<rparr>)) \<noteq>
      (UB :: (IndexPageError, PageID option) outcome)"
      if "cell_slice_from_id t p (SlotID 0) = Ok s" for s
    proof (intro obind_no_UB IndexCell_from_no_UB(1))
      note C = lookup_cell [OF W that]
      fix c assume "IndexCell_from s = Ok c"
      from IndexCell_from_no_UB(2) [OF this] have c: "c = IndexCell s" "10 \<le> length s" by simp_all
      have "debug t \<or> key_bounded s" using assms(2) C by (auto simp: keys_bounded_def list_all_length)
      then show "get_key t c \<noteq> UB" unfolding c(1) by (rule get_key_no_UB [OF c(2)])
      show "(if key > high then Ok (Some r) else find_loop t p key \<lparr>it_ptr = 24, it_size = count_of p * 4, it_pos = 1\<rparr>) \<noteq>
          (UB :: (IndexPageError, PageID option) outcome)" for high
        using find_loop_no_UB [OF W assms(2), of 1 key, where 'a = IndexPageError] C(1) by simp
    qed
    then show ?thesis
      using Some lookup_no_UB [OF W, of t "SlotID 0"] lookup_cell(1) [OF W, of t]
      by (cases "cell_slice_from_id t p (SlotID 0)") (simp_all add: F iter_next_ok [OF W] cong: if_cong)
  qed
qed

definition index_safe :: "target \<Rightarrow> index_cmd \<Rightarrow> RawPage \<Rightarrow> bool" where
  "index_safe t c p \<longleftrightarrow> index_header (snd (index_exec t c p)) \<and> fst (index_exec t c p) \<noteq> UB"

lemma index_safe_reads:
  assumes "index_header p"
  shows "index_safe t (GetKind v) p" and "index_safe t (GetLevel v) p" and "index_safe t (HasRightSibling v) p"
    and "index_safe t GetRightSibling p" and "debug t \<or> keys_bounded p \<Longrightarrow> index_safe t (FindChildPtr key) p"
proof -
  have L: "length p = 4096" and S: "special_of p = 4080" using assms wf_pageD(1) by (auto simp: index_header_def)
  note T = index_page_type_ok [OF L] right_sibling_ok [OF L S]
  note M = index_safe_def machine_simps
  show "index_safe t (GetKind v) p" "index_safe t (GetLevel v) p" "index_safe t (HasRightSibling v) p" "index_safe t GetRightSibling p"
    using assms
    by (auto simp: M T index_kind_def index_level_def ref_index_kind_def ref_index_level_def ref_index_get_page_type_def
        index_get_page_type_def [symmetric] ref_view_eqs level_ok split: page_view.split)
  show "index_safe t (FindChildPtr key) p" if "debug t \<or> keys_bounded p"
    using assms find_child_ptr_no_UB [OF assms that, of key] by (auto simp: M split: outcome.split)
qed

lemma index_header_patch:
  assumes "index_header p" and "off + length bs \<le> 12 \<or> 4080 \<le> off" and "off + length bs \<le> 4096"
  shows "index_header (patch p off bs)"
  using assms wf_page_patch [of p off bs] by (auto simp: index_header_def)

lemma index_safe_writes:
  assumes "index_header p"
  shows "index_safe t (InitInPlace lsn) p" and "index_safe t (SetPageType k) p" and "index_safe t (SetLevel v) p"
    and "index_safe t (SetRightSibling r) p"
proof -
  have L: "length p = 4096" and S: "special_of p = 4080" using assms wf_pageD(1) by (auto simp: index_header_def)
  note M = index_safe_def machine_simps and P = index_header_patch [OF assms]
  show "index_safe t (InitInPlace lsn) p"
    using wf_indexD(2,5) [OF fresh_index(1), of lsn] by (simp add: M init_index_exec [OF L] index_header_def)
  show "index_safe t (SetPageType k) p" "index_safe t (SetLevel v) p"
    using assms P by (auto simp: M index_set_page_type_def set_page_type_exec [OF L] set_level_def index_page_type_ok [OF L]
        IndexLevel_new_def rust_assert_def)
  show "index_safe t (SetRightSibling r) p" using P by (simp add: M set_right_sibling_exec [OF L S])
qed

lemma index_safe_inserts:
  assumes "index_header p" and "length key < 2 ^ 63"
  shows "index_safe t (AddCellAppend key c) p" and "index_safe t (AddCellAt i key c) p"
proof -
  have W: "wf_page p" using assms(1) by (simp add: index_header_def)
  have H: "index_header (put_cell p j b)" if "length b + 4 \<le> fe_of p - fs_of p" "j \<le> count_of p" for j b
    using assms(1) wf_page_put_cell [OF W that] put_cell_special [OF W that] by (simp add: index_header_def)
  note M = index_safe_def machine_simps index_add_cell_append_slot_entry_def index_add_cell_at_slot_entry_index_def
    owned_deref_def lift_page_def op_map_err_def
  show "index_safe t (AddCellAppend key c) p" "index_safe t (AddCellAt i key c) p"
  proof (atomize (full), cases "10 + length key < 4068")
    case False
    then have "IndexCellOwned_new t key c = (Panic :: (IndexPageError, IndexCellOwned) outcome)"
      using assms(2) by (intro IndexCellOwned_new_panic) simp_all
    then show "index_safe t (AddCellAppend key c) p \<and> index_safe t (AddCellAt i key c) p" using assms(1) by (simp add: M)
  next
    case True
    note X = IndexCellOwned_new_ok [OF True] add_cell_append_exec [OF W, of "encode_cell key c"]
      add_cell_at_exec [OF W, of "encode_cell key c"]
    consider "fe_of p - fs_of p < length key + 14" | "length key + 14 \<le> fe_of p - fs_of p" "count_of p < i"
      | "length key + 14 \<le> fe_of p - fs_of p" "i \<le> count_of p" by linarith
    then show "index_safe t (AddCellAppend key c) p \<and> index_safe t (AddCellAt i key c) p"
      using assms(1) H [of "encode_cell key c"] True by cases (simp_all add: M X)
  qed
qed

text \<open>A search reads keys, so in a build without debug assertions it is left out.\<close>

fun is_search :: "index_cmd \<Rightarrow> bool" where
  "is_search (FindChildPtr key) = True"
| "is_search _ = False"

definition safe_args :: "target \<Rightarrow> index_cmd \<Rightarrow> bool" where
  "safe_args t c \<longleftrightarrow> slice_args c \<and> (is_search c \<longrightarrow> debug t)"

lemma index_cmd_safe: "index_header p \<Longrightarrow> safe_args t c \<Longrightarrow> index_safe t c p"
  by (cases c) (simp_all add: safe_args_def index_safe_reads index_safe_writes index_safe_inserts)

interpretation index_safety: safe_machine index_header "\<lambda>_. safe_args t" "index_exec t" UB for t
  by unfold_locales (use index_cmd_safe in \<open>auto simp: index_safe_def\<close>)

section \<open>Example pages\<close>

text \<open>An index page whose cell claims a key of 65535 bytes.\<close>

definition long_key_page :: RawPage where
  "long_key_page = patch demo_index1 4077 [255, 255]"

lemma long_key_page: "index_header long_key_page"
  using wf_page_patch [OF wf_indexD(2) [OF demo_index1(1)], of 4077 "[255, 255]"] wf_indexD(5) [OF demo_index1(1)]
  by (simp add: index_header_def long_key_page_def)

section \<open>Properties\<close>

text \<open>
  C19: Memory safety of the index page. On any page with a sane header and the special area of an
  index page, whatever its slots, its cells and the lengths stored in them are, no sequence of
  operations of \<^verbatim>\<open>IndexPageMut\<close> and \<^verbatim>\<open>IndexPageRef\<close> accesses memory it must not, where the build has debug
  assertions or the sequence has no search; the header stays that of an index page. One search is
  safe in every build when each area a slot names holds the key whose length it stores.
\<close>

theorem index_api_memory_safe:
  assumes "index_header p"
  shows "(list_all (safe_args t) cs \<longrightarrow> UB \<notin> set (fst (run_cmds (index_exec t) cs p)) \<and>
      index_header (snd (run_cmds (index_exec t) cs p))) \<and> (keys_bounded p \<longrightarrow> find_child_ptr t p key \<noteq> UB)"
  using index_safety.run_safe [OF assms, of t cs] find_child_ptr_no_UB [OF assms, of t key] unfolding legal_run_always by blast

theorem index_api_memory_safe_witness:
  "UB \<notin> set (fst (run_cmds (index_exec dev) [FindChildPtr [1], AddCellAt 0 [3] (PageID 4), SetRightSibling (PageID 2), FindChildPtr [9]]
     long_key_page))"
  using index_api_memory_safe [OF long_key_page, of dev
      "[FindChildPtr [1], AddCellAt 0 [3] (PageID 4), SetRightSibling (PageID 2), FindChildPtr [9]]"]
  by (simp add: safe_args_def)

text \<open>
  The restriction to builds with debug assertions is needed. Where the first slot names an area whose stored
  key length is beyond it, every search of the page has undefined behaviour in a release build;
  a debug build panics.
\<close>

theorem corrupt_key_search_reads_outside:
  assumes "index_header p" and "sibling_of p = None" and "entries_of p = se # es"
    and "unat (se_offset se) + unat (se_length se) < 4096" and "10 \<le> unat (se_length se)"
    and "unat (se_length se) < 10 + unat (word_at (cell_of p se) 8)"
  shows "find_child_ptr t p key = (if debug t then Panic else UB)"
proof -
  have W: "wf_page p" and L: "length p = 4096" and S: "special_of p = 4080"
    using assms(1) wf_pageD(1) by (auto simp: index_header_def)
  have k: "0 < count_of p" "entries_of p ! 0 = se" using assms(3) length_entries [of p] by auto
  have len: "length (cell_of p se) = unat (se_length se)" using assms(4) L by (simp add: cell_of_def length_bytes_at)
  then have key: "IndexCell_from (cell_of p se) = (Ok (IndexCell (cell_of p se)) :: ('e, IndexCell) outcome)"
    "get_key t (IndexCell (cell_of p se)) = (if debug t then Panic else UB :: ('e, block) outcome)"
    using corrupt_key_length_reads_outside [of "cell_of p se" t, where 'e = 'e] assms(5,6) by simp_all
  have cell: "cell_slice_from_entry t p se = (Ok (cell_of p se) :: ('e, block) outcome)"
    using assms(4) L by (simp add: cell_slice_from_entry_def cell_of_def rust_simps layout_defs Let_def)
  have "find_loop t p key \<lparr>it_ptr = 24, it_size = count_of p * 4, it_pos = 0\<rparr> =
      (if debug t then Panic else UB :: (IndexPageError, PageID option) outcome)"
    by (subst find_loop.simps) (simp add: iter_next_ok [OF W k(1)] k(2) ref_view_eqs cell key)
  then show ?thesis
    using assms(2) by (simp add: find_child_ptr_def right_sibling_ok [OF L S] ref_view_eqs slot_dir_ref_ok [OF W]
        slot_iter_def SlotDirIter_new_def)
qed

theorem corrupt_key_search_reads_outside_witness:
  "find_child_ptr \<lparr>debug = False, big_endian = False\<rparr> long_key_page [1] = UB"
proof -
  let ?c = "encode_cell [5] (PageID 9)"
  note W = wf_indexD(2) [OF demo_index(1)]
  note D = init_index_reads(2,3) [of 7, folded demo_index_def]
  have room: "length ?c + 4 \<le> fe_of demo_index - fs_of demo_index" and idx: "0 \<le> count_of demo_index" using D by simp_all
  have p: "demo_index1 = put_cell demo_index 0 ?c"
    using room add_cell_at_exec [OF W, of ?c dev 0]
    by (simp add: demo_index1_def index_add_cell_at_slot_entry_index_def op_bind_def op_ret_def owned_deref_def lift_page_def op_map_err_def)
  note R = put_cell_reads [OF W room idx, folded p]
  have es: "entries_of long_key_page = [\<lparr>se_offset = 4069, se_length = 11\<rparr>]"
    using entries_patch_body [of demo_index1 4077 "[255, 255]"] R(1,2,6) D
    by (simp add: long_key_page_def insert_at_def entries_of_def [of demo_index] count_of_def layout_defs)
  have "word_at (cell_of long_key_page \<lparr>se_offset = 4069, se_length = 11\<rparr>) 8 = word_at long_key_page 4077"
    by (simp add: cell_of_def word_at_bytes_at)
  also have "\<dots> = word_at [255, 255] 0" using R(1) by (simp add: long_key_page_def word_at_patch_inside)
  also have "\<dots> = 65535" by (simp add: word_at_def bytes_at_def from_le_bytes_def)
  finally have k: "word_at (cell_of long_key_page \<lparr>se_offset = 4069, se_length = 11\<rparr>) 8 = 65535" .
  have "sibling_of long_key_page = sibling_of demo_index1"
    using R(1) by (simp add: sibling_of_def long_key_page_def bytes_at_patch_disjoint)
  then show ?thesis
    using corrupt_key_search_reads_outside [OF long_key_page _ es, of "\<lparr>debug = False, big_endian = False\<rparr>" "[1]"] k demo_index1(3) by simp
qed

text \<open>
  \<^verbatim>\<open>get_right_sibling\<close> reads eight bytes through a pointer into the special area without a look at
  its size. A special area of fewer than 16 bytes, which the header alone decides, makes it read past the page,
  in every build; \<^verbatim>\<open>has_right_sibling\<close>, which slices, panics on the same page.
\<close>

theorem short_special_reads_outside:
  assumes "wf_page p" and "4080 < special_of p"
  shows "get_right_sibling t p = (UB :: ('e, PageID option) outcome) \<and> has_right_sibling t p = (Panic :: ('e, bool) outcome)"
proof -
  have n: "special_of p \<noteq> 0" using assms(2) by simp
  have "length (bytes_at p (special_of p) (4096 - special_of p)) < 16"
    using special_bounds(1) [OF assms(1) n] assms wf_pageD(1) [OF assms(1)] by (simp add: length_bytes_at)
  then show ?thesis
    using n by (simp add: get_right_sibling_def has_right_sibling_def ref_view_eqs special_reads [OF assms(1)] special_area_def
        cell_consts read_u64_le_unsafe_def ptr_read_def slice_range_def)
qed

definition short_special_page :: RawPage where
  "short_special_page = patch demo_index 16 (to_le_bytes (4090 :: u16))"

theorem short_special_reads_outside_witness:
  "get_right_sibling dev short_special_page = (UB :: (IndexPageError, PageID option) outcome)"
proof -
  note D = init_index_reads(1-4) [of 7, folded demo_index_def]
  have "special_of short_special_page = 4090" "fs_of short_special_page = 24" "fe_of short_special_page = 4080"
    using D by (simp_all add: short_special_page_def special_of_def fs_of_def fe_of_def layout_defs word_at_patch_same word_at_patch_other)
  moreover from this D(1) have "wf_page short_special_page"
    by (simp add: wf_page_def limit_of_def short_special_page_def layout_defs length_patch)
  ultimately show ?thesis using short_special_reads_outside [of short_special_page dev, where 'e = IndexPageError] by simp
qed

end
