(* ===== verification/Page_Table_Latch.thy ===== *)
theory Page_Table_Latch
  imports Rust_Prelude Transition
begin

text \<open>
  The page-table latch, \<^verbatim>\<open>buffer/page_table_latch.rs\<close>: a value that is loaded once by the first
  of many threads. A latch is its atomic state byte and its data; \<^verbatim>\<open>load\<close> is the program of a
  thread, one step per access to shared memory, so that an execution is an interleaving of the
  steps of any number of threads. The closure \<^verbatim>\<open>work\<close> is an argument of each call. The only
  other accesses to the data are those of \<^verbatim>\<open>peek\<close>, whose two accesses are two steps.

  Interleavings here are sequentially consistent; the same steps run on a weaker memory in the
  theory on memory orderings.
\<close>

section \<open>Definitions\<close>

definition SPIN_LIMIT :: u8 where "SPIN_LIMIT = 10"
definition YIELD_LIMIT :: u8 where "YIELD_LIMIT = 50"

definition PT_ON_DISK :: u8 where "PT_ON_DISK = 0"
definition PT_LOADING :: u8 where "PT_LOADING = 1"
definition PT_IN_MEMORY :: u8 where "PT_IN_MEMORY = 2"
definition PT_INVALID :: u8 where "PT_INVALID = 3"

record 'a PageTableLatch =
  l_state :: u8
  l_data :: 'a

definition latch_new :: "'a \<Rightarrow> 'a PageTableLatch" where
  "latch_new data = \<lparr>l_state = PT_ON_DISK, l_data = data\<rparr>"

definition latch_state :: "'a PageTableLatch \<Rightarrow> u8" where
  "latch_state self =
     (let state = l_state self in
      if state = PT_IN_MEMORY then PT_IN_MEMORY
      else if state = PT_LOADING then PT_LOADING
      else if state = PT_ON_DISK then PT_ON_DISK
      else PT_INVALID)"

definition current_state :: "'a PageTableLatch \<Rightarrow> u8" where
  "current_state self = l_state self"

text \<open>
  Where a thread is: outside a call, at the next shared access of \<^verbatim>\<open>load\<close> or \<^verbatim>\<open>peek\<close> with the
  local values it carries, or back from the call with its result.
\<close>

datatype 'a pc =
    Idle
  | AtLoop
  | AtFastRead
  | AtCas
  | AtCloneForWork
  | AtWork 'a
  | AtWriteBack 'a
  | AtPublish 'a
  | AtBackoff
  | Returned "(string, 'a) outcome"
  | AtPeekState
  | AtPeekData u8
  | Peeked u8 'a

datatype backoff = Spin_loop | Yield_now | Sleep_1ms

definition backoff_action :: "u8 \<Rightarrow> backoff" where
  "backoff_action spin_count =
     (if spin_count < SPIN_LIMIT then Spin_loop
      else if spin_count < YIELD_LIMIT then Yield_now
      else Sleep_1ms)"

record 'a thread =
  th_pc :: "'a pc"
  spin_count :: u8
  waits :: "backoff list"
  th_work :: "'a \<Rightarrow> (string, 'a) outcome"

text \<open>
  One step of a thread inside \<^verbatim>\<open>load\<close>. The counter of the back-off is a \<^verbatim>\<open>u8\<close>, the type of the
  limits it is compared with, so its increment panics at 255 in a debug build and wraps to 0 in a
  release build.
\<close>

definition load_step :: "target \<Rightarrow> 'a PageTableLatch \<Rightarrow> 'a thread \<Rightarrow> 'a PageTableLatch \<times> 'a thread" where
  "load_step t l th =
     (case th_pc th of
        AtLoop \<Rightarrow>
          (let state = l_state l in
           if state = PT_IN_MEMORY then (l, th\<lparr>th_pc := AtFastRead\<rparr>)
           else if state = PT_ON_DISK then (l, th\<lparr>th_pc := AtCas\<rparr>)
           else if state = PT_LOADING then (l, th\<lparr>th_pc := AtBackoff\<rparr>)
           else (l, th\<lparr>th_pc := Returned (Err ''Invalid state'')\<rparr>))
      | AtFastRead \<Rightarrow> (l, th\<lparr>th_pc := Returned (Ok (l_data l))\<rparr>)
      | AtCas \<Rightarrow>
          (if l_state l = PT_ON_DISK then (l\<lparr>l_state := PT_LOADING\<rparr>, th\<lparr>th_pc := AtCloneForWork\<rparr>)
           else (l, th\<lparr>th_pc := AtLoop\<rparr>))
      | AtCloneForWork \<Rightarrow> (l, th\<lparr>th_pc := AtWork (l_data l)\<rparr>)
      | AtWork d \<Rightarrow>
          (case th_work th d of
             Ok loaded \<Rightarrow> (l, th\<lparr>th_pc := AtWriteBack loaded\<rparr>)
           | Err e \<Rightarrow> (l, th\<lparr>th_pc := Returned (Err e)\<rparr>)
           | Panic \<Rightarrow> (l, th\<lparr>th_pc := Returned Panic\<rparr>)
           | UB \<Rightarrow> (l, th\<lparr>th_pc := Returned UB\<rparr>))
      | AtWriteBack loaded \<Rightarrow> (l\<lparr>l_data := loaded\<rparr>, th\<lparr>th_pc := AtPublish loaded\<rparr>)
      | AtPublish loaded \<Rightarrow> (l\<lparr>l_state := PT_IN_MEMORY\<rparr>, th\<lparr>th_pc := Returned (Ok loaded)\<rparr>)
      | AtBackoff \<Rightarrow>
          (let th' = th\<lparr>waits := waits th @ [backoff_action (spin_count th)]\<rparr> in
           if debug t \<and> spin_count th = 255 then (l, th'\<lparr>th_pc := Returned Panic\<rparr>)
           else (l, th'\<lparr>spin_count := spin_count th + 1, th_pc := AtLoop\<rparr>))
      | _ \<Rightarrow> (l, th))"

definition peek_step :: "'a PageTableLatch \<Rightarrow> 'a thread \<Rightarrow> 'a thread" where
  "peek_step l th =
     (case th_pc th of
        AtPeekState \<Rightarrow> th\<lparr>th_pc := AtPeekData (l_state l)\<rparr>
      | AtPeekData state \<Rightarrow> th\<lparr>th_pc := Peeked state (l_data l)\<rparr>
      | _ \<Rightarrow> th)"

text \<open>The call of \<^verbatim>\<open>load\<close> with its closure: the locals before the loop.\<close>

definition start_load :: "('a \<Rightarrow> (string, 'a) outcome) \<Rightarrow> 'a thread" where
  "start_load work = \<lparr>th_pc = AtLoop, spin_count = 0, waits = [], th_work = work\<rparr>"

definition start_peek :: "'a thread" where
  "start_peek = \<lparr>th_pc = AtPeekState, spin_count = 0, waits = [], th_work = (\<lambda>d. Ok d)\<rparr>"

fun in_peek :: "'a pc \<Rightarrow> bool" where
  "in_peek AtPeekState \<longleftrightarrow> True"
| "in_peek (AtPeekData s) \<longleftrightarrow> True"
| "in_peek _ \<longleftrightarrow> False"

fun in_load :: "'a pc \<Rightarrow> bool" where
  "in_load Idle \<longleftrightarrow> False"
| "in_load (Returned r) \<longleftrightarrow> False"
| "in_load AtPeekState \<longleftrightarrow> False"
| "in_load (AtPeekData s) \<longleftrightarrow> False"
| "in_load (Peeked s d) \<longleftrightarrow> False"
| "in_load _ \<longleftrightarrow> True"

text \<open>The latch shared by threads, and the steps of an execution.\<close>

record 'a shared =
  latch :: "'a PageTableLatch"
  threads :: "nat \<Rightarrow> 'a thread"

definition exec :: "target \<Rightarrow> nat \<Rightarrow> 'a shared \<Rightarrow> 'a shared" where
  "exec t i s =
     (if in_peek (th_pc (threads s i))
      then s\<lparr>threads := (threads s)(i := peek_step (latch s) (threads s i))\<rparr>
      else let (l, th) = load_step t (latch s) (threads s i)
           in s\<lparr>latch := l, threads := (threads s)(i := th)\<rparr>)"

fun run :: "target \<Rightarrow> nat list \<Rightarrow> 'a shared \<Rightarrow> 'a shared" where
  "run t [] s = s"
| "run t (i # is) s = run t is (exec t i s)"

text \<open>
  \<open>W\<close> is the set of closures the callers pass. \<open>load_system\<close> has the steps of threads that call
  \<^verbatim>\<open>load\<close>; \<open>latch_system\<close> adds those of threads that call \<^verbatim>\<open>peek\<close>.
\<close>

inductive load_system ::
    "target \<Rightarrow> ('a \<Rightarrow> (string, 'a) outcome) set \<Rightarrow> 'a shared \<Rightarrow> 'a shared \<Rightarrow> bool" for t W where
  exec_load: "in_load (th_pc (threads s i)) \<Longrightarrow> load_system t W s (exec t i s)"
| call_load: "\<not> in_load (th_pc (threads s i)) \<Longrightarrow> \<not> in_peek (th_pc (threads s i)) \<Longrightarrow> work \<in> W \<Longrightarrow>
    load_system t W s (s\<lparr>threads := (threads s)(i := start_load work)\<rparr>)"

inductive latch_system ::
    "target \<Rightarrow> ('a \<Rightarrow> (string, 'a) outcome) set \<Rightarrow> 'a shared \<Rightarrow> 'a shared \<Rightarrow> bool" for t W where
  sys_load: "load_system t W s s' \<Longrightarrow> latch_system t W s s'"
| sys_peek: "in_peek (th_pc (threads s i)) \<Longrightarrow> latch_system t W s (exec t i s)"
| call_peek: "\<not> in_load (th_pc (threads s i)) \<Longrightarrow> \<not> in_peek (th_pc (threads s i)) \<Longrightarrow>
    latch_system t W s (s\<lparr>threads := (threads s)(i := start_peek)\<rparr>)"

definition latch_init :: "'a \<Rightarrow> 'a shared \<Rightarrow> bool" where
  "latch_init d s \<longleftrightarrow> latch s = latch_new d \<and> (\<forall>i. th_pc (threads s i) = Idle)"

inductive_cases load_systemE: "load_system t W s s'"
inductive_cases latch_systemE: "latch_system t W s s'"

section \<open>The invariant\<close>

lemmas latch_consts = PT_ON_DISK_def PT_LOADING_def PT_IN_MEMORY_def PT_INVALID_def

fun owner :: "'a pc \<Rightarrow> bool" where
  "owner AtCloneForWork \<longleftrightarrow> True"
| "owner (AtWork d) \<longleftrightarrow> True"
| "owner (AtWriteBack v) \<longleftrightarrow> True"
| "owner (AtPublish v) \<longleftrightarrow> True"
| "owner _ \<longleftrightarrow> False"

text \<open>What a thread knows of the latch at each point of its program.\<close>

fun knows :: "target \<Rightarrow> 'a \<Rightarrow> ('a \<Rightarrow> (string, 'a) outcome) \<Rightarrow> 'a PageTableLatch \<Rightarrow> 'a pc \<Rightarrow> bool" where
  "knows t d w l AtFastRead \<longleftrightarrow> l_state l = PT_IN_MEMORY"
| "knows t d w l AtCloneForWork \<longleftrightarrow> l_state l = PT_LOADING \<and> l_data l = d"
| "knows t d w l (AtWork x) \<longleftrightarrow> l_state l = PT_LOADING \<and> l_data l = d \<and> x = d"
| "knows t d w l (AtWriteBack v) \<longleftrightarrow> l_state l = PT_LOADING \<and> l_data l = d \<and> w d = Ok v"
| "knows t d w l (AtPublish v) \<longleftrightarrow> l_state l = PT_LOADING \<and> l_data l = v \<and> w d = Ok v"
| "knows t d w l (Returned (Ok v)) \<longleftrightarrow> l_state l = PT_IN_MEMORY \<and> l_data l = v"
| "knows t d w l (Returned (Err e)) \<longleftrightarrow> l_state l \<noteq> PT_ON_DISK \<and> w d = Err e"
| "knows t d w l (Returned Panic) \<longleftrightarrow> l_state l \<noteq> PT_ON_DISK \<and> (debug t \<or> w d = Panic)"
| "knows t d w l (Returned UB) \<longleftrightarrow> l_state l \<noteq> PT_ON_DISK \<and> w d = UB"
| "knows t d w l AtBackoff \<longleftrightarrow> l_state l \<noteq> PT_ON_DISK"
| "knows t d w l _ \<longleftrightarrow> True"

definition latch_ok :: "'a \<Rightarrow> ('a \<Rightarrow> (string, 'a) outcome) set \<Rightarrow> 'a PageTableLatch \<Rightarrow> bool" where
  "latch_ok d W l \<longleftrightarrow>
     (l_state l = PT_ON_DISK \<and> l_data l = d \<or> l_state l = PT_LOADING \<or>
      l_state l = PT_IN_MEMORY \<and> (\<exists>w\<in>W. w d = Ok (l_data l)))"

definition closures_ok :: "('a \<Rightarrow> (string, 'a) outcome) set \<Rightarrow> 'a thread \<Rightarrow> bool" where
  "closures_ok W th \<longleftrightarrow> in_load (th_pc th) \<longrightarrow> th_work th \<in> W"

definition latch_inv :: "target \<Rightarrow> 'a \<Rightarrow> ('a \<Rightarrow> (string, 'a) outcome) set \<Rightarrow> 'a shared \<Rightarrow> bool" where
  "latch_inv t d W s \<longleftrightarrow> latch_ok d W (latch s) \<and>
     (\<forall>i. closures_ok W (threads s i)) \<and>
     (\<forall>i. knows t d (th_work (threads s i)) (latch s) (th_pc (threads s i))) \<and>
     (\<forall>i j. owner (th_pc (threads s i)) \<longrightarrow> owner (th_pc (threads s j)) \<longrightarrow> i = j)"

text \<open>What a step does to the latch, and what the other threads keep knowing.\<close>

definition latch_change :: "bool \<Rightarrow> 'a PageTableLatch \<Rightarrow> 'a PageTableLatch \<Rightarrow> bool" where
  "latch_change own l l' \<longleftrightarrow> l' = l \<or>
     l_state l = PT_ON_DISK \<and> l' = l\<lparr>l_state := PT_LOADING\<rparr> \<or>
     own \<and> l_state l = PT_LOADING \<and> l_state l' \<noteq> PT_ON_DISK"

lemma knows_stable:
  assumes "knows t d w l p" and "latch_change own l l'" and "own \<Longrightarrow> \<not> owner p"
  shows "knows t d w l' p"
  using assms
  by (induction t d w l p rule: knows.induct) (auto simp: latch_change_def latch_consts)

lemma load_step_ok:
  assumes "in_load (th_pc th)" and "knows t d (th_work th) l (th_pc th)" and "latch_ok d W l" and "th_work th \<in> W"
    and "load_step t l th = (l', th')"
  shows "latch_change (owner (th_pc th)) l l'" and "latch_ok d W l'"
    and "knows t d (th_work th') l' (th_pc th')" and "th_work th' = th_work th"
    and "owner (th_pc th') \<Longrightarrow> owner (th_pc th) \<or> l_state l = PT_ON_DISK"
  using assms
  by (cases "th_pc th"; auto simp: load_step_def latch_change_def latch_ok_def latch_consts Let_def
      split: if_splits outcome.splits)+

lemma latch_inv_exec:
  assumes "latch_inv t d W s" and "in_load (th_pc (threads s i))"
  shows "latch_inv t d W (exec t i s)" and "latch_change (owner (th_pc (threads s i))) (latch s) (latch (exec t i s))"
proof -
  let ?th = "threads s i"
  obtain l' th' where step: "load_step t (latch s) ?th = (l', th')" by fastforce
  have np: "\<not> in_peek (th_pc ?th)" using assms(2) by (cases "th_pc ?th") auto
  have e: "exec t i s = s\<lparr>latch := l', threads := (threads s)(i := th')\<rparr>"
    by (simp add: exec_def np step)
  have I: "latch_ok d W (latch s)" "th_work ?th \<in> W" "knows t d (th_work ?th) (latch s) (th_pc ?th)"
    using assms by (auto simp: latch_inv_def closures_ok_def)
  note L = load_step_ok [OF assms(2) I(3,1,2) step]
  show ch: "latch_change (owner (th_pc ?th)) (latch s) (latch (exec t i s))" using L(1) by (simp add: e)
  have others: "knows t d (th_work (threads s j)) l' (th_pc (threads s j))" if "j \<noteq> i" for j
    using that assms(1) by (intro knows_stable [OF _ L(1)]) (auto simp: latch_inv_def)
  have free: "\<not> owner (th_pc (threads s j))" if "j \<noteq> i" "owner (th_pc th')" for j
  proof
    assume j: "owner (th_pc (threads s j))"
    then have "l_state (latch s) \<noteq> PT_ON_DISK"
      using assms(1) by (cases "th_pc (threads s j)") (auto simp: latch_inv_def latch_consts dest!: spec [of _ j])
    with L(5) [OF that(2)] j that(1) show False using assms(1) by (auto simp: latch_inv_def)
  qed
  show "latch_inv t d W (exec t i s)"
    using assms(1) L(2-4) I(2) others free by (auto simp: e latch_inv_def closures_ok_def)
qed

lemma latch_inv_call:
  assumes "latch_inv t d W s" and "\<not> owner (th_pc th)" and "closures_ok W th"
    and "\<And>l. knows t d (th_work th) l (th_pc th)"
  shows "latch_inv t d W (s\<lparr>threads := (threads s)(i := th)\<rparr>)"
  using assms by (auto simp: latch_inv_def)

lemma latch_inv_step: "latch_system t W s s' \<Longrightarrow> latch_inv t d W s \<Longrightarrow> latch_inv t d W s'"
proof (elim latch_systemE load_systemE)
  fix i assume "latch_inv t d W s" and "in_load (th_pc (threads s i))" and "s' = exec t i s"
  then show ?thesis by (simp add: latch_inv_exec)
next
  fix i work assume "latch_inv t d W s" and "work \<in> W"
    and "s' = s\<lparr>threads := (threads s)(i := start_load work)\<rparr>"
  then show ?thesis by (simp add: latch_inv_call start_load_def closures_ok_def)
next
  fix i assume "latch_inv t d W s" and "s' = s\<lparr>threads := (threads s)(i := start_peek)\<rparr>"
  then show ?thesis by (simp add: latch_inv_call start_peek_def closures_ok_def)
next
  fix i assume inv: "latch_inv t d W s" and peek: "in_peek (th_pc (threads s i))" and s': "s' = exec t i s"
  from peek have "s' = s\<lparr>threads := (threads s)(i := peek_step (latch s) (threads s i))\<rparr>"
    by (simp add: s' exec_def)
  with inv peek show ?thesis
    by (cases "th_pc (threads s i)") (simp_all add: latch_inv_call closures_ok_def peek_step_def)
qed

text \<open>Once loaded, the latch never changes again; once left, \<^verbatim>\<open>PT_ON_DISK\<close> is never seen again.\<close>

definition latch_guar :: "'a shared \<Rightarrow> 'a shared \<Rightarrow> bool" where
  "latch_guar s s' \<longleftrightarrow>
     (l_state (latch s) = PT_IN_MEMORY \<longrightarrow> latch s' = latch s) \<and>
     (l_state (latch s') = PT_ON_DISK \<longrightarrow> latch s' = latch s)"

lemma latch_step_change:
  assumes "latch_system t W s s'" and "latch_inv t d W s"
  shows "\<exists>own. latch_change own (latch s) (latch s') \<and> (own \<longrightarrow> (\<exists>i. owner (th_pc (threads s i))))"
  using assms
proof (elim latch_systemE load_systemE)
  fix i assume "latch_inv t d W s" and "in_load (th_pc (threads s i))" and "s' = exec t i s"
  then show ?thesis using latch_inv_exec(2) [of t d W s i] by blast
qed (auto simp: latch_change_def exec_def)

interpretation page_latch: guarantee_system "latch_init d" "latch_system t W" "latch_inv t d W" latch_guar
  for d t W
proof unfold_locales
  show "latch_init d s \<Longrightarrow> latch_inv t d W s" for s
    by (auto simp: latch_init_def latch_inv_def latch_ok_def latch_new_def closures_ok_def)
  show "latch_inv t d W s \<Longrightarrow> latch_system t W s s' \<Longrightarrow> latch_inv t d W s'" for s s'
    by (rule latch_inv_step)
  show "latch_guar s s" for s :: "'a shared" by (simp add: latch_guar_def)
  show "latch_guar s s' \<Longrightarrow> latch_guar s' s'' \<Longrightarrow> latch_guar s s''" for s s' s'' :: "'a shared"
    unfolding latch_guar_def by metis
  show "latch_guar s s'" if "latch_inv t d W s" "latch_system t W s s'" for s s'
    using latch_step_change [OF that(2,1)] by (auto simp: latch_guar_def latch_change_def latch_consts)
qed

lemma load_system_latch: "(load_system t W)\<^sup>*\<^sup>* s s' \<Longrightarrow> (latch_system t W)\<^sup>*\<^sup>* s s'"
  by (induction rule: rtranclp_induct) (auto intro: rtranclp.rtrancl_into_rtrancl sys_load)

lemma load_reach: "reach (latch_init d) (load_system t W) s \<Longrightarrow> reach (latch_init d) (latch_system t W) s"
  by (induction rule: reach.induct) (auto intro: reach.intros sys_load)

lemma no_peek_reach:
  "reach (latch_init d) (load_system t W) s \<Longrightarrow> \<not> in_peek (th_pc (threads s i))"
proof (induction arbitrary: i rule: reach.induct)
  case (reach_init s)
  then show ?case by (simp add: latch_init_def)
next
  case (reach_step s s')
  from reach_step.hyps(2) show ?case
  proof (cases rule: load_system.cases)
    case (exec_load j)
    obtain l th where step: "load_step t (latch s) (threads s j) = (l, th)" by fastforce
    then have "\<not> in_peek (th_pc th)"
      using reach_step.IH [of j]
      by (cases "th_pc (threads s j)")
        (auto simp: load_step_def Let_def split: if_splits outcome.splits)
    then show ?thesis using reach_step.IH exec_load(1) step by (simp add: exec_def)
  next
    case (call_load j work)
    then show ?thesis using reach_step.IH by (simp add: start_load_def)
  qed
qed

end
