(* ===== verification/Latch_Properties.thy ===== *)
theory Latch_Properties
  imports Page_Table_Latch
begin

text \<open>
  The properties of the page-table latch: one loader at a time, no data race among loaders,
  agreement on the loaded value, refinement of a once cell, progress under fair schedules, and
  what the code does when the closure fails, when a waiter waits long and when \<^verbatim>\<open>peek\<close> runs
  beside a loader.
\<close>

section \<open>Owners and data accesses\<close>

definition writes_data :: "'a pc \<Rightarrow> bool" where
  "writes_data p \<longleftrightarrow> (case p of AtWriteBack v \<Rightarrow> True | _ \<Rightarrow> False)"

definition reads_data :: "'a pc \<Rightarrow> bool" where
  "reads_data p \<longleftrightarrow> (case p of AtFastRead \<Rightarrow> True | AtCloneForWork \<Rightarrow> True | AtPeekData s \<Rightarrow> True | _ \<Rightarrow> False)"

text \<open>Two threads whose next accesses to the data conflict.\<close>

definition data_race :: "'a shared \<Rightarrow> bool" where
  "data_race s \<longleftrightarrow> (\<exists>i j. i \<noteq> j \<and> writes_data (th_pc (threads s i)) \<and>
     (writes_data (th_pc (threads s j)) \<or> reads_data (th_pc (threads s j))))"

lemma owner_loading:
  assumes "latch_inv t d W s" and "owner (th_pc (threads s i))"
  shows "l_state (latch s) = PT_LOADING"
  using assms by (cases "th_pc (threads s i)") (auto simp: latch_inv_def dest!: spec [of _ i])

lemma writer_owner: "writes_data p \<Longrightarrow> owner p"
  by (cases p) (auto simp: writes_data_def)

lemma inv_no_race:
  assumes "latch_inv t d W s" and "\<And>i. \<not> in_peek (th_pc (threads s i))"
  shows "\<not> data_race s"
proof
  assume "data_race s"
  then obtain i j where ij: "i \<noteq> j" "writes_data (th_pc (threads s i))"
    and j: "writes_data (th_pc (threads s j)) \<or> reads_data (th_pc (threads s j))" by (auto simp: data_race_def)
  have i: "owner (th_pc (threads s i))" using ij(2) by (rule writer_owner)
  then have "\<not> owner (th_pc (threads s j))" using assms(1) ij(1) by (auto simp: latch_inv_def)
  then have "th_pc (threads s j) = AtFastRead"
    using j assms(2) [of j] by (cases "th_pc (threads s j)") (auto simp: reads_data_def writes_data_def)
  then have "l_state (latch s) = PT_IN_MEMORY" using assms(1) by (auto simp: latch_inv_def dest!: spec [of _ j])
  with owner_loading [OF assms(1) i] show False by (simp add: latch_consts)
qed

section \<open>The once cell a latch implements\<close>

datatype 'a once = Fresh 'a | Claimed nat | Abandoned | Value 'a

inductive once_step :: "'a \<Rightarrow> ('a \<Rightarrow> (string, 'a) outcome) set \<Rightarrow> 'a once \<Rightarrow> 'a once \<Rightarrow> bool" for d W where
  claim: "once_step d W (Fresh d) (Claimed i)"
| fill: "w \<in> W \<Longrightarrow> w d = Ok v \<Longrightarrow> once_step d W (Claimed i) (Value v)"
| abandon: "w \<in> W \<Longrightarrow> \<forall>v. w d \<noteq> Ok v \<Longrightarrow> once_step d W (Claimed i) Abandoned"

fun once_rel :: "'a shared \<Rightarrow> 'a once \<Rightarrow> bool" where
  "once_rel s (Fresh d) \<longleftrightarrow> l_state (latch s) = PT_ON_DISK \<and> l_data (latch s) = d"
| "once_rel s (Claimed i) \<longleftrightarrow> l_state (latch s) = PT_LOADING \<and> owner (th_pc (threads s i))"
| "once_rel s Abandoned \<longleftrightarrow> l_state (latch s) = PT_LOADING \<and> (\<forall>i. \<not> owner (th_pc (threads s i)))"
| "once_rel s (Value v) \<longleftrightarrow> l_state (latch s) = PT_IN_MEMORY \<and> l_data (latch s) = v"

lemma once_rel_quiet:
  assumes "once_rel s a" and "latch s' = latch s"
    and "\<And>i. owner (th_pc (threads s' i)) = owner (th_pc (threads s i))"
  shows "once_rel s' a"
  using assms by (cases a) auto

text \<open>The cases of a step of a thread inside \<^verbatim>\<open>load\<close>.\<close>

definition step_kind :: "'a \<Rightarrow> 'a PageTableLatch \<Rightarrow> 'a thread \<Rightarrow> 'a PageTableLatch \<Rightarrow> 'a thread \<Rightarrow> bool" where
  "step_kind d l th l' th' \<longleftrightarrow>
     l' = l \<and> owner (th_pc th') = owner (th_pc th) \<or>
     l_state l = PT_ON_DISK \<and> l' = l\<lparr>l_state := PT_LOADING\<rparr> \<and> owner (th_pc th') \<or>
     owner (th_pc th) \<and> (\<forall>v. th_work th d \<noteq> Ok v) \<and> l' = l \<and> \<not> owner (th_pc th') \<or>
     (\<exists>v. th_pc th = AtWriteBack v \<and> l' = l\<lparr>l_data := v\<rparr> \<and> th_pc th' = AtPublish v) \<or>
     (\<exists>v. th_pc th = AtPublish v \<and> th_work th d = Ok v \<and> l_data l = v \<and> l' = l\<lparr>l_state := PT_IN_MEMORY\<rparr>)"

lemma load_step_kind:
  assumes "in_load (th_pc th)" and "knows t d (th_work th) l (th_pc th)" and "load_step t l th = (l', th')"
  shows "step_kind d l th l' th'"
  using assms unfolding step_kind_def
  by (cases "th_pc th") (auto simp: load_step_def Let_def split: if_splits outcome.splits)

lemma exec_kind:
  assumes "latch_inv t d W s" and "in_load (th_pc (threads s i))"
  shows "step_kind d (latch s) (threads s i) (latch (exec t i s)) (threads (exec t i s) i)"
proof -
  obtain l' th' where step: "load_step t (latch s) (threads s i) = (l', th')" by fastforce
  have np: "\<not> in_peek (th_pc (threads s i))" using assms(2) by (cases "th_pc (threads s i)") auto
  have "knows t d (th_work (threads s i)) (latch s) (th_pc (threads s i))"
    using assms(1) by (simp add: latch_inv_def)
  from load_step_kind [OF assms(2) this step] show ?thesis by (simp add: exec_def np step)
qed

lemma exec_others: "j \<noteq> i \<Longrightarrow> threads (exec t i s) j = threads s j"
  by (simp add: exec_def split: prod.split)

lemma claimed_owner:
  assumes "latch_inv t d W s" and "once_rel s a" and "owner (th_pc (threads s i))"
  shows "a = Claimed i"
proof -
  have "l_state (latch s) = 1" using owner_loading [OF assms(1,3)] by (simp add: latch_consts)
  then obtain j where "a = Claimed j" "owner (th_pc (threads s j))"
    using assms(2,3) by (cases a) (simp_all add: latch_consts)
  then show ?thesis using assms(1,3) unfolding latch_inv_def by blast
qed

lemma owner_released:
  assumes "latch_inv t d W s" and "owner (th_pc (threads s i))" and "\<not> owner (th_pc (threads (exec t i s) i))"
  shows "\<not> owner (th_pc (threads (exec t i s) j))"
proof (cases "j = i")
  case False
  then have "\<not> owner (th_pc (threads s j))" using assms(1,2) unfolding latch_inv_def by blast
  then show ?thesis using False by (simp add: exec_others)
qed (use assms(3) in simp)

lemma once_exec:
  assumes "latch_inv t d W s" and "in_load (th_pc (threads s i))" and "once_rel s a"
  shows "\<exists>a'. once_rel (exec t i s) a' \<and> (a' = a \<or> once_step d W a a')"
proof -
  let ?s' = "exec t i s"
  have W: "th_work (threads s i) \<in> W" using assms(1,2) by (auto simp: latch_inv_def closures_ok_def)
  note claimed = claimed_owner [OF assms(1,3)]
  from exec_kind [OF assms(1,2)] consider
      (quiet) "latch ?s' = latch s" "owner (th_pc (threads ?s' i)) = owner (th_pc (threads s i))"
    | (claim) "l_state (latch s) = PT_ON_DISK" "latch ?s' = (latch s)\<lparr>l_state := PT_LOADING\<rparr>" "owner (th_pc (threads ?s' i))"
    | (abandon) "owner (th_pc (threads s i))" "\<forall>v. th_work (threads s i) d \<noteq> Ok v" "latch ?s' = latch s"
        "\<not> owner (th_pc (threads ?s' i))"
    | (writeback) v where "th_pc (threads s i) = AtWriteBack v" "latch ?s' = (latch s)\<lparr>l_data := v\<rparr>"
        "th_pc (threads ?s' i) = AtPublish v"
    | (fill) v where "th_pc (threads s i) = AtPublish v" "th_work (threads s i) d = Ok v" "l_data (latch s) = v"
        "latch ?s' = (latch s)\<lparr>l_state := PT_IN_MEMORY\<rparr>"
    unfolding step_kind_def by blast
  then show ?thesis
  proof cases
    case quiet
    have "owner (th_pc (threads ?s' j)) = owner (th_pc (threads s j))" for j
      using quiet(2) by (cases "j = i") (simp_all add: exec_others)
    with once_rel_quiet [OF assms(3) quiet(1)] show ?thesis by blast
  next
    case claim
    have "latch_ok d W (latch s)" using assms(1) by (simp add: latch_inv_def)
    then have "l_data (latch s) = d" using claim(1) by (simp add: latch_ok_def latch_consts)
    then have "a = Fresh d" using claim(1) assms(3) by (cases a) (simp_all add: latch_consts)
    moreover have "once_rel ?s' (Claimed i)" using claim by simp
    ultimately show ?thesis by (intro exI [of _ "Claimed i"]) (simp add: once_step.claim)
  next
    case abandon
    then have "once_rel ?s' Abandoned"
      using owner_loading [OF assms(1)] owner_released [OF assms(1)] by simp
    then show ?thesis
      by (intro exI [of _ Abandoned]) (simp add: claimed [OF abandon(1)] once_step.abandon [OF W abandon(2)])
  next
    case (writeback v)
    then have "once_rel ?s' (Claimed i)" using owner_loading [OF assms(1), of i] by simp
    moreover have "a = Claimed i" using claimed writeback(1) by simp
    ultimately show ?thesis by (intro exI [of _ "Claimed i"]) simp
  next
    case (fill v)
    then have "once_rel ?s' (Value v)" by simp
    moreover have "a = Claimed i" using claimed fill(1) by simp
    ultimately show ?thesis by (intro exI [of _ "Value v"]) (simp add: once_step.fill [OF W fill(2)])
  qed
qed

lemma once_simulation:
  assumes "latch_system t W s s'" and "latch_inv t d W s" and "once_rel s a"
  shows "\<exists>a'. once_rel s' a' \<and> (a' = a \<or> once_step d W a a')"
  using assms(1)
proof (elim latch_systemE load_systemE)
  fix i assume "in_load (th_pc (threads s i))" and "s' = exec t i s"
  then show ?thesis using once_exec [OF assms(2) _ assms(3)] by blast
next
  fix i work assume "\<not> in_load (th_pc (threads s i))" and "s' = s\<lparr>threads := (threads s)(i := start_load work)\<rparr>"
  then have "once_rel s' a"
    by (intro once_rel_quiet [OF assms(3)]) (cases "th_pc (threads s i)"; auto simp: start_load_def)+
  then show ?thesis by blast
next
  fix i assume "\<not> in_load (th_pc (threads s i))" and "s' = s\<lparr>threads := (threads s)(i := start_peek)\<rparr>"
  then have "once_rel s' a"
    by (intro once_rel_quiet [OF assms(3)]) (cases "th_pc (threads s i)"; auto simp: start_peek_def)+
  then show ?thesis by blast
next
  fix i assume "in_peek (th_pc (threads s i))" and "s' = exec t i s"
  then have "once_rel s' a"
    by (intro once_rel_quiet [OF assms(3)]) (cases "th_pc (threads s i)"; auto simp: exec_def peek_step_def)+
  then show ?thesis by blast
qed

section \<open>Progress\<close>

lemma exec_outside:
  assumes "\<not> in_load (th_pc (threads s i))"
  shows "latch (exec t i s) = latch s" and "\<not> in_load (th_pc (threads (exec t i s) i))"
    and "\<not> in_peek (th_pc (threads s i)) \<Longrightarrow> exec t i s = s"
  using assms by (cases "th_pc (threads s i)"; simp add: exec_def peek_step_def load_step_def)+

lemma exec_inv:
  assumes "latch_inv t d W s"
  shows "latch_inv t d W (exec t i s)"
proof (cases "in_load (th_pc (threads s i)) \<or> in_peek (th_pc (threads s i))")
  case True
  then have "latch_system t W s (exec t i s)" by (auto intro: sys_load exec_load sys_peek)
  then show ?thesis using assms by (rule latch_inv_step)
next
  case False
  then show ?thesis using assms exec_outside(3) [of s i t] by simp
qed

lemma exec_waiting:
  assumes "\<not> owner (th_pc (threads s j))" and "l_state (latch s) \<noteq> PT_ON_DISK"
  shows "latch (exec t j s) = latch s" and "\<not> owner (th_pc (threads (exec t j s) j))"
  using assms
  by (cases "th_pc (threads s j)"; simp add: exec_def peek_step_def load_step_def Let_def)+

lemma exec_in_load: "in_load (th_pc (threads (exec t j s) k)) \<Longrightarrow> in_load (th_pc (threads s k))"
  using exec_outside(2) [of s k t] by (cases "k = j") (auto simp: exec_others)

definition engaged :: "'a pc \<Rightarrow> bool" where
  "engaged p \<longleftrightarrow> in_load p \<or> (\<exists>v. p = Returned (Ok v))"

fun owner_rank :: "'a pc \<Rightarrow> nat" where
  "owner_rank AtCloneForWork = 4"
| "owner_rank (AtWork d) = 3"
| "owner_rank (AtWriteBack v) = 2"
| "owner_rank (AtPublish v) = 1"
| "owner_rank _ = 0"

fun reader_rank :: "'a pc \<Rightarrow> nat" where
  "reader_rank AtFastRead = 1"
| "reader_rank AtLoop = 2"
| "reader_rank AtCas = 3"
| "reader_rank AtBackoff = 3"
| "reader_rank _ = 0"

text \<open>
  How many rounds thread \<open>i\<close> still needs, and the thread \<open>k\<close> whose next step brings it closer: \<open>i\<close>
  itself, or the owner of the latch it waits for.
\<close>

definition critical :: "nat \<Rightarrow> 'a shared \<Rightarrow> nat \<Rightarrow> nat \<Rightarrow> bool" where
  "critical i s k n \<longleftrightarrow>
     l_state (latch s) = PT_ON_DISK \<and> k = i \<and> n = (if th_pc (threads s i) = AtCas then 8 else 9) \<or>
     l_state (latch s) = PT_LOADING \<and> owner (th_pc (threads s k)) \<and> n = 3 + owner_rank (th_pc (threads s k)) \<or>
     l_state (latch s) = PT_IN_MEMORY \<and> k = i \<and> n = reader_rank (th_pc (threads s i))"

definition always_ok :: "'a \<Rightarrow> ('a \<Rightarrow> (string, 'a) outcome) set \<Rightarrow> bool" where
  "always_ok d W \<longleftrightarrow> (\<forall>w\<in>W. \<exists>v. w d = Ok v)"

lemma exec_engaged:
  assumes "latch_inv t d W s" and "\<not> debug t" and "always_ok d W" and "engaged (th_pc (threads s i))"
  shows "engaged (th_pc (threads (exec t j s) i))"
proof (cases "j = i \<and> in_load (th_pc (threads s i))")
  case True
  have k: "knows t d (th_work (threads s i)) (latch s) (th_pc (threads s i))" "latch_ok d W (latch s)"
    and w: "th_work (threads s i) \<in> W"
    using assms(1) True by (simp_all add: latch_inv_def closures_ok_def)
  from w assms(3) obtain v where "th_work (threads s i) d = Ok v" by (auto simp: always_ok_def)
  then show ?thesis
    using True k assms(2) by (cases "th_pc (threads s i)")
      (auto simp: engaged_def exec_def load_step_def latch_ok_def latch_consts Let_def split: if_splits)
next
  case False
  then show ?thesis
    using assms(4) exec_outside(3) [of s i t] by (cases "j = i") (auto simp: engaged_def exec_others)
qed

lemma critical_in_load:
  assumes "critical i s k n" and "engaged (th_pc (threads s i))" and "latch_inv t d W s" and "0 < n"
  shows "in_load (th_pc (threads s k))"
proof -
  have "th_pc (threads s i) \<noteq> Returned (Ok v)" if "l_state (latch s) = PT_ON_DISK" for v
    using assms(3) that by (auto simp: latch_inv_def latch_consts dest!: spec [of _ i])
  moreover have "owner p \<Longrightarrow> in_load p" for p :: "'a pc" by (cases p) auto
  ultimately show ?thesis
    using assms(1,2,4) unfolding critical_def engaged_def by auto
qed

lemma critical_zero:
  assumes "critical i s k 0" and "engaged (th_pc (threads s i))"
  shows "l_state (latch s) = PT_IN_MEMORY" and "\<exists>v. th_pc (threads s i) = Returned (Ok v) \<or> owner (th_pc (threads s i))"
  using assms by (cases "th_pc (threads s i)"; auto simp: critical_def engaged_def split: if_splits)+

text \<open>A step of any thread keeps the distance, and a step of the critical thread shortens it.\<close>

definition closer :: "nat \<Rightarrow> nat \<Rightarrow> nat \<Rightarrow> nat \<Rightarrow> 'a shared \<Rightarrow> bool" where
  "closer i j k n s' \<longleftrightarrow> (\<exists>k' n'. critical i s' k' n' \<and> (n' < n \<or> n' = n \<and> k' = k \<and> j \<noteq> k))"

lemma closerI:
  "critical i s' k' n' \<Longrightarrow> n' < n \<Longrightarrow> closer i j k n s'"
  "critical i s' k n \<Longrightarrow> j \<noteq> k \<Longrightarrow> closer i j k n s'"
  unfolding closer_def by blast+

lemma criticalI:
  "l_state (latch s) = PT_LOADING \<Longrightarrow> owner (th_pc (threads s k)) \<Longrightarrow> critical i s k (3 + owner_rank (th_pc (threads s k)))"
  "l_state (latch s) = PT_IN_MEMORY \<Longrightarrow> critical i s i (reader_rank (th_pc (threads s i)))"
  unfolding critical_def by blast+

lemma reader_rank_le: "reader_rank p \<le> 3" and owner_rank_le: "owner_rank p \<le> 4"
  by (cases p; simp)+

lemma closer_in_memory:
  assumes "l_state (latch s) = PT_IN_MEMORY" and "in_load (th_pc (threads s i))" and "latch_inv t d W s" and "\<not> debug t"
  shows "closer i j i (reader_rank (th_pc (threads s i))) (exec t j s)"
proof -
  have free: "\<not> owner (th_pc (threads s k))" for k
    using owner_loading [OF assms(3), of k] assms(1) by (auto simp: latch_consts)
  have l: "latch (exec t j s) = latch s" using exec_waiting(1) [OF free] assms(1) by (simp add: latch_consts)
  show ?thesis
  proof (cases "j = i")
    case True
    have "reader_rank (th_pc (threads (exec t i s) i)) < reader_rank (th_pc (threads s i))"
      using assms free [of i] by (cases "th_pc (threads s i)") (simp_all add: exec_def load_step_def latch_consts Let_def)
    then show ?thesis using l assms(1) unfolding True by (intro closerI(1) [OF criticalI(2)]) simp_all
  next
    case False
    have "critical i (exec t j s) i (reader_rank (th_pc (threads (exec t j s) i)))"
      using l assms(1) by (intro criticalI) simp
    then show ?thesis using False by (intro closerI(2)) (simp_all add: exec_others)
  qed
qed

lemma closer_loading:
  assumes "l_state (latch s) = PT_LOADING" and "owner (th_pc (threads s k))" and "latch_inv t d W s" and "always_ok d W"
  shows "closer i j k (3 + owner_rank (th_pc (threads s k))) (exec t j s)"
proof (cases "j = k")
  case True
  have in_load: "in_load (th_pc (threads s k))" using assms(2) by (cases "th_pc (threads s k)") auto
  have w: "th_work (threads s k) \<in> W" and kn: "knows t d (th_work (threads s k)) (latch s) (th_pc (threads s k))"
    using assms(3) in_load by (simp_all add: latch_inv_def closures_ok_def)
  from w assms(4) obtain v where v: "th_work (threads s k) d = Ok v" by (auto simp: always_ok_def)
  show ?thesis
  proof (cases "\<exists>x. th_pc (threads s k) = AtPublish x")
    case True
    then have "l_state (latch (exec t k s)) = PT_IN_MEMORY" by (auto simp: exec_def load_step_def)
    then have "critical i (exec t k s) i (reader_rank (th_pc (threads (exec t k s) i)))" by (simp add: critical_def)
    moreover have "reader_rank (th_pc (threads (exec t k s) i)) < 3 + owner_rank (th_pc (threads s k))"
      using True reader_rank_le [of "th_pc (threads (exec t k s) i)"] by auto
    ultimately show ?thesis unfolding \<open>j = k\<close> by (rule closerI(1))
  next
    case False
    then have "l_state (latch (exec t k s)) = PT_LOADING \<and> owner (th_pc (threads (exec t k s) k)) \<and>
        owner_rank (th_pc (threads (exec t k s) k)) < owner_rank (th_pc (threads s k))"
      using assms(1,2) kn v by (cases "th_pc (threads s k)") (auto simp: exec_def load_step_def)
    then show ?thesis unfolding \<open>j = k\<close> by (intro closerI(1) [OF criticalI(1) [where k = k]]) simp_all
  qed
next
  case False
  then have "\<not> owner (th_pc (threads s j))" using assms(2,3) by (auto simp: latch_inv_def)
  then have "latch (exec t j s) = latch s" by (rule exec_waiting) (simp add: assms(1) latch_consts)
  moreover have "threads (exec t j s) k = threads s k" using False by (simp add: exec_others)
  ultimately have "critical i (exec t j s) k (3 + owner_rank (th_pc (threads s k)))"
    using assms(1,2) by (simp add: critical_def)
  then show ?thesis using False by (intro closerI(2)) auto
qed

lemma closer_on_disk:
  assumes "l_state (latch s) = PT_ON_DISK" and "in_load (th_pc (threads s i))" and "latch_inv t d W s"
  shows "closer i j i (if th_pc (threads s i) = AtCas then 8 else 9) (exec t j s)"
proof (cases "th_pc (threads s j) = AtCas")
  case True
  then have "critical i (exec t j s) j 7" using assms(1) by (simp add: critical_def exec_def load_step_def)
  then show ?thesis by (force simp: closer_def)
next
  case False
  have kn: "knows t d (th_work (threads s k)) (latch s) (th_pc (threads s k))" for k
    using assms(3) by (simp add: latch_inv_def)
  show ?thesis
  proof (cases "j = i")
    case True
    then have "th_pc (threads s i) = AtLoop"
      using False assms(1,2) kn [of i] by (cases "th_pc (threads s i)") (auto simp: latch_consts)
    then have "critical i (exec t i s) i 8"
      using assms(1) by (simp add: critical_def exec_def load_step_def latch_consts)
    then show ?thesis using True \<open>th_pc (threads s i) = AtLoop\<close> by (force simp: closer_def)
  next
    case other: False
    have "latch (exec t j s) = latch s"
      using False assms(1) kn [of j]
      by (cases "th_pc (threads s j)") (auto simp: exec_def load_step_def peek_step_def latch_consts Let_def split: outcome.splits)
    moreover have "threads (exec t j s) i = threads s i" using other by (simp add: exec_others)
    ultimately have "critical i (exec t j s) i (if th_pc (threads s i) = AtCas then 8 else 9)"
      using assms(1) by (simp add: critical_def)
    then show ?thesis using other by (rule closerI(2))
  qed
qed

lemma critical_closer:
  assumes "critical i s k n" and "0 < n" and "engaged (th_pc (threads s i))" and "latch_inv t d W s"
    and "\<not> debug t" and "always_ok d W"
  shows "closer i j k n (exec t j s)"
proof -
  have k: "in_load (th_pc (threads s k))" by (rule critical_in_load [OF assms(1,3,4,2)])
  from assms(1) consider
      "l_state (latch s) = PT_ON_DISK" "k = i" "n = (if th_pc (threads s i) = AtCas then 8 else 9)"
    | "l_state (latch s) = PT_LOADING" "owner (th_pc (threads s k))" "n = 3 + owner_rank (th_pc (threads s k))"
    | "l_state (latch s) = PT_IN_MEMORY" "k = i" "n = reader_rank (th_pc (threads s i))"
    unfolding critical_def by blast
  then show ?thesis
  proof cases
    case 1
    then show ?thesis using closer_on_disk [of s i t d W j] assms(4) k by blast
  next
    case 2
    then show ?thesis using closer_loading [OF 2(1,2) assms(4,6)] by blast
  next
    case 3
    then show ?thesis using closer_in_memory [of s i t d W j] assms(4,5) k by blast
  qed
qed

text \<open>A round gives every thread in a call at least one step; nine rounds are enough.\<close>

lemma critical_done:
  assumes "critical i s k 0" and "latch_inv t d W s"
  shows "\<exists>k'. critical i (exec t j s) k' 0"
proof -
  have m: "l_state (latch s) = PT_IN_MEMORY" "reader_rank (th_pc (threads s i)) = 0"
    using assms(1) by (auto simp: critical_def split: if_splits)
  have free: "\<not> owner (th_pc (threads s q))" for q
    using owner_loading [OF assms(2), of q] m(1) by (auto simp: latch_consts)
  have "latch (exec t j s) = latch s" using exec_waiting(1) [OF free] m(1) by (simp add: latch_consts)
  moreover have "reader_rank (th_pc (threads (exec t j s) i)) = 0"
  proof (cases "j = i")
    case True
    then show ?thesis using m free [of i]
      by (cases "th_pc (threads s i)") (simp_all add: exec_def load_step_def peek_step_def)
  next
    case False
    then show ?thesis using m(2) by (simp add: exec_others)
  qed
  ultimately show ?thesis using m(1) by (auto simp: critical_def)
qed

definition fair_state :: "target \<Rightarrow> 'a \<Rightarrow> ('a \<Rightarrow> (string, 'a) outcome) set \<Rightarrow> nat \<Rightarrow> 'a shared \<Rightarrow> bool" where
  "fair_state t d W i s \<longleftrightarrow> latch_inv t d W s \<and> engaged (th_pc (threads s i)) \<and> \<not> debug t \<and> always_ok d W"

lemma fair_state_exec: "fair_state t d W i s \<Longrightarrow> fair_state t d W i (exec t j s)"
  unfolding fair_state_def by (auto intro: exec_inv exec_engaged)

lemma fair_state_run: "fair_state t d W i s \<Longrightarrow> fair_state t d W i (run t js s)"
  by (induction js arbitrary: s) (simp_all add: fair_state_exec)

lemma run_not_farther:
  assumes "fair_state t d W i s" and "critical i s k n"
  shows "\<exists>k' n'. critical i (run t js s) k' n' \<and> n' \<le> n \<and> (0 < n \<longrightarrow> k \<in> set js \<longrightarrow> n' < n)"
  using assms
proof (induction js arbitrary: s k n)
  case Nil
  then show ?case by auto
next
  case (Cons j js)
  note F = fair_state_exec [OF Cons.prems(1), of j]
  show ?case
  proof (cases "n = 0")
    case True
    then obtain k' where "critical i (exec t j s) k' 0"
      using critical_done [of i s k t d W j] Cons.prems by (auto simp: fair_state_def)
    from Cons.IH [OF F this] True show ?thesis by auto
  next
    case False
    then obtain k' n' where k': "critical i (exec t j s) k' n'" and less: "n' < n \<or> n' = n \<and> k' = k \<and> j \<noteq> k"
      using critical_closer [OF Cons.prems(2)] Cons.prems(1) unfolding fair_state_def closer_def by blast
    from Cons.IH [OF F k'] obtain q m where q: "critical i (run t js (exec t j s)) q m" "m \<le> n'"
      "0 < n' \<longrightarrow> k' \<in> set js \<longrightarrow> m < n'" by blast
    from less have "m \<le> n \<and> (k \<in> set (j # js) \<longrightarrow> m < n)" using q(2,3) False by auto
    then show ?thesis using q(1) by auto
  qed
qed

lemma run_in_load: "in_load (th_pc (threads (run t js s) k)) \<Longrightarrow> in_load (th_pc (threads s k))"
  by (induction js arbitrary: s) (auto dest: exec_in_load)

lemma run_append: "run t (xs @ ys) s = run t ys (run t xs s)"
  by (induction xs arbitrary: s) auto

lemma rounds_closer:
  assumes "fair_state t d W i s" and "critical i s k n"
    and "\<forall>r\<in>set rounds. \<forall>q. in_load (th_pc (threads s q)) \<longrightarrow> q \<in> set r"
  shows "\<exists>k' n'. critical i (run t (concat rounds) s) k' n' \<and> n' \<le> n - length rounds"
  using assms
proof (induction rounds arbitrary: s k n)
  case Nil
  then show ?case by auto
next
  case (Cons r rs)
  have k: "0 < n \<longrightarrow> k \<in> set r"
    using critical_in_load [OF Cons.prems(2)] Cons.prems(1,3) by (auto simp: fair_state_def)
  from run_not_farther [OF Cons.prems(1,2), of r] obtain k' n' where
    n': "critical i (run t r s) k' n'" "n' \<le> n" "0 < n \<longrightarrow> n' < n" using k by blast
  have "\<forall>r\<in>set rs. \<forall>q. in_load (th_pc (threads (run t r' s) q)) \<longrightarrow> q \<in> set r" for r'
    using Cons.prems(3) run_in_load [of t r' s] by auto
  from Cons.IH [OF fair_state_run [OF Cons.prems(1)] n'(1) this] n'(2,3)
  show ?case by (fastforce simp: run_append)
qed

lemma reach_once:
  assumes "reach (latch_init d) (latch_system t W) s"
  shows "\<exists>a. once_rel s a \<and> (once_step d W)\<^sup>*\<^sup>* (Fresh d) a"
  using assms
proof (induction rule: reach.induct)
  case (reach_init s)
  then have "once_rel s (Fresh d)" by (simp add: latch_init_def latch_new_def)
  then show ?case by blast
next
  case (reach_step s s')
  then obtain a where a: "once_rel s a" "(once_step d W)\<^sup>*\<^sup>* (Fresh d) a" by blast
  from once_simulation [OF reach_step.hyps(2) page_latch.reach_inv [OF reach_step.hyps(1)] a(1)]
  show ?case using a(2) by (meson rtranclp.rtrancl_into_rtrancl)
qed

lemma ok_never_abandoned:
  "(once_step d W)\<^sup>*\<^sup>* a b \<Longrightarrow> always_ok d W \<Longrightarrow> a \<noteq> Abandoned \<Longrightarrow> b \<noteq> Abandoned"
  by (induction rule: rtranclp_induct) (auto elim!: once_step.cases simp: always_ok_def)

lemma loading_owned:
  assumes "reach (latch_init d) (latch_system t W) s" and "always_ok d W" and "l_state (latch s) = PT_LOADING"
  shows "\<exists>k. owner (th_pc (threads s k))"
proof -
  from reach_once [OF assms(1)] obtain a where a: "once_rel s a" "a \<noteq> Abandoned"
    using ok_never_abandoned [OF _ assms(2)] by blast
  then show ?thesis using assms(3) by (cases a) (auto simp: latch_consts)
qed

lemma critical_exists:
  assumes "latch_inv t d W s" and "l_state (latch s) = PT_LOADING \<Longrightarrow> \<exists>k. owner (th_pc (threads s k))"
  shows "\<exists>k n. critical i s k n \<and> n \<le> 9"
proof -
  from assms(1) consider "l_state (latch s) = PT_ON_DISK" | "l_state (latch s) = PT_LOADING" | "l_state (latch s) = PT_IN_MEMORY"
    by (auto simp: latch_inv_def latch_ok_def)
  then show ?thesis
  proof cases
    case 1
    then have "critical i s i (if th_pc (threads s i) = AtCas then 8 else 9)" by (simp add: critical_def)
    moreover have "(if th_pc (threads s i) = AtCas then 8 else 9) \<le> (9 :: nat)" by simp
    ultimately show ?thesis by blast
  next
    case 2
    then obtain k where "owner (th_pc (threads s k))" using assms(2) by blast
    then show ?thesis using 2 criticalI(1) [of s k i] owner_rank_le [of "th_pc (threads s k)"] by fastforce
  next
    case 3
    then show ?thesis using criticalI(2) [of s i] reader_rank_le [of "th_pc (threads s i)"] by fastforce
  qed
qed

text \<open>Nine rounds bring every waiting thread back.\<close>

lemma fair_rounds:
  assumes "fair_state t d W i s" and "l_state (latch s) = PT_LOADING \<Longrightarrow> \<exists>k. owner (th_pc (threads s k))"
    and "length rounds = 9" and "\<forall>r\<in>set rounds. \<forall>q. in_load (th_pc (threads s q)) \<longrightarrow> q \<in> set r"
  shows "\<exists>v. th_pc (threads (run t (concat rounds) s) i) = Returned (Ok v) \<and>
    latch (run t (concat rounds) s) = \<lparr>l_state = PT_IN_MEMORY, l_data = v\<rparr>"
proof -
  let ?s' = "run t (concat rounds) s"
  have "latch_inv t d W s" using assms(1) by (simp add: fair_state_def)
  from critical_exists [OF this assms(2)] obtain k n where n: "critical i s k n" "n \<le> 9" by blast
  from rounds_closer [OF assms(1) n(1) assms(4)] n(2) assms(3) obtain k' where
    c: "critical i ?s' k' 0" by auto
  have fair': "latch_inv t d W ?s'" "engaged (th_pc (threads ?s' i))"
    using fair_state_run [OF assms(1)] by (simp_all add: fair_state_def)
  from critical_zero [OF c fair'(2)] obtain v where v: "th_pc (threads ?s' i) = Returned (Ok v)"
    using owner_loading [OF fair'(1), of i] by (auto simp: latch_consts)
  have "knows t d (th_work (threads ?s' i)) (latch ?s') (th_pc (threads ?s' i))"
    using fair'(1) by (simp add: latch_inv_def)
  then have "latch ?s' = \<lparr>l_state = PT_IN_MEMORY, l_data = v\<rparr>" using v by (simp add: PageTableLatch.equality)
  with v show ?thesis by blast
qed

lemma fair_completes:
  assumes "reach (latch_init d) (latch_system t W) s" and "\<not> debug t" and "\<forall>w\<in>W. \<exists>v. w d = Ok v"
    and "in_load (th_pc (threads s i))"
    and "length rounds = 9" and "\<forall>r\<in>set rounds. \<forall>q. in_load (th_pc (threads s q)) \<longrightarrow> q \<in> set r"
  shows "\<exists>v. th_pc (threads (run t (concat rounds) s) i) = Returned (Ok v) \<and>
    latch (run t (concat rounds) s) = \<lparr>l_state = PT_IN_MEMORY, l_data = v\<rparr>"
proof -
  have ok: "always_ok d W" using assms(3) by (simp add: always_ok_def)
  have "fair_state t d W i s"
    using page_latch.reach_inv [OF assms(1)] assms(2,4) ok by (simp add: fair_state_def engaged_def)
  from fair_rounds [OF this loading_owned [OF assms(1) ok] assms(5,6)] show ?thesis .
qed

section \<open>How long a thread has waited\<close>

text \<open>
  The counter of the back-off is the number of waits, at its width of eight bits. In a debug build a
  thread inside \<^verbatim>\<open>load\<close> has waited at most 255 times, and a panic that is not the closure's is that of the
  256th wait.
\<close>

definition waits_ok :: "target \<Rightarrow> 'a \<Rightarrow> 'a thread \<Rightarrow> bool" where
  "waits_ok t d th \<longleftrightarrow>
     (in_load (th_pc th) \<longrightarrow> spin_count th = of_nat (length (waits th)) \<and> (debug t \<longrightarrow> length (waits th) \<le> 255)) \<and>
     (th_pc th = Returned Panic \<longrightarrow> th_work th d = Panic \<or> debug t \<and> length (waits th) = 256)"

lemma waits_ok_load_step:
  assumes "waits_ok t d th" and "in_load (th_pc th)" and "knows t d (th_work th) l (th_pc th)"
  shows "waits_ok t d (snd (load_step t l th))"
proof (cases "th_pc th")
  case AtBackoff
  have W: "spin_count th = of_nat (length (waits th))" "debug t \<longrightarrow> length (waits th) \<le> 255"
    using assms(1,2) by (simp_all add: waits_ok_def)
  have "length (waits th) = 255" if "debug t" "spin_count th = 255"
  proof -
    have "unat (of_nat (length (waits th)) :: u8) = unat (255 :: u8)" using that W(1) by metis
    then show ?thesis using W(2) that(1) by (simp add: unat_of_nat)
  qed
  moreover have "length (waits th) \<noteq> 255" if "spin_count th \<noteq> 255" using W(1) that by auto
  ultimately show ?thesis
    using AtBackoff W by (auto simp: waits_ok_def load_step_def Let_def add.commute)
qed (use assms in \<open>auto simp: waits_ok_def load_step_def Let_def split: outcome.splits\<close>)

lemma waits_ok_exec:
  assumes "latch_inv t d W s" and "waits_ok t d (threads s i)"
  shows "waits_ok t d (threads (exec t j s) i)"
proof (cases "i = j")
  case True
  have k: "knows t d (th_work (threads s i)) (latch s) (th_pc (threads s i))" using assms(1) by (simp add: latch_inv_def)
  consider "in_load (th_pc (threads s i))" | "in_peek (th_pc (threads s i))" | "\<not> in_load (th_pc (threads s i))" "\<not> in_peek (th_pc (threads s i))"
    by blast
  then show ?thesis
  proof cases
    case 1
    then have "\<not> in_peek (th_pc (threads s i))" by (cases "th_pc (threads s i)") simp_all
    then show ?thesis using waits_ok_load_step [OF assms(2) 1 k] True by (simp add: exec_def split_def Let_def)
  next
    case 2
    then show ?thesis using True by (cases "th_pc (threads s i)") (simp_all add: exec_def peek_step_def waits_ok_def)
  next
    case 3
    then have "load_step t (latch s) (threads s i) = (latch s, threads s i)"
      by (cases "th_pc (threads s i)") (simp_all add: load_step_def)
    then show ?thesis using 3 True assms(2) by (simp add: exec_def)
  qed
next
  case False
  then show ?thesis using assms(2) by (simp add: exec_others)
qed

lemma waits_ok_step:
  assumes "latch_system t W s s'" and "latch_inv t d W s" and "\<And>i. waits_ok t d (threads s i)"
  shows "waits_ok t d (threads s' i)"
  using assms(1)
proof (elim latch_systemE load_systemE)
  show "s' = exec t j s \<Longrightarrow> ?thesis" "s' = exec t j s \<Longrightarrow> ?thesis" for j
    using waits_ok_exec [OF assms(2,3)] by simp_all
qed (use assms(3) in \<open>auto simp: waits_ok_def start_load_def start_peek_def\<close>)

interpretation waiting: invariant_system "latch_init d" "latch_system t W"
  "\<lambda>s. latch_inv t d W s \<and> (\<forall>i. waits_ok t d (threads s i))" for d t W
proof unfold_locales
  show "latch_inv t d W s \<and> (\<forall>i. waits_ok t d (threads s i))" if "latch_init d s" for s
    using page_latch.inv_init [OF that] that by (simp add: latch_init_def waits_ok_def)
  show "latch_inv t d W s' \<and> (\<forall>i. waits_ok t d (threads s' i))"
    if "latch_inv t d W s \<and> (\<forall>i. waits_ok t d (threads s i))" "latch_system t W s s'" for s s'
    using that waits_ok_step [OF that(2)] latch_inv_step [OF that(2)] by blast
qed

section \<open>Example executions\<close>

definition idle_thread :: "'a thread" where
  "idle_thread = \<lparr>th_pc = Idle, spin_count = 0, waits = [], th_work = (\<lambda>d. Ok d)\<rparr>"

definition fresh_shared :: "'a \<Rightarrow> 'a shared" where
  "fresh_shared d = \<lparr>latch = latch_new d, threads = (\<lambda>_. idle_thread)\<rparr>"

definition two_loads :: "'a \<Rightarrow> ('a \<Rightarrow> (string, 'a) outcome) \<Rightarrow> 'a shared" where
  "two_loads d w = \<lparr>latch = latch_new d, threads = (\<lambda>_. idle_thread)(0 := start_load w, 1 := start_load w)\<rparr>"

lemma reach_two_loads: "w \<in> W \<Longrightarrow> reach (latch_init d) (load_system t W) (two_loads d w)"
proof -
  assume w: "w \<in> W"
  let ?s0 = "fresh_shared d" and ?s1 = "fresh_shared d\<lparr>threads := (threads (fresh_shared d))(0 := start_load w)\<rparr>"
  have "reach (latch_init d) (load_system t W) ?s0"
    by (rule reach_init) (simp add: latch_init_def fresh_shared_def idle_thread_def)
  then have "reach (latch_init d) (load_system t W) ?s1"
    by (rule reach_step) (rule call_load; simp add: w fresh_shared_def idle_thread_def)
  then have "reach (latch_init d) (load_system t W) (?s1\<lparr>threads := (threads ?s1)(1 := start_load w)\<rparr>)"
    by (rule reach_step) (rule call_load; simp add: w fresh_shared_def idle_thread_def)
  then show ?thesis by (simp add: two_loads_def fresh_shared_def)
qed

lemma reach_run:
  assumes "reach (latch_init d) (load_system t W) s"
  shows "reach (latch_init d) (load_system t W) (run t js s)"
  using assms
proof (induction js arbitrary: s)
  case Nil
  then show ?case by simp
next
  case (Cons j js)
  have "reach (latch_init d) (load_system t W) (exec t j s)"
  proof (cases "in_load (th_pc (threads s j))")
    case True
    then show ?thesis by (intro reach_step [OF Cons.prems] exec_load)
  next
    case False
    then show ?thesis using exec_outside(3) [OF False no_peek_reach [OF Cons.prems]] Cons.prems by simp
  qed
  from Cons.IH [OF this] show ?case by simp
qed

lemma run_steps:
  assumes "reach (latch_init d) (load_system t W) s"
  shows "(latch_system t W)\<^sup>*\<^sup>* s (run t js s)"
  using assms
proof (induction js arbitrary: s)
  case Nil
  then show ?case by simp
next
  case (Cons j js)
  have "reach (latch_init d) (load_system t W) (exec t j s)" using reach_run [OF Cons.prems, of "[j]"] by simp
  note IH = Cons.IH [OF this]
  show ?case
  proof (cases "in_load (th_pc (threads s j))")
    case True
    then have "latch_system t W s (exec t j s)" by (intro sys_load exec_load)
    then show ?thesis using IH by (simp add: converse_rtranclp_into_rtranclp)
  next
    case False
    then show ?thesis using exec_outside(3) [OF False no_peek_reach [OF Cons.prems]] IH by simp
  qed
qed

lemma fresh_steps:
  assumes "w \<in> W"
  shows "(latch_system t W)\<^sup>*\<^sup>* (fresh_shared d) (run t js (two_loads d w))"
proof -
  let ?s0 = "fresh_shared d" and ?s1 = "fresh_shared d\<lparr>threads := (threads (fresh_shared d))(0 := start_load w)\<rparr>"
  have "latch_system t W ?s0 ?s1"
    by (rule sys_load, rule call_load) (simp_all add: assms fresh_shared_def idle_thread_def)
  moreover have "latch_system t W ?s1 (?s1\<lparr>threads := (threads ?s1)(1 := start_load w)\<rparr>)"
    by (rule sys_load, rule call_load) (simp_all add: assms fresh_shared_def idle_thread_def)
  moreover have "?s1\<lparr>threads := (threads ?s1)(1 := start_load w)\<rparr> = two_loads d w"
    by (simp add: two_loads_def fresh_shared_def)
  ultimately have "(latch_system t W)\<^sup>*\<^sup>* ?s0 (two_loads d w)" by auto
  then show ?thesis using run_steps [OF reach_two_loads [OF assms]] by (rule rtranclp_trans)
qed

lemmas exec_eval = two_loads_def start_load_def idle_thread_def exec_def load_step_def peek_step_def latch_new_def
  latch_consts

section \<open>A latch whose loader failed\<close>

definition blocked :: "target \<Rightarrow> 'a \<Rightarrow> ('a \<Rightarrow> (string, 'a) outcome) set \<Rightarrow> 'a shared \<Rightarrow> bool" where
  "blocked t d W s \<longleftrightarrow> latch_inv t d W s \<and> l_state (latch s) = PT_LOADING \<and> (\<forall>i. \<not> owner (th_pc (threads s i)))"

definition still_waiting :: "target \<Rightarrow> 'a shared \<Rightarrow> 'a shared \<Rightarrow> bool" where
  "still_waiting t s s' \<longleftrightarrow> latch s' = latch s \<and>
     (\<not> debug t \<longrightarrow> (\<forall>i. in_load (th_pc (threads s i)) \<longrightarrow> in_load (th_pc (threads s' i))))"

lemma blocked_exec:
  assumes "blocked t d W s"
  shows "blocked t d W (exec t i s)" and "still_waiting t s (exec t i s)"
proof -
  have b: "latch_inv t d W s" "l_state (latch s) = PT_LOADING" "\<And>j. \<not> owner (th_pc (threads s j))"
    using assms by (simp_all add: blocked_def)
  have ne: "l_state (latch s) \<noteq> PT_ON_DISK" by (simp add: b(2) latch_consts)
  note X = exec_waiting [OF b(3) ne]
  have "\<not> owner (th_pc (threads (exec t i s) j))" for j
    using X(2) b(3) [of j] by (cases "j = i") (simp_all add: exec_others)
  then show "blocked t d W (exec t i s)" using exec_inv [OF b(1)] X(1) b(2) by (simp add: blocked_def)
  have kn: "knows t d (th_work (threads s i)) (latch s) (th_pc (threads s i))" using b(1) by (simp add: latch_inv_def)
  have "in_load (th_pc (threads (exec t i s) i))" if "in_load (th_pc (threads s i))" "\<not> debug t"
    using that kn b(2) b(3) [of i]
    by (cases "th_pc (threads s i)") (auto simp: exec_def load_step_def latch_consts Let_def)
  then show "still_waiting t s (exec t i s)"
    using X(1) by (auto simp: still_waiting_def) (metis exec_others)
qed

interpretation blocked_latch: guarantee_system "blocked t d W" "latch_system t W" "blocked t d W" "still_waiting t"
  for t d W
proof unfold_locales
  show "blocked t d W s \<Longrightarrow> blocked t d W s" for s .
  show "still_waiting t s s" for s :: "'a shared" by (simp add: still_waiting_def)
  show "still_waiting t s s' \<Longrightarrow> still_waiting t s' s'' \<Longrightarrow> still_waiting t s s''" for s s' s'' :: "'a shared"
    by (simp add: still_waiting_def)
  fix s s' assume b: "blocked t d W s" and step: "latch_system t W s s'"
  have inv: "latch_inv t d W s'" using b latch_inv_step [OF step] by (simp add: blocked_def)
  from step show "blocked t d W s'"
  proof (elim latch_systemE load_systemE)
    fix i work assume "s' = s\<lparr>threads := (threads s)(i := start_load work)\<rparr>"
    with b inv show ?thesis by (simp add: blocked_def start_load_def)
  next
    fix i assume "s' = s\<lparr>threads := (threads s)(i := start_peek)\<rparr>"
    with b inv show ?thesis by (simp add: blocked_def start_peek_def)
  qed (use b in \<open>simp_all add: blocked_exec\<close>)
  from step show "still_waiting t s s'"
  proof (elim latch_systemE load_systemE)
    fix i assume "s' = exec t i s"
    then show ?thesis using blocked_exec(2) [OF b] by simp
  next
    fix i assume "s' = exec t i s"
    then show ?thesis using blocked_exec(2) [OF b] by simp
  qed (auto simp: still_waiting_def)
qed

lemma failure_blocks:
  assumes "latch_inv t d W s" and "th_pc (threads s i) = AtWork x" and "\<forall>v. th_work (threads s i) x \<noteq> Ok v"
  shows "blocked t d W (exec t i s)"
proof -
  have own: "owner (th_pc (threads s i))" by (simp add: assms(2))
  have "latch (exec t i s) = latch s" and me: "\<not> owner (th_pc (threads (exec t i s) i))"
    using assms(2,3) by (auto simp: exec_def load_step_def split: outcome.splits)
  moreover have "\<not> owner (th_pc (threads (exec t i s) j))" for j by (rule owner_released [OF assms(1) own me])
  ultimately show ?thesis
    using exec_inv [OF assms(1)] owner_loading [OF assms(1) own] by (simp add: blocked_def)
qed

section \<open>A long wait\<close>

lemma wait_rounds:
  assumes "l_state (latch s) = PT_LOADING" and "threads s i = start_load w" and "n \<le> 255"
  shows "run t (concat (replicate n [i, i])) s =
    s\<lparr>threads := (threads s)(i := (start_load w)\<lparr>spin_count := of_nat n,
        waits := map (\<lambda>k. backoff_action (of_nat k)) [0..<n]\<rparr>)\<rparr>"
  using assms(3)
proof (induction n)
  case 0
  have "(start_load w)\<lparr>spin_count := of_nat 0, waits := map (\<lambda>k. backoff_action (of_nat k)) [0..<0]\<rparr> = threads s i"
    by (simp add: assms(2) start_load_def)
  then show ?case by (simp only: fun_upd_triv) simp
next
  case (Suc n)
  have w: "(of_nat n :: u8) \<noteq> 255"
  proof
    assume "(of_nat n :: u8) = 255"
    then have "unat (of_nat n :: u8) = 255" by simp
    then show False using Suc.prems by (simp add: unat_of_nat)
  qed
  have "concat (replicate (Suc n) [i, i]) = concat (replicate n [i, i]) @ [i, i]"
    by (induction n) auto
  then have "run t (concat (replicate (Suc n) [i, i])) s =
      run t [i, i] (run t (concat (replicate n [i, i])) s)" by (simp only: run_append)
  also have "run t (concat (replicate n [i, i])) s = s\<lparr>threads := (threads s)(i := (start_load w)\<lparr>spin_count := of_nat n,
        waits := map (\<lambda>k. backoff_action (of_nat k)) [0..<n]\<rparr>)\<rparr>" using Suc.prems by (intro Suc.IH) simp
  also have "run t [i, i] \<dots> = s\<lparr>threads := (threads s)(i := (start_load w)\<lparr>spin_count := of_nat (Suc n),
        waits := map (\<lambda>k. backoff_action (of_nat k)) [0..<Suc n]\<rparr>)\<rparr>"
    using assms(1) w by (simp add: exec_def load_step_def start_load_def latch_consts Let_def add.commute)
  finally show ?case .
qed

section \<open>Properties\<close>

text \<open>
  C14: One loader at a time. In every reachable state of any number of threads calling \<^verbatim>\<open>load\<close> and
  \<^verbatim>\<open>peek\<close>, at most one thread is between winning the compare-exchange and publishing, and while
  there is one the state byte is \<^verbatim>\<open>PT_LOADING\<close>.
\<close>

theorem latch_mutual_exclusion:
  assumes "reach (latch_init d) (latch_system t W) s"
    and "owner (th_pc (threads s i))" and "owner (th_pc (threads s j))"
  shows "i = j \<and> current_state (latch s) = PT_LOADING"
proof -
  note inv = page_latch.reach_inv [OF assms(1)]
  have "i = j" using inv assms(2,3) unfolding latch_inv_def by blast
  then show ?thesis using owner_loading [OF inv assms(2)] by (simp add: current_state_def)
qed

theorem latch_mutual_exclusion_witness:
  "current_state (latch (run \<lparr>debug = True, big_endian = False\<rparr> [0, 1, 0, 1] (two_loads (3 :: nat) (\<lambda>d. Ok (d + 1))))) = PT_LOADING"
proof -
  let ?t = "\<lparr>debug = True, big_endian = False\<rparr>" and ?w = "\<lambda>d :: nat. (Ok (d + 1) :: (string, nat) outcome)"
  have r: "reach (latch_init 3) (latch_system ?t {?w}) (run ?t [0, 1, 0, 1] (two_loads 3 ?w))"
    by (rule load_reach, rule reach_run, rule reach_two_loads) simp
  have o: "owner (th_pc (threads (run ?t [0, 1, 0, 1] (two_loads 3 ?w)) 0))" by (simp add: exec_eval)
  from latch_mutual_exclusion [OF r o o] show ?thesis by simp
qed

text \<open>
  \<^verbatim>\<open>load\<close> is free of data races. As long as threads only call \<^verbatim>\<open>load\<close>, no reachable state has a
  thread about to overwrite the data while another is about to read or write it.
\<close>

theorem load_data_race_free:
  assumes "reach (latch_init d) (load_system t W) s"
  shows "\<not> data_race s"
  by (rule inv_no_race [OF page_latch.reach_inv [OF load_reach [OF assms]] no_peek_reach [OF assms]])

theorem load_data_race_free_witness:
  "\<not> data_race (run \<lparr>debug = True, big_endian = False\<rparr> [0, 1, 0, 1, 0, 0, 1] (two_loads (3 :: nat) (\<lambda>d. Ok (d + 1))))"
  by (rule load_data_race_free [where W = "{\<lambda>d. Ok (d + 1)}" and d = 3 and t = "\<lparr>debug = True, big_endian = False\<rparr>"],
      rule reach_run, rule reach_two_loads) simp

text \<open>
  C8: All callers agree. When \<^verbatim>\<open>load\<close> has returned a value to one thread, every value it returns to
  any thread, then or later, is the same; it is what a closure returned for the initial data; and
  the latch holds it from then on.
\<close>

theorem load_agreement:
  assumes "reach (latch_init d) (latch_system t W) s" and "th_pc (threads s i) = Returned (Ok v)"
    and "(latch_system t W)\<^sup>*\<^sup>* s s'" and "th_pc (threads s' j) = Returned (Ok v')"
  shows "v' = v \<and> latch s' = \<lparr>l_state = PT_IN_MEMORY, l_data = v\<rparr> \<and> (\<exists>w\<in>W. w d = Ok v)"
proof -
  have val: "l_state (latch q) = PT_IN_MEMORY \<and> l_data (latch q) = x \<and> (\<exists>w\<in>W. w d = Ok x)"
    if "reach (latch_init d) (latch_system t W) q" and "th_pc (threads q k) = Returned (Ok x)" for q k x
  proof -
    note inv = page_latch.reach_inv [OF that(1)]
    have "knows t d (th_work (threads q k)) (latch q) (th_pc (threads q k))" "latch_ok d W (latch q)"
      using inv by (simp_all add: latch_inv_def)
    then show ?thesis using that(2) by (auto simp: latch_ok_def latch_consts)
  qed
  have "latch_guar s s'" by (rule page_latch.reach_guar [OF assms(1,3)])
  then have "latch s' = latch s" using val [OF assms(1,2)] by (simp add: latch_guar_def)
  then show ?thesis
    using val [OF assms(1,2)] val [OF reach_steps [OF assms(3,1)] assms(4)]
    by (simp add: PageTableLatch.equality)
qed

theorem load_agreement_witness:
  "latch (run \<lparr>debug = True, big_endian = False\<rparr> [0, 0, 0, 0, 0, 0, 1, 1] (two_loads (3 :: nat) (\<lambda>d. Ok (d + 1)))) =
     \<lparr>l_state = PT_IN_MEMORY, l_data = 4\<rparr>"
proof -
  let ?t = "\<lparr>debug = True, big_endian = False\<rparr>" and ?w = "\<lambda>d :: nat. (Ok (d + 1) :: (string, nat) outcome)"
  let ?s = "run ?t [0, 0, 0, 0, 0, 0] (two_loads 3 ?w)"
  have r: "reach (latch_init 3) (load_system ?t {?w}) ?s" by (rule reach_run, rule reach_two_loads) simp
  have v: "th_pc (threads ?s 0) = Returned (Ok 4)" "th_pc (threads (run ?t [1, 1] ?s) 1) = Returned (Ok 4)"
    by (simp_all add: exec_eval)
  from load_agreement [OF load_reach [OF r] v(1) run_steps [OF r] v(2)] show ?thesis
    using run_append [of ?t "[0, 0, 0, 0, 0, 0]" "[1, 1]"] by simp
qed

text \<open>
  The value is loaded at most once. Once the state byte is \<^verbatim>\<open>PT_IN_MEMORY\<close>, it stays so, the
  data never changes, and no thread ever runs its closure again.
\<close>

theorem loaded_at_most_once:
  assumes "reach (latch_init d) (latch_system t W) s" and "current_state (latch s) = PT_IN_MEMORY"
    and "(latch_system t W)\<^sup>*\<^sup>* s s'"
  shows "latch s' = latch s \<and> \<not> owner (th_pc (threads s' i))"
proof -
  have "latch_guar s s'" by (rule page_latch.reach_guar [OF assms(1,3)])
  then have eq: "latch s' = latch s" using assms(2) by (simp add: latch_guar_def current_state_def)
  have "latch_inv t d W s'" by (rule page_latch.reach_inv [OF reach_steps [OF assms(3,1)]])
  then show ?thesis
    using owner_loading [of t d W s' i] eq assms(2) by (auto simp: current_state_def latch_consts)
qed

theorem loaded_at_most_once_witness:
  "\<not> owner (th_pc (threads (run \<lparr>debug = True, big_endian = False\<rparr> [0, 0, 0, 0, 0, 0] (two_loads (3 :: nat) (\<lambda>d. Ok (d + 1)))) 1))"
proof -
  let ?t = "\<lparr>debug = True, big_endian = False\<rparr>" and ?w = "\<lambda>d :: nat. (Ok (d + 1) :: (string, nat) outcome)"
  have r: "reach (latch_init 3) (latch_system ?t {?w}) (run ?t [0, 0, 0, 0, 0, 0] (two_loads 3 ?w))"
    by (rule load_reach, rule reach_run, rule reach_two_loads) simp
  have m: "current_state (latch (run ?t [0, 0, 0, 0, 0, 0] (two_loads 3 ?w))) = PT_IN_MEMORY"
    by (simp add: exec_eval current_state_def)
  from loaded_at_most_once [OF r m rtranclp.rtrancl_refl] show ?thesis by simp
qed

text \<open>
  C31: What \<^verbatim>\<open>load\<close> returns is explained by the closures. A value comes with the latch in memory, an
  error is the error of the thread's own closure on the initial data, and a panic is the closure's
  or, in a debug build only, the overflow of the back-off counter at the thread's 256th wait; as long as a thread
  is inside \<^verbatim>\<open>load\<close> its counter is the number of its waits modulo 256. The state byte is one of the three valid ones,
  so \<^verbatim>\<open>state()\<close> never reports \<^verbatim>\<open>PT_INVALID\<close> and the error for an invalid state is never made up.
\<close>

theorem load_results_explained:
  assumes "reach (latch_init d) (latch_system t W) s"
  shows "latch_state (latch s) = current_state (latch s) \<and> latch_state (latch s) \<noteq> PT_INVALID \<and>
    (case th_pc (threads s i) of
       Returned (Ok v) \<Rightarrow> latch s = \<lparr>l_state = PT_IN_MEMORY, l_data = v\<rparr>
     | Returned (Err e) \<Rightarrow> th_work (threads s i) d = Err e
     | Returned Panic \<Rightarrow> th_work (threads s i) d = Panic \<or> debug t \<and> length (waits (threads s i)) = 256
     | Returned UB \<Rightarrow> th_work (threads s i) d = UB
     | _ \<Rightarrow> True) \<and>
    (in_load (th_pc (threads s i)) \<longrightarrow> unat (spin_count (threads s i)) = length (waits (threads s i)) mod 256)"
proof -
  note inv = page_latch.reach_inv [OF assms]
  have ok: "latch_ok d W (latch s)" and kn: "knows t d (th_work (threads s i)) (latch s) (th_pc (threads s i))"
    using inv by (simp_all add: latch_inv_def)
  have "latch_state (latch s) = current_state (latch s) \<and> latch_state (latch s) \<noteq> PT_INVALID"
    using ok by (auto simp: latch_ok_def latch_state_def current_state_def latch_consts Let_def)
  moreover have "waits_ok t d (threads s i)" using waiting.reach_inv [OF assms] by blast
  ultimately show ?thesis
    using kn by (auto split: pc.split outcome.split simp: PageTableLatch.equality waits_ok_def unat_of_nat)
qed

theorem load_results_explained_witness:
  "latch_state (latch (run \<lparr>debug = True, big_endian = False\<rparr> [0, 0, 0, 0] (two_loads (3 :: nat) (\<lambda>d. Err ''disk'')))) \<noteq> PT_INVALID \<and>
   th_work (threads (run \<lparr>debug = True, big_endian = False\<rparr> [0, 0, 0, 0] (two_loads (3 :: nat) (\<lambda>d. Err ''disk''))) 0) 3 = Err ''disk''"
proof -
  let ?t = "\<lparr>debug = True, big_endian = False\<rparr>" and ?w = "\<lambda>d :: nat. (Err ''disk'' :: (string, nat) outcome)"
  have r: "reach (latch_init 3) (latch_system ?t {?w}) (run ?t [0, 0, 0, 0] (two_loads 3 ?w))"
    by (rule load_reach, rule reach_run, rule reach_two_loads) simp
  have p: "th_pc (threads (run ?t [0, 0, 0, 0] (two_loads 3 ?w)) 0) = Returned (Err ''disk'')" by (simp add: exec_eval)
  show ?thesis using load_results_explained [OF r, of 0] unfolding p pc.case outcome.case by blast
qed

text \<open>
  C21: The latch implements a once cell. The states of the latch simulate a cell that is fresh,
  claimed by one thread, filled with a closure's result, or abandoned by a failed closure: every
  step of every thread is a step of the cell or leaves it alone.
\<close>

theorem latch_refines_once:
  assumes "reach (latch_init d) (latch_system t W) s"
  shows "(\<exists>a. once_rel s a \<and> (once_step d W)\<^sup>*\<^sup>* (Fresh d) a) \<and>
    (\<forall>a s'. once_rel s a \<longrightarrow> latch_system t W s s' \<longrightarrow>
       (\<exists>a'. once_rel s' a' \<and> (a' = a \<or> once_step d W a a')))"
  using reach_once [OF assms] once_simulation [OF _ page_latch.reach_inv [OF assms]] by blast

theorem latch_refines_once_witness:
  "\<exists>a. once_rel (two_loads (3 :: nat) (\<lambda>d. Ok (d + 1))) a \<and> (once_step 3 {\<lambda>d. Ok (d + 1)})\<^sup>*\<^sup>* (Fresh 3) a"
proof -
  have "reach (latch_init 3) (latch_system \<lparr>debug = True, big_endian = False\<rparr> {\<lambda>d. Ok (d + 1)}) (two_loads (3 :: nat) (\<lambda>d. Ok (d + 1)))"
    by (rule load_reach, rule reach_two_loads) simp
  from latch_refines_once [OF this] show ?thesis by blast
qed

text \<open>
  C11: Every load completes. In a release build, when the closures succeed, any schedule made of
  nine rounds, each giving every thread inside \<^verbatim>\<open>load\<close> at least one step in any order, brings each of
  them back with a value: the same value, the one the latch holds.
\<close>

theorem fair_load_completes:
  assumes "reach (latch_init d) (latch_system t W) s" and "\<not> debug t" and "\<forall>w\<in>W. \<exists>v. w d = Ok v"
    and "in_load (th_pc (threads s i))"
    and "length rounds = 9" and "\<forall>r\<in>set rounds. \<forall>q. in_load (th_pc (threads s q)) \<longrightarrow> q \<in> set r"
  shows "\<exists>v. th_pc (threads (run t (concat rounds) s) i) = Returned (Ok v) \<and>
    latch (run t (concat rounds) s) = \<lparr>l_state = PT_IN_MEMORY, l_data = v\<rparr>"
  using assms by (rule fair_completes)

theorem fair_load_completes_witness:
  "\<exists>v. th_pc (threads (run \<lparr>debug = False, big_endian = False\<rparr> (concat (replicate 9 [1, 0]))
       (two_loads (3 :: nat) (\<lambda>d. Ok (d + 1)))) 0) = Returned (Ok v)"
proof -
  let ?t = "\<lparr>debug = False, big_endian = False\<rparr>" and ?w = "\<lambda>d :: nat. (Ok (d + 1) :: (string, nat) outcome)"
  have r: "reach (latch_init 3) (latch_system ?t {?w}) (two_loads 3 ?w)"
    by (rule load_reach, rule reach_two_loads) simp
  have q: "\<forall>q. in_load (th_pc (threads (two_loads 3 ?w) q)) \<longrightarrow> q \<in> set [1, 0]"
    by (simp add: two_loads_def idle_thread_def)
  from fair_load_completes [OF r, of 0 "replicate 9 [1, 0]"] q show ?thesis
    by (auto simp: two_loads_def start_load_def)
qed

text \<open>
  C30: A failed closure blocks the latch for ever. When the closure returns an error or panics,
  the state byte stays \<^verbatim>\<open>PT_LOADING\<close>: whatever happens afterwards the latch never changes, no call
  returns a value, and in a release build no thread inside \<^verbatim>\<open>load\<close> ever comes back.
\<close>

theorem failed_load_blocks_forever:
  assumes "reach (latch_init d) (latch_system t W) s" and "th_pc (threads s i) = AtWork x"
    and "\<forall>v. th_work (threads s i) x \<noteq> Ok v" and "(latch_system t W)\<^sup>*\<^sup>* (exec t i s) s'"
  shows "current_state (latch s') = PT_LOADING \<and> (\<forall>j v. th_pc (threads s' j) \<noteq> Returned (Ok v)) \<and>
    (\<not> debug t \<longrightarrow> (\<forall>j. in_load (th_pc (threads (exec t i s) j)) \<longrightarrow> in_load (th_pc (threads s' j))))"
proof -
  have b: "blocked t d W (exec t i s)"
    by (rule failure_blocks [OF page_latch.reach_inv [OF assms(1)] assms(2,3)])
  have b': "blocked t d W s'" by (rule blocked_latch.steps_inv [OF assms(4) b])
  have "\<not> knows t d (th_work (threads s' j)) (latch s') (Returned (Ok v))" for j v
    using b' by (simp add: blocked_def latch_consts)
  then have "th_pc (threads s' j) \<noteq> Returned (Ok v)" for j v
    using b' unfolding blocked_def latch_inv_def by metis
  then show ?thesis
    using b' blocked_latch.steps_guar [OF assms(4) b] by (auto simp: blocked_def still_waiting_def current_state_def)
qed

theorem failed_load_blocks_forever_witness:
  "in_load (th_pc (threads (run \<lparr>debug = False, big_endian = False\<rparr> [1, 1, 1, 1, 1, 1]
     (exec \<lparr>debug = False, big_endian = False\<rparr> 0 (run \<lparr>debug = False, big_endian = False\<rparr> [0, 0, 0]
       (two_loads (3 :: nat) (\<lambda>d. Err ''disk''))))) 1))"
proof -
  let ?t = "\<lparr>debug = False, big_endian = False\<rparr>" and ?w = "\<lambda>d :: nat. (Err ''disk'' :: (string, nat) outcome)"
  let ?s = "run ?t [0, 0, 0] (two_loads 3 ?w)"
  have r: "reach (latch_init 3) (load_system ?t {?w}) ?s" by (rule reach_run, rule reach_two_loads) simp
  have e: "reach (latch_init 3) (load_system ?t {?w}) (exec ?t 0 ?s)" using reach_run [OF r, of "[0]"] by simp
  have p: "th_pc (threads ?s 0) = AtWork 3" "\<forall>v. th_work (threads ?s 0) 3 \<noteq> Ok v"
    "in_load (th_pc (threads (exec ?t 0 ?s) 1))" by (simp_all add: exec_eval)
  have nd: "\<not> debug ?t" by simp
  from failed_load_blocks_forever [OF load_reach [OF r] p(1,2) run_steps [OF e], of "[1, 1, 1, 1, 1, 1]"] nd p(3)
  show ?thesis by blast
qed

text \<open>
  C36: The back-off counter overflows. The counter is a \<^verbatim>\<open>u8\<close>: a thread that waits for a loader does
  10 spins, 40 yields and then sleeps, and at its 256th wait a debug build panics in the caller,
  while in a release build the counter wraps to 0 and the thread spins again.
\<close>

theorem long_wait_overflows:
  assumes "l_state (latch s) = PT_LOADING" and "threads s i = start_load w"
  shows "let th = threads (run t (concat (replicate 256 [i, i])) s) i in
    waits th = replicate 10 Spin_loop @ replicate 40 Yield_now @ replicate 206 Sleep_1ms \<and>
    (if debug t then th_pc th = Returned Panic else th_pc th = AtLoop \<and> spin_count th = 0)"
proof -
  have "concat (replicate 256 [i, i]) = concat (replicate (255 + 1) [i, i])" by simp
  then have split: "concat (replicate 256 [i, i]) = concat (replicate 255 [i, i]) @ [i, i]"
    by (simp only: replicate_add concat_append) simp
  have nth: "map (\<lambda>k. backoff_action (of_nat k)) [0..<255] =
      replicate 10 Spin_loop @ replicate 40 Yield_now @ replicate 205 Sleep_1ms"
    by (rule nth_equalityI)
      (auto simp: nth_append backoff_action_def SPIN_LIMIT_def YIELD_LIMIT_def word_less_nat_alt unat_of_nat)
  have last: "backoff_action 255 = Sleep_1ms" by (simp add: backoff_action_def SPIN_LIMIT_def YIELD_LIMIT_def)
  have "replicate 206 Sleep_1ms = replicate (205 + 1) Sleep_1ms" by simp
  then have tail: "replicate 206 Sleep_1ms = replicate 205 Sleep_1ms @ [Sleep_1ms]" by (simp only: replicate_add) simp
  show ?thesis
    using assms(1) last unfolding split run_append wait_rounds [OF assms le_refl] nth tail
    by (simp add: exec_def load_step_def start_load_def latch_consts Let_def)
qed

theorem long_wait_overflows_witness:
  "th_pc (threads (run \<lparr>debug = True, big_endian = False\<rparr> (concat (replicate 256 [1, 1]))
     (run \<lparr>debug = True, big_endian = False\<rparr> [0, 0] (two_loads (3 :: nat) (\<lambda>d. Ok d)))) 1) = Returned Panic"
proof -
  let ?t = "\<lparr>debug = True, big_endian = False\<rparr>" and ?w = "\<lambda>d :: nat. (Ok d :: (string, nat) outcome)"
  have "l_state (latch (run ?t [0, 0] (two_loads 3 ?w))) = PT_LOADING" by (simp add: exec_eval)
  moreover have "threads (run ?t [0, 0] (two_loads 3 ?w)) 1 = start_load ?w" by (simp add: exec_eval)
  ultimately show ?thesis using long_wait_overflows [of _ 1 ?w ?t] by (simp add: Let_def)
qed

text \<open>
  \<^verbatim>\<open>peek\<close> races with the loader. Whenever a closure can succeed, a thread in \<^verbatim>\<open>peek\<close> can be about
  to clone the data while the loader is about to overwrite it, after an acquire load of the state
  that did not say \<^verbatim>\<open>PT_IN_MEMORY\<close>; and \<^verbatim>\<open>peek\<close> can return the loaded data with the state
  \<^verbatim>\<open>PT_ON_DISK\<close>.
\<close>

theorem peek_races_with_loader:
  assumes "w \<in> W" and "w d = Ok v"
  shows "(\<exists>s. reach (latch_init d) (latch_system t W) s \<and> data_race s) \<and>
    (\<exists>s i. reach (latch_init d) (latch_system t W) s \<and> th_pc (threads s i) = Peeked PT_ON_DISK v)"
proof -
  define s0 where "s0 = two_loads d w"
  define s1 where "s1 = s0\<lparr>threads := (threads s0)(2 := start_peek)\<rparr>"
  define s2 where "s2 = exec t 2 s1"
  define s3 where "s3 = exec t 0 (exec t 0 (exec t 0 (exec t 0 s2)))"
  define s4 where "s4 = exec t 2 (exec t 0 s3)"
  note D = s0_def s1_def s2_def s3_def s4_def start_peek_def
  have "reach (latch_init d) (latch_system t W) s0"
    unfolding s0_def by (rule load_reach, rule reach_two_loads, rule assms)
  then have "reach (latch_init d) (latch_system t W) s1" unfolding s1_def
    by (rule reach_step) (rule call_peek; simp add: D exec_eval)
  then have r2: "reach (latch_init d) (latch_system t W) s2" unfolding s2_def
    by (rule reach_step) (rule sys_peek; simp add: D exec_eval)
  have step: "reach (latch_init d) (latch_system t W) (exec t i q)"
    if "reach (latch_init d) (latch_system t W) q" "in_load (th_pc (threads q i)) \<or> in_peek (th_pc (threads q i))" for q i
    using that by (auto intro: reach_step sys_load exec_load sys_peek)
  have r3: "reach (latch_init d) (latch_system t W) s3"
    unfolding s3_def by (intro step r2) (simp_all add: D exec_eval assms(2))
  have "data_race s3"
    unfolding data_race_def by (rule exI [of _ 0], rule exI [of _ 2])
      (simp add: D exec_eval assms(2) writes_data_def reads_data_def)
  moreover have "reach (latch_init d) (latch_system t W) s4"
    unfolding s4_def by (intro step r3) (simp_all add: D exec_eval assms(2))
  moreover have "th_pc (threads s4 2) = Peeked PT_ON_DISK v" by (simp add: D exec_eval assms(2))
  ultimately show ?thesis using r3 by blast
qed

theorem peek_races_with_loader_witness:
  "\<exists>s. reach (latch_init (3 :: nat)) (latch_system \<lparr>debug = True, big_endian = False\<rparr> {\<lambda>d. Ok (d + 1)}) s \<and> data_race s"
  using peek_races_with_loader [of "\<lambda>d. Ok (d + 1)" "{\<lambda>d. Ok (d + 1)}" "3 :: nat" 4] by simp

end
