(* ===== verification/Latch_Memory.thy ===== *)
theory Latch_Memory
  imports Latch_Properties
begin

text \<open>
  The latch under the memory orderings the code names. The programs are the same \<open>load_step\<close> and
  \<open>peek_step\<close>; what changes is the memory they run on. The state byte is the sequence of its stores in modification
  order, each with the view its writer released, and a load may return any store that is not older
  than what the thread has seen. A view is what happens before a thread's next access: the newest
  store of the state byte it knows, how many writes of the data, and which reads of the data. An
  acquire load takes over the view of the store it reads, a release store publishes the thread's
  view, a read-modify-write reads the last store and continues its release sequence. The data is
  not atomic: an access that is not ordered after the conflicting ones by happens-before is a data
  race, whose outcome is \<open>UB\<close>. The initial write of the data happens before every thread, since the
  latch is shared through an \<^verbatim>\<open>Arc\<close> after it is built.
\<close>

section \<open>Orderings and views\<close>

datatype Ordering = Relaxed | Acquire | Release | AcqRel

fun acquires :: "Ordering \<Rightarrow> bool" where
  "acquires Acquire \<longleftrightarrow> True" | "acquires AcqRel \<longleftrightarrow> True" | "acquires _ \<longleftrightarrow> False"

fun releases :: "Ordering \<Rightarrow> bool" where
  "releases Release \<longleftrightarrow> True" | "releases AcqRel \<longleftrightarrow> True" | "releases _ \<longleftrightarrow> False"

record view =
  seen :: nat
  wrote :: nat
  read_ids :: "nat set"

definition no_view :: view where "no_view = \<lparr>seen = 0, wrote = 0, read_ids = {}\<rparr>"

definition vjoin :: "view \<Rightarrow> view \<Rightarrow> view" where
  "vjoin u v = \<lparr>seen = max (seen u) (seen v), wrote = max (wrote u) (wrote v), read_ids = read_ids u \<union> read_ids v\<rparr>"

record 'a memory =
  hist :: "(u8 \<times> view) list"
  m_data :: 'a
  n_writes :: nat
  n_reads :: nat

text \<open>What a load of store \<open>k\<close> adds to a view, and the view a store carries.\<close>

definition observe :: "Ordering \<Rightarrow> 'a memory \<Rightarrow> nat \<Rightarrow> view \<Rightarrow> view" where
  "observe ord m k v =
     (let v' = v\<lparr>seen := max (seen v) k\<rparr> in if acquires ord then vjoin v' (snd (hist m ! k)) else v')"

definition released :: "Ordering \<Rightarrow> view \<Rightarrow> view" where
  "released ord v = (if releases ord then v else no_view)"

definition append_store :: "Ordering \<Rightarrow> view \<Rightarrow> u8 \<Rightarrow> view \<Rightarrow> 'a memory \<Rightarrow> 'a memory \<times> view" where
  "append_store ord before x v m =
     (let v' = v\<lparr>seen := length (hist m)\<rparr>
      in (m\<lparr>hist := hist m @ [(x, vjoin before (released ord v'))]\<rparr>, v'))"

section \<open>The accesses of \<^verbatim>\<open>load\<close> and \<^verbatim>\<open>peek\<close>\<close>

datatype access =
    AtomicLoad Ordering
  | CompareExchange Ordering Ordering
  | AtomicStore Ordering
  | DataRead
  | DataWrite
  | NoAccess

fun access_of :: "'a pc \<Rightarrow> access" where
  "access_of AtLoop = AtomicLoad Acquire"
| "access_of AtCas = CompareExchange AcqRel Acquire"
| "access_of AtFastRead = DataRead"
| "access_of AtCloneForWork = DataRead"
| "access_of (AtWriteBack v) = DataWrite"
| "access_of (AtPublish v) = AtomicStore Release"
| "access_of AtPeekState = AtomicLoad Acquire"
| "access_of (AtPeekData s) = DataRead"
| "access_of _ = NoAccess"

text \<open>The step of the program, \<^verbatim>\<open>load\<close> or \<^verbatim>\<open>peek\<close>, on the values its access gives.\<close>

definition access_step :: "target \<Rightarrow> 'a PageTableLatch \<Rightarrow> 'a thread \<Rightarrow> 'a PageTableLatch \<times> 'a thread" where
  "access_step t l th = (if in_peek (th_pc th) then (l, peek_step l th) else load_step t l th)"

record 'a wthread =
  local :: "'a thread"
  tview :: view

record 'a wshared =
  mem :: "'a memory"
  wthreads :: "nat \<Rightarrow> 'a wthread"

text \<open>
  Thread \<open>i\<close> takes the step its program prescribes, reading store \<open>k\<close> of the state byte where it
  reads it; \<open>None\<close> when it may not read that store. A racy access of the data gives \<open>UB\<close>.
\<close>

definition weak_load :: "target \<Rightarrow> Ordering \<Rightarrow> nat \<Rightarrow> 'a memory \<Rightarrow> 'a wthread \<Rightarrow> ('a memory \<times> 'a wthread) option" where
  "weak_load t ord k m w =
     (if seen (tview w) \<le> k \<and> k < length (hist m)
      then Some (m, \<lparr>local = snd (access_step t \<lparr>l_state = fst (hist m ! k), l_data = m_data m\<rparr> (local w)),
                     tview = observe ord m k (tview w)\<rparr>)
      else None)"

definition weak_rmw :: "target \<Rightarrow> Ordering \<Rightarrow> nat \<Rightarrow> 'a memory \<Rightarrow> 'a wthread \<Rightarrow> ('a memory \<times> 'a wthread) option" where
  "weak_rmw t ord k m w =
     (if Suc k = length (hist m)
      then let (l, th) = access_step t \<lparr>l_state = fst (hist m ! k), l_data = m_data m\<rparr> (local w);
               (m', v) = append_store ord (snd (hist m ! k)) (l_state l) (observe ord m k (tview w)) m
           in Some (m', \<lparr>local = th, tview = v\<rparr>)
      else None)"

definition weak_store :: "target \<Rightarrow> Ordering \<Rightarrow> 'a memory \<Rightarrow> 'a wthread \<Rightarrow> 'a memory \<times> 'a wthread" where
  "weak_store t ord m w =
     (let (l, th) = access_step t \<lparr>l_state = fst (last (hist m)), l_data = m_data m\<rparr> (local w);
          (m', v) = append_store ord no_view (l_state l) (tview w) m
      in (m', \<lparr>local = th, tview = v\<rparr>))"

definition racy :: "'a wthread \<Rightarrow> 'a memory \<times> 'a wthread \<Rightarrow> 'a memory \<times> 'a wthread" where
  "racy w mw = (fst mw, w\<lparr>local := (local w)\<lparr>th_pc := Returned UB\<rparr>\<rparr>)"

definition weak_read :: "target \<Rightarrow> 'a memory \<Rightarrow> 'a wthread \<Rightarrow> 'a memory \<times> 'a wthread" where
  "weak_read t m w =
     (let th = snd (access_step t \<lparr>l_state = fst (last (hist m)), l_data = m_data m\<rparr> (local w));
          v = (tview w)\<lparr>read_ids := insert (n_reads m) (read_ids (tview w))\<rparr>;
          mw = (m\<lparr>n_reads := n_reads m + 1\<rparr>, \<lparr>local = th, tview = v\<rparr>)
      in if wrote (tview w) = n_writes m then mw else racy w mw)"

definition weak_write :: "target \<Rightarrow> 'a memory \<Rightarrow> 'a wthread \<Rightarrow> 'a memory \<times> 'a wthread" where
  "weak_write t m w =
     (let (l, th) = access_step t \<lparr>l_state = fst (last (hist m)), l_data = m_data m\<rparr> (local w);
          v = (tview w)\<lparr>wrote := n_writes m + 1\<rparr>;
          mw = (m\<lparr>m_data := l_data l, n_writes := n_writes m + 1\<rparr>, \<lparr>local = th, tview = v\<rparr>)
      in if wrote (tview w) = n_writes m \<and> {..<n_reads m} \<subseteq> read_ids (tview w) then mw else racy w mw)"

definition weak_thread :: "target \<Rightarrow> nat \<Rightarrow> 'a memory \<Rightarrow> 'a wthread \<Rightarrow> ('a memory \<times> 'a wthread) option" where
  "weak_thread t k m w =
     (case access_of (th_pc (local w)) of
        AtomicLoad ord \<Rightarrow> weak_load t ord k m w
      | CompareExchange ok fail \<Rightarrow>
          (if k < length (hist m) \<and> fst (hist m ! k) = PT_ON_DISK then weak_rmw t ok k m w else weak_load t fail k m w)
      | AtomicStore ord \<Rightarrow> Some (weak_store t ord m w)
      | DataRead \<Rightarrow> Some (weak_read t m w)
      | DataWrite \<Rightarrow> Some (weak_write t m w)
      | NoAccess \<Rightarrow>
          Some (m, w\<lparr>local := snd (access_step t \<lparr>l_state = fst (last (hist m)), l_data = m_data m\<rparr> (local w))\<rparr>))"

inductive weak_system ::
    "target \<Rightarrow> ('a \<Rightarrow> (string, 'a) outcome) set \<Rightarrow> 'a wshared \<Rightarrow> 'a wshared \<Rightarrow> bool" for t W where
  weak_exec: "in_load (th_pc (local (wthreads s i))) \<Longrightarrow> weak_thread t k (mem s) (wthreads s i) = Some (m, w) \<Longrightarrow>
    weak_system t W s \<lparr>mem = m, wthreads = (wthreads s)(i := w)\<rparr>"
| weak_call: "\<not> in_load (th_pc (local (wthreads s i))) \<Longrightarrow> \<not> in_peek (th_pc (local (wthreads s i))) \<Longrightarrow> work \<in> W \<Longrightarrow>
    weak_system t W s (s\<lparr>wthreads := (wthreads s)(i := (wthreads s i)\<lparr>local := start_load work\<rparr>)\<rparr>)"

text \<open>As on the sequentially consistent memory, a second system adds the threads that call \<^verbatim>\<open>peek\<close>.\<close>

inductive weak_latch_system ::
    "target \<Rightarrow> ('a \<Rightarrow> (string, 'a) outcome) set \<Rightarrow> 'a wshared \<Rightarrow> 'a wshared \<Rightarrow> bool" for t W where
  weak_sys_load: "weak_system t W s s' \<Longrightarrow> weak_latch_system t W s s'"
| weak_sys_peek: "in_peek (th_pc (local (wthreads s i))) \<Longrightarrow> weak_thread t k (mem s) (wthreads s i) = Some (m, w) \<Longrightarrow>
    weak_latch_system t W s \<lparr>mem = m, wthreads = (wthreads s)(i := w)\<rparr>"
| weak_call_peek: "\<not> in_load (th_pc (local (wthreads s i))) \<Longrightarrow> \<not> in_peek (th_pc (local (wthreads s i))) \<Longrightarrow>
    weak_latch_system t W s (s\<lparr>wthreads := (wthreads s)(i := (wthreads s i)\<lparr>local := start_peek\<rparr>)\<rparr>)"

inductive_cases weak_systemE: "weak_system t W s s'"
inductive_cases weak_latch_systemE: "weak_latch_system t W s s'"

definition weak_init :: "'a \<Rightarrow> 'a wshared \<Rightarrow> bool" where
  "weak_init d s \<longleftrightarrow>
     mem s = \<lparr>hist = [(l_state (latch_new d), no_view)], m_data = l_data (latch_new d), n_writes = 0, n_reads = 0\<rparr> \<and>
     (\<forall>i. th_pc (local (wthreads s i)) = Idle \<and> tview (wthreads s i) = no_view)"

section \<open>The invariant\<close>

text \<open>
  The invariant has a flag \<open>q\<close>, that no thread is in \<^verbatim>\<open>peek\<close>: the reads of the data are then those of
  \<^verbatim>\<open>load\<close>, and the loader knows them all when it writes.
\<close>

definition state_at :: "nat \<Rightarrow> u8" where
  "state_at k = [PT_ON_DISK, PT_LOADING, PT_IN_MEMORY] ! k"

definition stores_ok :: "'a memory \<Rightarrow> bool" where
  "stores_ok m \<longleftrightarrow> hist m \<noteq> [] \<and> length (hist m) \<le> 3 \<and>
     map fst (hist m) = take (length (hist m)) [PT_ON_DISK, PT_LOADING, PT_IN_MEMORY] \<and>
     (\<forall>k < length (hist m). seen (snd (hist m ! k)) \<le> k \<and> wrote (snd (hist m ! k)) \<le> n_writes m) \<and>
     (length (hist m) = 3 \<longrightarrow> wrote (snd (hist m ! 2)) = 1)"

definition mem_ok :: "bool \<Rightarrow> 'a \<Rightarrow> ('a \<Rightarrow> (string, 'a) outcome) set \<Rightarrow> 'a memory \<Rightarrow> bool" where
  "mem_ok q d W m \<longleftrightarrow> stores_ok m \<and> n_writes m \<le> 1 \<and>
     (length (hist m) = 1 \<longrightarrow> n_writes m = 0 \<and> (q \<longrightarrow> n_reads m = 0) \<and> m_data m = d) \<and>
     (length (hist m) = 3 \<longrightarrow> n_writes m = 1 \<and> (\<exists>w\<in>W. w d = Ok (m_data m)))"

text \<open>What a thread knows at each point, of the memory and of its own view.\<close>

fun wknows :: "bool \<Rightarrow> target \<Rightarrow> 'a \<Rightarrow> ('a \<Rightarrow> (string, 'a) outcome) \<Rightarrow> 'a memory \<Rightarrow> view \<Rightarrow> 'a pc \<Rightarrow> bool" where
  "wknows q t d w m v AtFastRead \<longleftrightarrow> seen v = 2"
| "wknows q t d w m v AtCloneForWork \<longleftrightarrow> length (hist m) = 2 \<and> seen v = 1 \<and> n_writes m = 0 \<and> (q \<longrightarrow> n_reads m = 0) \<and> m_data m = d"
| "wknows q t d w m v (AtWork x) \<longleftrightarrow> length (hist m) = 2 \<and> seen v = 1 \<and> n_writes m = 0 \<and> (q \<longrightarrow> {..<n_reads m} \<subseteq> read_ids v) \<and> m_data m = d \<and> x = d"
| "wknows q t d w m v (AtWriteBack y) \<longleftrightarrow> length (hist m) = 2 \<and> seen v = 1 \<and> n_writes m = 0 \<and> (q \<longrightarrow> {..<n_reads m} \<subseteq> read_ids v) \<and> m_data m = d \<and> w d = Ok y"
| "wknows q t d w m v (AtPublish y) \<longleftrightarrow> length (hist m) = 2 \<and> seen v = 1 \<and> n_writes m = 1 \<and> wrote v = 1 \<and> m_data m = y \<and> w d = Ok y"
| "wknows q t d w m v (Returned (Ok y)) \<longleftrightarrow> length (hist m) = 3 \<and> m_data m = y"
| "wknows q t d w m v (Returned (Err e)) \<longleftrightarrow> 2 \<le> length (hist m) \<and> w d = Err e"
| "wknows q t d w m v (Returned Panic) \<longleftrightarrow> 2 \<le> length (hist m) \<and> (debug t \<or> w d = Panic)"
| "wknows q t d w m v (Returned UB) \<longleftrightarrow> (q \<longrightarrow> 2 \<le> length (hist m) \<and> w d = UB)"
| "wknows q t d w m v AtBackoff \<longleftrightarrow> 1 \<le> seen v"
| "wknows q t d w m v (AtPeekData x) \<longleftrightarrow> x = state_at (seen v)"
| "wknows q t d w m v (Peeked x y) \<longleftrightarrow> x = state_at (seen v) \<and> (seen v = 2 \<longrightarrow> length (hist m) = 3 \<and> m_data m = y)"
| "wknows q t d w m v _ \<longleftrightarrow> True"

definition wthread_ok :: "bool \<Rightarrow> target \<Rightarrow> 'a \<Rightarrow> ('a \<Rightarrow> (string, 'a) outcome) set \<Rightarrow> 'a memory \<Rightarrow> 'a wthread \<Rightarrow> bool" where
  "wthread_ok q t d W m w \<longleftrightarrow> closures_ok W (local w) \<and> (q \<longrightarrow> \<not> in_peek (th_pc (local w))) \<and>
     seen (tview w) < length (hist m) \<and> wrote (tview w) \<le> n_writes m \<and>
     (seen (tview w) = 2 \<longrightarrow> wrote (tview w) = 1) \<and>
     wknows q t d (th_work (local w)) m (tview w) (th_pc (local w))"

definition weak_inv :: "bool \<Rightarrow> target \<Rightarrow> 'a \<Rightarrow> ('a \<Rightarrow> (string, 'a) outcome) set \<Rightarrow> 'a wshared \<Rightarrow> bool" where
  "weak_inv q t d W s \<longleftrightarrow> mem_ok q d W (mem s) \<and> (\<forall>i. wthread_ok q t d W (mem s) (wthreads s i)) \<and>
     (\<forall>i j. owner (th_pc (local (wthreads s i))) \<longrightarrow> owner (th_pc (local (wthreads s j))) \<longrightarrow> i = j)"

text \<open>What a step of one thread does to the memory, as far as the others can tell.\<close>

definition mem_change :: "bool \<Rightarrow> bool \<Rightarrow> 'a memory \<Rightarrow> 'a memory \<Rightarrow> bool" where
  "mem_change q own m m' \<longleftrightarrow> length (hist m) \<le> length (hist m') \<and> n_writes m \<le> n_writes m' \<and>
     (length (hist m) = 3 \<longrightarrow> hist m' = hist m \<and> m_data m' = m_data m) \<and>
     (length (hist m) = 2 \<longrightarrow> \<not> own \<longrightarrow>
        hist m' = hist m \<and> m_data m' = m_data m \<and> n_writes m' = n_writes m \<and> (q \<longrightarrow> n_reads m' = n_reads m))"

lemma wthread_stable:
  assumes "wthread_ok q t d W m w" and "mem_change q own m m'" and "own \<Longrightarrow> \<not> owner (th_pc (local w))"
    and "stores_ok m'"
  shows "wthread_ok q t d W m' w"
proof -
  have "wknows q t d (th_work (local w)) m' (tview w) (th_pc (local w))"
  proof (cases "owner (th_pc (local w))")
    case True
    then have "length (hist m) = 2" using assms(1) by (cases "th_pc (local w)") (auto simp: wthread_ok_def)
    then have "hist m' = hist m" "m_data m' = m_data m" "n_writes m' = n_writes m" "q \<longrightarrow> n_reads m' = n_reads m"
      using assms(2,3) True by (auto simp: mem_change_def)
    then show ?thesis using assms(1) True by (cases "th_pc (local w)") (auto simp: wthread_ok_def)
  next
    case False
    then show ?thesis
      using assms(1,2) by (cases "(q, t, d, th_work (local w), m, tview w, th_pc (local w))" rule: wknows.cases)
        (auto simp: wthread_ok_def mem_change_def)
  qed
  then show ?thesis using assms(1,2) by (auto simp: wthread_ok_def mem_change_def)
qed

text \<open>The stores, by their place in the modification order.\<close>

lemma stores_okD:
  assumes "stores_ok m" and "k < length (hist m)"
  shows "k < 3" and "fst (hist m ! k) = [PT_ON_DISK, PT_LOADING, PT_IN_MEMORY] ! k"
    and "seen (snd (hist m ! k)) \<le> k" and "wrote (snd (hist m ! k)) \<le> n_writes m"
    and "k = 2 \<Longrightarrow> wrote (snd (hist m ! k)) = 1"
proof -
  have len: "length (hist m) \<le> 3" and eq: "map fst (hist m) = take (length (hist m)) [PT_ON_DISK, PT_LOADING, PT_IN_MEMORY]"
    using assms(1) by (simp_all add: stores_ok_def)
  show "k < 3" using len assms(2) by simp
  have "fst (hist m ! k) = map fst (hist m) ! k" using assms(2) by simp
  also have "\<dots> = [PT_ON_DISK, PT_LOADING, PT_IN_MEMORY] ! k" unfolding eq using assms(2) by simp
  finally show "fst (hist m ! k) = [PT_ON_DISK, PT_LOADING, PT_IN_MEMORY] ! k" .
  show "seen (snd (hist m ! k)) \<le> k" "wrote (snd (hist m ! k)) \<le> n_writes m"
    "k = 2 \<Longrightarrow> wrote (snd (hist m ! k)) = 1"
    using assms len by (auto simp: stores_ok_def)
qed

lemma store_cases:
  assumes "stores_ok m" and "k < length (hist m)"
  shows "k = 0 \<and> fst (hist m ! k) = PT_ON_DISK \<or> k = 1 \<and> fst (hist m ! k) = PT_LOADING \<or>
    k = 2 \<and> fst (hist m ! k) = PT_IN_MEMORY"
proof -
  have "k = 0 \<or> k = 1 \<or> k = 2" using stores_okD(1) [OF assms] by linarith
  then show ?thesis using stores_okD(2) [OF assms] by auto
qed

lemma observe_ok:
  assumes "stores_ok m" and "k < length (hist m)" and "seen v \<le> k" and "wrote v \<le> n_writes m"
    and "seen v = 2 \<longrightarrow> wrote v = 1" and "n_writes m \<le> 1" and "acquires ord"
  shows "seen (observe ord m k v) = k" "wrote (observe ord m k v) \<le> n_writes m"
    "k = 2 \<longrightarrow> wrote (observe ord m k v) = 1" "read_ids v \<subseteq> read_ids (observe ord m k v)"
proof -
  note S = stores_okD [OF assms(1,2)]
  show "seen (observe ord m k v) = k" using assms(3,7) S(3) by (simp add: observe_def vjoin_def)
  show w: "wrote (observe ord m k v) \<le> n_writes m" using assms(4,7) S(4) by (simp add: observe_def vjoin_def)
  show "k = 2 \<longrightarrow> wrote (observe ord m k v) = 1"
  proof
    assume "k = 2"
    then have "1 \<le> wrote (observe ord m k v)" using assms(7) S(5) by (simp add: observe_def vjoin_def)
    then show "wrote (observe ord m k v) = 1" using w assms(6) by simp
  qed
  show "read_ids v \<subseteq> read_ids (observe ord m k v)" using assms(7) by (auto simp: observe_def vjoin_def)
qed

definition wstep_ok ::
    "bool \<Rightarrow> target \<Rightarrow> 'a \<Rightarrow> ('a \<Rightarrow> (string, 'a) outcome) set \<Rightarrow> 'a memory \<Rightarrow> 'a wthread \<Rightarrow> 'a memory \<Rightarrow> 'a wthread \<Rightarrow> bool" where
  "wstep_ok q t d W m w m' w' \<longleftrightarrow> mem_ok q d W m' \<and> wthread_ok q t d W m' w' \<and>
     mem_change q (owner (th_pc (local w))) m m' \<and> seen (tview w) \<le> seen (tview w') \<and>
     (owner (th_pc (local w')) \<longrightarrow> owner (th_pc (local w)) \<or> length (hist m) = 1)"

lemma mem_change_refl: "mem_change q own m m"
  by (simp add: mem_change_def)

lemma closures_keep:
  "closures_ok W th \<Longrightarrow> in_load (th_pc th) \<Longrightarrow> closures_ok W (th\<lparr>th_pc := p\<rparr>)"
  "closures_ok W th \<Longrightarrow> in_load (th_pc th) \<Longrightarrow> closures_ok W (th\<lparr>th_pc := p, spin_count := c, waits := ws\<rparr>)"
  by (simp_all add: closures_ok_def)

text \<open>The steps that read the state byte: the loop head and a failed compare-exchange.\<close>

lemma wstep_load:
  assumes "mem_ok q d W m" and "wthread_ok q t d W m w"
    and "th_pc (local w) = AtLoop \<or> th_pc (local w) = AtCas \<and> fst (hist m ! k) \<noteq> PT_ON_DISK \<or>
      th_pc (local w) = AtPeekState"
    and "acquires ord" and "weak_load t ord k m w = Some (m', w')"
  shows "wstep_ok q t d W m w m' w'"
proof -
  have S: "stores_ok m" "n_writes m \<le> 1" using assms(1) by (simp_all add: mem_ok_def)
  have k: "seen (tview w) \<le> k" "k < length (hist m)" and m': "m' = m"
    and w': "w' = \<lparr>local = snd (access_step t \<lparr>l_state = fst (hist m ! k), l_data = m_data m\<rparr> (local w)), tview = observe ord m k (tview w)\<rparr>"
    using assms(5) by (auto simp: weak_load_def split: if_splits)
  have V: "wrote (tview w) \<le> n_writes m" "seen (tview w) = 2 \<longrightarrow> wrote (tview w) = 1" "closures_ok W (local w)"
    "q \<longrightarrow> \<not> in_peek (th_pc (local w))"
    using assms(2) by (simp_all add: wthread_ok_def)
  note O = observe_ok [OF S(1) k(2,1) V(1,2) S(2) assms(4)]
  obtain p where p: "local w' = (local w)\<lparr>th_pc := p\<rparr>"
    "p \<in> {AtLoop, AtFastRead, AtCas, AtBackoff} \<and> in_load (th_pc (local w)) \<or> p = AtPeekData (state_at k) \<and> in_peek (th_pc (local w))"
    "p = AtFastRead \<longrightarrow> k = 2" "p = AtBackoff \<longrightarrow> k \<noteq> 0"
    using assms(3) store_cases [OF S(1) k(2)] unfolding w'
    by (auto simp: access_step_def load_step_def peek_step_def state_at_def latch_consts Let_def)
  have c: "closures_ok W (local w')" using V(3) p(1,2) by (auto simp: closures_keep closures_ok_def)
  have v: "tview w' = observe ord m k (tview w)" by (simp add: w')
  have "wthread_ok q t d W m w'"
    using O k(2) c p(2-4) V(4) unfolding wthread_ok_def v by (auto simp: p(1))
  then show ?thesis using assms(1) p(2) k(1) O(1) by (auto simp: wstep_ok_def m' p(1) v mem_change_refl)
qed

text \<open>The compare-exchange that succeeds: it reads the last store, which is the first one.\<close>

lemma wstep_claim:
  assumes "mem_ok q d W m" and "wthread_ok q t d W m w" and "th_pc (local w) = AtCas"
    and "k < length (hist m)" and "fst (hist m ! k) = PT_ON_DISK" and "weak_rmw t AcqRel k m w = Some (m', w')"
  shows "wstep_ok q t d W m w m' w'"
proof -
  have S: "stores_ok m" "n_writes m \<le> 1" using assms(1) by (simp_all add: mem_ok_def)
  have k: "k = 0" using store_cases [OF S(1) assms(4)] assms(5) by (auto simp: latch_consts)
  have len: "length (hist m) = 1" using assms(6) k by (simp add: weak_rmw_def split: if_splits)
  then obtain v0 where h: "hist m = [(PT_ON_DISK, v0)]"
    using assms(5) k by (cases "hist m") auto
  have M: "n_writes m = 0" "q \<longrightarrow> n_reads m = 0" "m_data m = d" using assms(1) len by (simp_all add: mem_ok_def)
  have v0: "seen v0 = 0" "wrote v0 = 0" using stores_okD(3,4) [OF S(1) assms(4)] k h M by simp_all
  have V: "wrote (tview w) = 0" "seen (tview w) = 0" "closures_ok W (local w)"
    using assms(2) M h by (simp_all add: wthread_ok_def)
  have step: "access_step t \<lparr>l_state = PT_ON_DISK, l_data = m_data m\<rparr> (local w) =
      (\<lparr>l_state = PT_LOADING, l_data = m_data m\<rparr>, (local w)\<lparr>th_pc := AtCloneForWork\<rparr>)"
    by (simp add: access_step_def load_step_def assms(3))
  let ?v = "(observe AcqRel m 0 (tview w))\<lparr>seen := 1\<rparr>"
  have w': "w' = \<lparr>local = (local w)\<lparr>th_pc := AtCloneForWork\<rparr>, tview = ?v\<rparr>"
    and m': "m' = m\<lparr>hist := [(PT_ON_DISK, v0), (PT_LOADING, vjoin v0 ?v)]\<rparr>"
    using assms(6) by (auto simp: weak_rmw_def step append_store_def released_def k len h Let_def split: if_splits)
  have v: "wrote ?v = 0" using V v0 by (simp add: observe_def vjoin_def h)
  have "stores_ok m'"
    using v v0 M by (auto simp: stores_ok_def m' vjoin_def less_Suc_eq numeral_2_eq_2)
  then have "mem_ok q d W m'" using M by (simp add: mem_ok_def m')
  moreover have "wthread_ok q t d W m' w'"
    using V v M assms(3) by (simp add: wthread_ok_def w' m' closures_keep)
  moreover have "mem_change q False m m'" using len by (simp add: mem_change_def m')
  ultimately show ?thesis using len V(2) by (simp add: wstep_ok_def assms(3) w')
qed

text \<open>The reads of the data in \<^verbatim>\<open>load\<close>: none of them races.\<close>

lemma wstep_read:
  assumes "mem_ok q d W m" and "wthread_ok q t d W m w"
    and "th_pc (local w) = AtFastRead \<or> th_pc (local w) = AtCloneForWork" and "weak_read t m w = (m', w')"
  shows "wstep_ok q t d W m w m' w'"
proof -
  let ?v = "(tview w)\<lparr>read_ids := insert (n_reads m) (read_ids (tview w))\<rparr>"
  have T: "closures_ok W (local w)" "seen (tview w) < length (hist m)" "wrote (tview w) \<le> n_writes m"
    "seen (tview w) = 2 \<longrightarrow> wrote (tview w) = 1" "wknows q t d (th_work (local w)) m (tview w) (th_pc (local w))"
    using assms(2) by (simp_all add: wthread_ok_def)
  have len: "length (hist m) \<le> 3" "n_writes m \<le> 1" using assms(1) by (simp_all add: mem_ok_def stores_ok_def)
  have ok: "wrote (tview w) = n_writes m" using T len assms(3) by auto
  obtain p where w': "w' = \<lparr>local = (local w)\<lparr>th_pc := p\<rparr>, tview = ?v\<rparr>" and m': "m' = m\<lparr>n_reads := n_reads m + 1\<rparr>"
    and p: "th_pc (local w) = AtFastRead \<and> p = Returned (Ok (m_data m)) \<or> th_pc (local w) = AtCloneForWork \<and> p = AtWork (m_data m)"
    using assms(3,4) ok by (auto simp: weak_read_def access_step_def load_step_def Let_def)
  have one: "length (hist m) \<noteq> 1" using T(2,5) assms(3) by auto
  have "stores_ok m'" using assms(1) by (simp add: mem_ok_def stores_ok_def m')
  then have "mem_ok q d W m'" using assms(1) one by (simp add: mem_ok_def m')
  moreover have "closures_ok W (local w')" using T(1) assms(3) by (auto simp: w' closures_keep)
  then have "wthread_ok q t d W m' w'"
    using T(2-5) len p by (auto simp: wthread_ok_def w' m')
  moreover have "mem_change q (owner (th_pc (local w))) m m'"
    using p T(2,5) len by (auto simp: mem_change_def m')
  ultimately show ?thesis using p by (auto simp: wstep_ok_def w')
qed

text \<open>
  The read of \<^verbatim>\<open>peek\<close>. After a load that returned \<^verbatim>\<open>PT_IN_MEMORY\<close> it does not race; after another it may,
  and the loader does not know of it.
\<close>

lemma wstep_peek:
  assumes "mem_ok q d W m" and "wthread_ok q t d W m w" and "th_pc (local w) = AtPeekData x" and "weak_read t m w = (m', w')"
  shows "wstep_ok q t d W m w m' w'"
proof -
  have T: "\<not> q" "seen (tview w) < length (hist m)" "wrote (tview w) \<le> n_writes m"
    "seen (tview w) = 2 \<longrightarrow> wrote (tview w) = 1" "x = state_at (seen (tview w))"
    using assms(2,3) by (simp_all add: wthread_ok_def)
  have len: "length (hist m) \<le> 3" "n_writes m \<le> 1" using assms(1) by (simp_all add: mem_ok_def stores_ok_def)
  have m': "m' = m\<lparr>n_reads := n_reads m + 1\<rparr>" and v: "seen (tview w') = seen (tview w)" "wrote (tview w') = wrote (tview w)"
    using assms(4) by (auto simp: weak_read_def racy_def Let_def split: if_splits)
  have p: "th_pc (local w') = Peeked x (m_data m) \<or> wrote (tview w) \<noteq> n_writes m \<and> th_pc (local w') = Returned UB"
    using assms(3,4) by (auto simp: weak_read_def racy_def access_step_def peek_step_def Let_def split: if_splits)
  have "seen (tview w) = 2 \<Longrightarrow> length (hist m) = 3 \<and> wrote (tview w) = n_writes m" using T(2-4) len by auto
  then have "wthread_ok q t d W m' w'"
    using T p by (auto simp: wthread_ok_def m' v closures_ok_def)
  moreover have "mem_ok q d W m'" using assms(1) T(1) by (simp add: mem_ok_def stores_ok_def m')
  ultimately show ?thesis using T(1) p by (auto simp: wstep_ok_def mem_change_def m' v)
qed

text \<open>The write of the loader, which races if a \<^verbatim>\<open>peek\<close> has read the data.\<close>

lemma wstep_write:
  assumes "mem_ok q d W m" and "wthread_ok q t d W m w" and "th_pc (local w) = AtWriteBack y" and "weak_write t m w = (m', w')"
  shows "wstep_ok q t d W m w m' w'"
proof -
  have T: "closures_ok W (local w)" "wrote (tview w) = 0" "length (hist m) = 2" "seen (tview w) = 1" "n_writes m = 0"
    "q \<longrightarrow> {..<n_reads m} \<subseteq> read_ids (tview w)" "th_work (local w) d = Ok y"
    using assms(2,3) by (simp_all add: wthread_ok_def)
  have m': "m' = m\<lparr>m_data := y, n_writes := 1\<rparr>"
    and w': "w' = (if {..<n_reads m} \<subseteq> read_ids (tview w) then \<lparr>local = (local w)\<lparr>th_pc := AtPublish y\<rparr>, tview = (tview w)\<lparr>wrote := 1\<rparr>\<rparr>
      else w\<lparr>local := (local w)\<lparr>th_pc := Returned UB\<rparr>\<rparr>)"
    using assms(3,4) T(2,5) by (auto simp: weak_write_def racy_def access_step_def load_step_def Let_def split: if_splits)
  have "stores_ok m'" using assms(1) T(3,5) by (auto simp: mem_ok_def stores_ok_def m')
  then have "mem_ok q d W m'" using T(3) by (simp add: mem_ok_def m')
  moreover have "wthread_ok q t d W m' w'" using T assms(3) by (auto simp: wthread_ok_def w' m' closures_keep)
  moreover have "mem_change q True m m'" using T by (simp add: mem_change_def m')
  ultimately show ?thesis by (simp add: wstep_ok_def w' assms(3))
qed

text \<open>
  The release store. The thread has seen the last store, so the new one can only come after it in
  the modification order, and it carries the write of the data.
\<close>

lemma wstep_publish:
  assumes "mem_ok q d W m" and "wthread_ok q t d W m w" and "th_pc (local w) = AtPublish y" and "weak_store t Release m w = (m', w')"
  shows "wstep_ok q t d W m w m' w'"
proof -
  have T: "closures_ok W (local w)" "length (hist m) = 2" "seen (tview w) = 1" "n_writes m = 1" "wrote (tview w) = 1"
    "m_data m = y" "th_work (local w) d = Ok y"
    using assms(2,3) by (simp_all add: wthread_ok_def)
  let ?v = "(tview w)\<lparr>seen := 2\<rparr>"
  have w': "w' = \<lparr>local = (local w)\<lparr>th_pc := Returned (Ok y)\<rparr>, tview = ?v\<rparr>"
    and m': "m' = m\<lparr>hist := hist m @ [(PT_IN_MEMORY, vjoin no_view ?v)]\<rparr>"
    using assms(3,4) T(2) by (auto simp: weak_store_def append_store_def released_def access_step_def load_step_def Let_def)
  have W: "th_work (local w) \<in> W" using T(1) assms(3) by (simp add: closures_ok_def)
  have "stores_ok m'" using assms(1) T(2,4,5)
    by (auto simp: mem_ok_def stores_ok_def m' vjoin_def no_view_def nth_append less_Suc_eq)
  then have "mem_ok q d W m'" using T W by (auto simp: mem_ok_def m')
  moreover have "wthread_ok q t d W m' w'" using T assms(3) by (simp add: wthread_ok_def w' m' closures_keep)
  moreover have "mem_change q True m m'" using T by (simp add: mem_change_def m')
  ultimately show ?thesis using T(3) by (simp add: wstep_ok_def w' assms(3))
qed

text \<open>The steps with no shared access: the closure and the back-off.\<close>

lemma wstep_local:
  assumes "mem_ok q d W m" and "wthread_ok q t d W m w" and "th_pc (local w) = AtWork x \<or> th_pc (local w) = AtBackoff"
  shows "wstep_ok q t d W m w m (w\<lparr>local := snd (access_step t l (local w))\<rparr>)"
proof -
  have T: "closures_ok W (local w)" "wknows q t d (th_work (local w)) m (tview w) (th_pc (local w))"
    "seen (tview w) < length (hist m)"
    using assms(2) by (simp_all add: wthread_ok_def)
  let ?th = "snd (access_step t l (local w))"
  have "th_work ?th = th_work (local w)" using assms(3) by (auto simp: access_step_def load_step_def Let_def split: outcome.splits)
  then have "closures_ok W ?th" using T(1) assms(3) by (auto simp: closures_ok_def)
  moreover have "wknows q t d (th_work ?th) m (tview w) (th_pc ?th) \<and> \<not> in_peek (th_pc ?th) \<and> (owner (th_pc ?th) \<longrightarrow> owner (th_pc (local w)))"
    using T(2,3) assms(3) by (auto simp: access_step_def load_step_def Let_def split: outcome.splits if_splits)
  ultimately show ?thesis
    using assms(1,2) by (simp add: wstep_ok_def wthread_ok_def mem_change_refl)
qed

lemma weak_thread_ok:
  assumes "mem_ok q d W m" and "wthread_ok q t d W m w" and "in_load (th_pc (local w)) \<or> in_peek (th_pc (local w))"
    and "weak_thread t k m w = Some (m', w')"
  shows "wstep_ok q t d W m w m' w'"
proof (cases "th_pc (local w)")
  case AtLoop
  then show ?thesis using assms by (intro wstep_load [OF assms(1,2)]) (auto simp: weak_thread_def)
next
  case AtPeekState
  then show ?thesis using assms by (intro wstep_load [OF assms(1,2)]) (auto simp: weak_thread_def)
next
  case AtCas
  show ?thesis
  proof (cases "k < length (hist m) \<and> fst (hist m ! k) = PT_ON_DISK")
    case True
    then show ?thesis using assms(4) AtCas by (intro wstep_claim [OF assms(1,2)]) (auto simp: weak_thread_def)
  next
    case False
    then have l: "weak_load t Acquire k m w = Some (m', w')" using assms(4) AtCas by (auto simp: weak_thread_def)
    then have "k < length (hist m)" by (simp add: weak_load_def split: if_splits)
    then show ?thesis using False AtCas by (intro wstep_load [OF assms(1,2) _ _ l]) auto
  qed
qed (use assms in \<open>auto simp: weak_thread_def intro: wstep_read wstep_peek wstep_write wstep_publish wstep_local\<close>)

lemma owner_len: "wthread_ok q t d W m w \<Longrightarrow> owner (th_pc (local w)) \<Longrightarrow> length (hist m) = 2"
  by (cases "th_pc (local w)") (auto simp: wthread_ok_def)

lemma weak_inv_exec:
  assumes "weak_inv q t d W s" and "in_load (th_pc (local (wthreads s i))) \<or> in_peek (th_pc (local (wthreads s i)))"
    and "weak_thread t k (mem s) (wthreads s i) = Some (m, w)"
  shows "weak_inv q t d W \<lparr>mem = m, wthreads = (wthreads s)(i := w)\<rparr>" and "wstep_ok q t d W (mem s) (wthreads s i) m w"
proof -
  have I: "mem_ok q d W (mem s)" "\<And>j. wthread_ok q t d W (mem s) (wthreads s j)"
    using assms(1) by (simp_all add: weak_inv_def)
  have one: "i' = j'" if "owner (th_pc (local (wthreads s i')))" "owner (th_pc (local (wthreads s j')))" for i' j'
    using assms(1) that unfolding weak_inv_def by blast
  show "wstep_ok q t d W (mem s) (wthreads s i) m w" using weak_thread_ok [OF I(1,2) assms(2,3)] .
  then have m: "mem_ok q d W m" and w: "wthread_ok q t d W m w"
    and ch: "mem_change q (owner (th_pc (local (wthreads s i)))) (mem s) m"
    and ow: "owner (th_pc (local w)) \<Longrightarrow> owner (th_pc (local (wthreads s i))) \<or> length (hist (mem s)) = 1"
    by (simp_all add: wstep_ok_def)
  have "stores_ok m" using m by (simp add: mem_ok_def)
  then have others: "wthread_ok q t d W m (wthreads s j)" if "j \<noteq> i" for j
    using that one by (intro wthread_stable [OF I(2) ch]) auto
  have free: "\<not> owner (th_pc (local (wthreads s j)))" if "owner (th_pc (local w))" "j \<noteq> i" for j
    using ow [OF that(1)] one [of i j] owner_len [OF I(2) [of j]] that(2) by auto
  show "weak_inv q t d W \<lparr>mem = m, wthreads = (wthreads s)(i := w)\<rparr>" using m w others free one by (auto simp: weak_inv_def)
qed

lemma weak_inv_call:
  assumes "weak_inv q t d W s" and "th_pc th = AtLoop \<and> th_work th \<in> W \<or> th_pc th = AtPeekState \<and> \<not> q"
  shows "weak_inv q t d W (s\<lparr>wthreads := (wthreads s)(i := (wthreads s i)\<lparr>local := th\<rparr>)\<rparr>)"
proof -
  have "wthread_ok q t d W (mem s) (wthreads s i)" using assms(1) by (simp add: weak_inv_def)
  then have "wthread_ok q t d W (mem s) ((wthreads s i)\<lparr>local := th\<rparr>)"
    using assms(2) by (auto simp: wthread_ok_def closures_ok_def)
  moreover have "\<not> owner (th_pc th)" using assms(2) by auto
  ultimately show ?thesis using assms(1) by (auto simp: weak_inv_def)
qed

lemma weak_inv_init: "weak_init d s \<Longrightarrow> weak_inv q t d W s"
  by (auto simp: weak_init_def weak_inv_def mem_ok_def stores_ok_def wthread_ok_def no_view_def latch_new_def closures_ok_def)

lemma weak_inv_load: "weak_inv q t d W s \<Longrightarrow> weak_system t W s s' \<Longrightarrow> weak_inv q t d W s'"
  by (elim weak_systemE) (auto simp: start_load_def intro: weak_inv_exec weak_inv_call)

interpretation weak: invariant_system "weak_init d" "weak_system t W" "weak_inv True t d W" for t d W
  by unfold_locales (auto intro: weak_inv_init weak_inv_load)

text \<open>
  With the callers of \<^verbatim>\<open>peek\<close>: what a thread has seen of the state byte never becomes older, and
  published data is never written again.
\<close>

definition weak_guar :: "'a wshared \<Rightarrow> 'a wshared \<Rightarrow> bool" where
  "weak_guar s s' \<longleftrightarrow> (\<forall>i. seen (tview (wthreads s i)) \<le> seen (tview (wthreads s' i))) \<and>
     (length (hist (mem s)) = 3 \<longrightarrow> hist (mem s') = hist (mem s) \<and> m_data (mem s') = m_data (mem s))"

lemma weak_guar_step:
  assumes "weak_inv q t d W s" and "weak_latch_system t W s s'"
  shows "weak_guar s s'"
proof -
  have "weak_guar s \<lparr>mem = m, wthreads = (wthreads s)(i := w)\<rparr>"
    if "in_load (th_pc (local (wthreads s i))) \<or> in_peek (th_pc (local (wthreads s i)))"
      "weak_thread t k (mem s) (wthreads s i) = Some (m, w)" for i k m w
    using weak_inv_exec(2) [OF assms(1) that] by (auto simp: weak_guar_def wstep_ok_def mem_change_def)
  then show ?thesis
    using assms(2) by (elim weak_latch_systemE weak_systemE) (auto simp: weak_guar_def)
qed

interpretation weak_peek: guarantee_system "weak_init d" "weak_latch_system t W" "weak_inv False t d W" weak_guar for t d W
proof unfold_locales
  show "weak_inv False t d W s'" if "weak_inv False t d W s" "weak_latch_system t W s s'" for s s'
    using that by (elim weak_latch_systemE) (auto simp: start_peek_def intro: weak_inv_load weak_inv_exec weak_inv_call)
  show "weak_guar s s''" if "weak_guar s s'" "weak_guar s' s''" for s s' s'' :: "'a wshared"
    using that unfolding weak_guar_def by (metis order_trans)
  show "weak_guar s s'" if "weak_inv False t d W s" "weak_latch_system t W s s'" for s s' using that by (rule weak_guar_step)
qed (auto intro: weak_inv_init simp: weak_guar_def)

end
