(* ===== verification/Memory_Properties.thy ===== *)
theory Memory_Properties
  imports Latch_Memory
begin

text \<open>
  What the latch guarantees on the memory the code's orderings describe: executions as schedules
  that name the store each load reads, absence of data races and agreement for the callers of
  \<^verbatim>\<open>load\<close>, and what \<^verbatim>\<open>peek\<close> may and may not be relied on for.
\<close>

section \<open>Executions\<close>

text \<open>A schedule: which thread takes the next step, and which store it reads.\<close>

fun wrun :: "bool \<Rightarrow> target \<Rightarrow> (nat \<times> nat) list \<Rightarrow> 'a wshared \<Rightarrow> 'a wshared option" where
  "wrun q t [] s = Some s"
| "wrun q t ((i, k) # sched) s =
     (if in_load (th_pc (local (wthreads s i))) \<or> \<not> q \<and> in_peek (th_pc (local (wthreads s i)))
      then (case weak_thread t k (mem s) (wthreads s i) of
              Some (m, w) \<Rightarrow> wrun q t sched \<lparr>mem = m, wthreads = (wthreads s)(i := w)\<rparr>
            | None \<Rightarrow> None)
      else None)"

lemma reach_wrun_step:
  assumes "wrun q t sched s = Some s'" and "R s"
    and "\<And>s i k m w. R s \<Longrightarrow> in_load (th_pc (local (wthreads s i))) \<or> \<not> q \<and> in_peek (th_pc (local (wthreads s i))) \<Longrightarrow>
      weak_thread t k (mem s) (wthreads s i) = Some (m, w) \<Longrightarrow> R \<lparr>mem = m, wthreads = (wthreads s)(i := w)\<rparr>"
  shows "R s'"
  using assms
proof (induction q t sched s rule: wrun.induct)
  case (2 q t i k sched s)
  from 2(2) obtain m w where i: "in_load (th_pc (local (wthreads s i))) \<or> \<not> q \<and> in_peek (th_pc (local (wthreads s i)))"
    "weak_thread t k (mem s) (wthreads s i) = Some (m, w)"
    "wrun q t sched \<lparr>mem = m, wthreads = (wthreads s)(i := w)\<rparr> = Some s'"
    by (auto split: if_splits option.splits)
  show ?case by (rule 2(1) [OF i(1,2) refl i(3) 2(4) [OF 2(3) i(1,2)] 2(4)])
qed simp

lemma reach_wrun:
  "reach I (weak_system t W) s \<Longrightarrow> wrun True t sched s = Some s' \<Longrightarrow> reach I (weak_system t W) s'"
  by (erule reach_wrun_step) (auto intro: reach_step weak_exec)

lemma reach_wrun_peek:
  "reach I (weak_latch_system t W) s \<Longrightarrow> wrun False t sched s = Some s' \<Longrightarrow> reach I (weak_latch_system t W) s'"
  by (erule reach_wrun_step) (auto intro: reach_step weak_sys_load weak_exec weak_sys_peek)

definition weak_two_loads :: "'a \<Rightarrow> ('a \<Rightarrow> (string, 'a) outcome) \<Rightarrow> 'a wshared" where
  "weak_two_loads d w =
     \<lparr>mem = \<lparr>hist = [(PT_ON_DISK, no_view)], m_data = d, n_writes = 0, n_reads = 0\<rparr>,
      wthreads = (\<lambda>i. \<lparr>local = (if i < 2 then start_load w else \<lparr>th_pc = Idle, spin_count = 0, waits = [], th_work = w\<rparr>), tview = no_view\<rparr>)\<rparr>"

lemma reach_weak_two_loads:
  assumes "w \<in> W"
  shows "reach (weak_init d) (weak_system t W) (weak_two_loads d w)"
proof -
  let ?idle = "\<lparr>local = \<lparr>th_pc = Idle, spin_count = 0, waits = [], th_work = w\<rparr>, tview = no_view\<rparr>"
  define s0 where "s0 = (weak_two_loads d w)\<lparr>wthreads := \<lambda>i. ?idle\<rparr>"
  define s1 where "s1 = s0\<lparr>wthreads := (wthreads s0)(0 := (wthreads s0 0)\<lparr>local := start_load w\<rparr>)\<rparr>"
  define s2 where "s2 = s1\<lparr>wthreads := (wthreads s1)(1 := (wthreads s1 1)\<lparr>local := start_load w\<rparr>)\<rparr>"
  have "reach (weak_init d) (weak_system t W) s0"
    by (rule reach_init) (simp add: weak_init_def s0_def weak_two_loads_def latch_new_def)
  then have "reach (weak_init d) (weak_system t W) s1" unfolding s1_def
    by (rule reach_step) (rule weak_call; simp add: s0_def assms)
  then have "reach (weak_init d) (weak_system t W) s2" unfolding s2_def
    by (rule reach_step) (rule weak_call; simp add: s1_def s0_def assms)
  moreover have "s2 = weak_two_loads d w"
    by (auto simp: s2_def s1_def s0_def weak_two_loads_def)
  ultimately show ?thesis by simp
qed

lemma steps_wrun_peek:
  "(weak_latch_system t W)\<^sup>*\<^sup>* s s1 \<Longrightarrow> wrun False t sched s1 = Some s' \<Longrightarrow> (weak_latch_system t W)\<^sup>*\<^sup>* s s'"
  by (erule reach_wrun_step) (auto intro: rtranclp.rtrancl_into_rtrancl weak_sys_load weak_exec weak_sys_peek)

text \<open>One thread that calls \<^verbatim>\<open>load\<close> and one that calls \<^verbatim>\<open>peek\<close>.\<close>

definition weak_load_peek :: "'a \<Rightarrow> ('a \<Rightarrow> (string, 'a) outcome) \<Rightarrow> 'a wshared" where
  "weak_load_peek d w =
     \<lparr>mem = \<lparr>hist = [(PT_ON_DISK, no_view)], m_data = d, n_writes = 0, n_reads = 0\<rparr>,
      wthreads = (\<lambda>i. \<lparr>local = (if i = 0 then start_load w else if i = 1 then start_peek
        else \<lparr>th_pc = Idle, spin_count = 0, waits = [], th_work = w\<rparr>), tview = no_view\<rparr>)\<rparr>"

lemma reach_weak_load_peek:
  assumes "w \<in> W"
  shows "reach (weak_init d) (weak_latch_system t W) (weak_load_peek d w)"
proof -
  let ?idle = "\<lparr>local = \<lparr>th_pc = Idle, spin_count = 0, waits = [], th_work = w\<rparr>, tview = no_view\<rparr>"
  define s0 where "s0 = (weak_load_peek d w)\<lparr>wthreads := \<lambda>i. ?idle\<rparr>"
  define s1 where "s1 = s0\<lparr>wthreads := (wthreads s0)(0 := (wthreads s0 0)\<lparr>local := start_load w\<rparr>)\<rparr>"
  define s2 where "s2 = s1\<lparr>wthreads := (wthreads s1)(1 := (wthreads s1 1)\<lparr>local := start_peek\<rparr>)\<rparr>"
  have "reach (weak_init d) (weak_latch_system t W) s0"
    by (rule reach_init) (simp add: weak_init_def s0_def weak_load_peek_def latch_new_def)
  then have "reach (weak_init d) (weak_latch_system t W) s1" unfolding s1_def
    by (rule reach_step) (rule weak_sys_load, rule weak_call; simp add: s0_def assms)
  then have "reach (weak_init d) (weak_latch_system t W) s2" unfolding s2_def
    by (rule reach_step) (rule weak_call_peek; simp add: s1_def s0_def)
  moreover have "s2 = weak_load_peek d w"
    by (auto simp: s2_def s1_def s0_def weak_load_peek_def)
  ultimately show ?thesis by simp
qed

lemmas weak_eval = weak_load_peek_def peek_step_def start_peek_def racy_def weak_two_loads_def weak_thread_def weak_load_def weak_rmw_def weak_store_def weak_read_def
  weak_write_def observe_def released_def append_store_def vjoin_def no_view_def access_step_def load_step_def start_load_def
  latch_consts lessThan_Suc Let_def

section \<open>Properties\<close>

text \<open>
  C15: Under the orderings of the code no execution of \<^verbatim>\<open>load\<close> has a data race. However stale the
  stores are that the threads read, every access of the data is ordered by happens-before after
  the conflicting ones: a thread whose call ends in undefined behaviour has a closure that does.
\<close>

theorem weak_memory_race_free:
  assumes "reach (weak_init d) (weak_system t W) s" and "th_pc (local (wthreads s i)) = Returned UB"
  shows "th_work (local (wthreads s i)) d = UB"
proof -
  have "wthread_ok True t d W (mem s) (wthreads s i)" using weak.reach_inv [OF assms(1)] by (simp add: weak_inv_def)
  then show ?thesis using assms(2) by (simp add: wthread_ok_def)
qed

theorem weak_memory_race_free_witness:
  "\<exists>s. reach (weak_init (3 :: nat)) (weak_system \<lparr>debug = True, big_endian = False\<rparr> {\<lambda>d. UB}) s \<and>
     th_work (local (wthreads s 0)) 3 = UB"
proof -
  let ?t = "\<lparr>debug = True, big_endian = False\<rparr>" and ?w = "\<lambda>d :: nat. (UB :: (string, nat) outcome)"
  obtain s where s: "wrun True ?t [(0, 0), (0, 0), (0, 0), (0, 0)] (weak_two_loads 3 ?w) = Some s"
    and u: "th_pc (local (wthreads s 0)) = Returned UB"
    by (simp add: weak_eval)
  have r: "reach (weak_init 3) (weak_system ?t {?w}) s" by (rule reach_wrun [OF reach_weak_two_loads s]) simp
  from r weak_memory_race_free [OF r u] show ?thesis by blast
qed

text \<open>
  C6: Under the orderings of the code the calls agree. All calls of \<^verbatim>\<open>load\<close> that return a value
  return the same one, and it is what one of the closures makes of the initial data, although a
  thread may read old stores of the state byte.
\<close>

theorem weak_memory_agreement:
  assumes "reach (weak_init d) (weak_system t W) s"
    and "th_pc (local (wthreads s i)) = Returned (Ok v)" and "th_pc (local (wthreads s j)) = Returned (Ok u)"
  shows "u = v \<and> (\<exists>w\<in>W. w d = Ok v)"
proof -
  have I: "weak_inv True t d W s" by (rule weak.reach_inv [OF assms(1)])
  have k: "wknows True t d (th_work (local (wthreads s x))) (mem s) (tview (wthreads s x)) (th_pc (local (wthreads s x)))" for x
    using I by (simp add: weak_inv_def wthread_ok_def)
  have "length (hist (mem s)) = 3" "m_data (mem s) = v" "m_data (mem s) = u" using k [of i] k [of j] assms(2,3) by simp_all
  then show ?thesis using I by (auto simp: weak_inv_def mem_ok_def)
qed

theorem weak_memory_agreement_witness:
  "\<exists>s. reach (weak_init (3 :: nat)) (weak_system \<lparr>debug = True, big_endian = False\<rparr> {\<lambda>d. Ok (d + 1)}) s \<and>
     th_pc (local (wthreads s 0)) = Returned (Ok 4) \<and> th_pc (local (wthreads s 1)) = Returned (Ok 4) \<and>
     (\<exists>w\<in>{\<lambda>d. Ok (d + 1)}. w (3 :: nat) = (Ok 4 :: (string, nat) outcome))"
proof -
  let ?t = "\<lparr>debug = True, big_endian = False\<rparr>" and ?w = "\<lambda>d :: nat. (Ok (d + 1) :: (string, nat) outcome)"
  obtain s where s: "wrun True ?t [(0, 0), (0, 0), (0, 0), (0, 0), (0, 0), (0, 0)] (weak_two_loads 3 ?w) = Some s"
    and h: "hist (mem s) = [(0, no_view), (1, \<lparr>seen = 1, wrote = 0, read_ids = {}\<rparr>), (2, \<lparr>seen = 2, wrote = 1, read_ids = {0}\<rparr>)]"
    and M: "m_data (mem s) = 4" "n_writes (mem s) = 1"
    and T: "th_pc (local (wthreads s 0)) = Returned (Ok 4)" "wthreads s 1 = \<lparr>local = start_load ?w, tview = no_view\<rparr>"
    by (simp add: weak_eval)
  obtain s' where s': "wrun True ?t [(1, 0), (1, 1), (1, 2), (1, 0)] s = Some s'"
    and u: "th_pc (local (wthreads s' 0)) = Returned (Ok 4)" "th_pc (local (wthreads s' 1)) = Returned (Ok 4)"
    using T h M by (simp add: weak_eval)
  have r: "reach (weak_init 3) (weak_system ?t {?w}) s'"
    by (rule reach_wrun [OF reach_wrun [OF reach_weak_two_loads s] s']) simp
  show ?thesis by (rule exI [of _ s'], intro conjI r u weak_memory_agreement [OF r u, THEN conjunct2])
qed

text \<open>What the invariant says of a thread in a system with callers of \<^verbatim>\<open>peek\<close>.\<close>

lemma weak_peekD:
  assumes "reach (weak_init d) (weak_latch_system t W) s"
  shows "mem_ok False d W (mem s)" and "wthread_ok False t d W (mem s) (wthreads s i)"
  using weak_peek.reach_inv [OF assms] by (simp_all add: weak_inv_def)

lemma state_at_seen:
  assumes "mem_ok q d W m" and "wthread_ok q t d W m w"
  shows "seen (tview w) < 3" and "state_at (seen (tview w)) = of_nat (seen (tview w))"
proof -
  show "seen (tview w) < 3" using assms by (simp add: mem_ok_def stores_ok_def wthread_ok_def)
  then have "seen (tview w) = 0 \<or> seen (tview w) = 1 \<or> seen (tview w) = 2" by linarith
  then show "state_at (seen (tview w)) = of_nat (seen (tview w))" by (auto simp: state_at_def latch_consts)
qed

lemma state_in_memory:
  assumes "mem_ok q d W m" and "wthread_ok q t d W m w"
  shows "state_at (seen (tview w)) = PT_IN_MEMORY \<longleftrightarrow> seen (tview w) = 2"
proof -
  have "seen (tview w) = 0 \<or> seen (tview w) = 1 \<or> seen (tview w) = 2" using state_at_seen(1) [OF assms] by linarith
  then show ?thesis by (auto simp: state_at_def latch_consts)
qed

text \<open>
  C16: \<^verbatim>\<open>peek\<close> is sound once its load of the state byte has returned \<^verbatim>\<open>PT_IN_MEMORY\<close>. Under the
  orderings of the code, and whatever other threads load and peek, its read of the data then does
  not race; it returns the loaded value, which is what one of the closures makes of the initial
  data and what every call of \<^verbatim>\<open>load\<close> that has returned a value has returned.
\<close>

theorem weak_peek_loaded:
  assumes "reach (weak_init d) (weak_latch_system t W) s" and "th_pc (local (wthreads s i)) = AtPeekData PT_IN_MEMORY"
  shows "\<exists>m w v. weak_thread t k (mem s) (wthreads s i) = Some (m, w) \<and> th_pc (local w) = Peeked PT_IN_MEMORY v \<and>
    (\<exists>f\<in>W. f d = Ok v) \<and> (\<forall>j u. th_pc (local (wthreads s j)) = Returned (Ok u) \<longrightarrow> u = v)"
proof -
  note I = weak_peekD [OF assms(1)]
  have s2: "seen (tview (wthreads s i)) = 2"
    using I(2) [of i] assms(2) state_in_memory [OF I(1) I(2) [of i]] by (simp add: wthread_ok_def)
  then have len: "length (hist (mem s)) = 3" "wrote (tview (wthreads s i)) = 1"
    using I(2) [of i] I(1) by (auto simp: wthread_ok_def mem_ok_def stores_ok_def)
  then have M: "n_writes (mem s) = 1" "\<exists>f\<in>W. f d = Ok (m_data (mem s))" using I(1) by (simp_all add: mem_ok_def)
  obtain m w where "weak_thread t k (mem s) (wthreads s i) = Some (m, w)" "th_pc (local w) = Peeked PT_IN_MEMORY (m_data (mem s))"
    using assms(2) len M(1) by (simp add: weak_thread_def weak_read_def access_step_def peek_step_def Let_def)
  moreover have "u = m_data (mem s)" if "th_pc (local (wthreads s j)) = Returned (Ok u)" for j u
    using I(2) [of j] that by (simp add: wthread_ok_def)
  ultimately show ?thesis using M(2) by blast
qed

theorem weak_peek_loaded_witness:
  "\<exists>s m w. reach (weak_init (3 :: nat)) (weak_latch_system \<lparr>debug = True, big_endian = False\<rparr> {\<lambda>d. Ok (d + 1)}) s \<and>
     weak_thread \<lparr>debug = True, big_endian = False\<rparr> 0 (mem s) (wthreads s 1) = Some (m, w) \<and>
     th_pc (local w) = Peeked PT_IN_MEMORY 4"
proof -
  let ?t = "\<lparr>debug = True, big_endian = False\<rparr>" and ?w = "\<lambda>d :: nat. (Ok (d + 1) :: (string, nat) outcome)"
  obtain s where s: "wrun False ?t [(0, 0), (0, 0), (0, 0), (0, 0), (0, 0), (0, 0), (1, 2)] (weak_load_peek 3 ?w) = Some s"
    and u: "th_pc (local (wthreads s 1)) = AtPeekData PT_IN_MEMORY"
    by (simp add: weak_eval)
  have r: "reach (weak_init 3) (weak_latch_system ?t {?w}) s" by (rule reach_wrun_peek [OF reach_weak_load_peek s]) simp
  from weak_peek_loaded [OF r u, of 0] r show ?thesis by auto
qed

text \<open>
  C17: The states a thread observes never go back. If two calls of \<^verbatim>\<open>peek\<close> of one thread return one
  after the other, whatever happens in between, the second returns a state at least as far as the
  first; and once one has returned \<^verbatim>\<open>PT_IN_MEMORY\<close>, the later ones return the same state and data.
\<close>

theorem weak_peek_monotone:
  assumes "reach (weak_init d) (weak_latch_system t W) s" and "(weak_latch_system t W)\<^sup>*\<^sup>* s s'"
    and "th_pc (local (wthreads s i)) = Peeked x v" and "th_pc (local (wthreads s' i)) = Peeked y u"
  shows "x \<le> y \<and> (x = PT_IN_MEMORY \<longrightarrow> y = PT_IN_MEMORY \<and> u = v)"
proof -
  have r': "reach (weak_init d) (weak_latch_system t W) s'"
    using assms(2,1) by (induction rule: rtranclp_induct) (auto intro: reach_step)
  note I = weak_peekD [OF assms(1)] and I' = weak_peekD [OF r']
  note S = state_at_seen [OF I(1) I(2) [of i]] and S' = state_at_seen [OF I'(1) I'(2) [of i]]
  have k: "x = state_at (seen (tview (wthreads s i)))" "y = state_at (seen (tview (wthreads s' i)))"
    using I(2) [of i] I'(2) [of i] assms(3,4) by (simp_all add: wthread_ok_def)
  have g: "weak_guar s s'" by (rule weak_peek.reach_guar [OF assms(1,2)])
  then have le: "seen (tview (wthreads s i)) \<le> seen (tview (wthreads s' i))" by (simp add: weak_guar_def)
  then have "x \<le> y" unfolding k S(2) S'(2) using S(1) S'(1) by (simp add: word_le_nat_alt unat_of_nat)
  moreover have "y = PT_IN_MEMORY \<and> u = v" if "x = PT_IN_MEMORY"
  proof -
    have s2: "seen (tview (wthreads s i)) = 2" using that state_in_memory [OF I(1) I(2) [of i]] k(1) by simp
    then have s2': "seen (tview (wthreads s' i)) = 2" using le S'(1) by simp
    then have "y = PT_IN_MEMORY" using state_in_memory [OF I'(1) I'(2) [of i]] k(2) by simp
    moreover have "length (hist (mem s)) = 3" "m_data (mem s) = v" "m_data (mem s') = u"
      using I(2) [of i] I'(2) [of i] assms(3,4) s2 s2' by (simp_all add: wthread_ok_def)
    ultimately show ?thesis using g by (simp add: weak_guar_def)
  qed
  ultimately show ?thesis by blast
qed

theorem weak_peek_monotone_witness:
  "\<exists>s s'. reach (weak_init (3 :: nat)) (weak_latch_system \<lparr>debug = True, big_endian = False\<rparr> {\<lambda>d. Ok (d + 1)}) s \<and>
     (weak_latch_system \<lparr>debug = True, big_endian = False\<rparr> {\<lambda>d. Ok (d + 1)})\<^sup>*\<^sup>* s s' \<and>
     th_pc (local (wthreads s 1)) = Peeked PT_IN_MEMORY 4 \<and> th_pc (local (wthreads s' 1)) = Peeked PT_IN_MEMORY 4"
proof -
  let ?t = "\<lparr>debug = True, big_endian = False\<rparr>" and ?w = "\<lambda>d :: nat. (Ok (d + 1) :: (string, nat) outcome)"
  obtain s where s: "wrun False ?t [(0, 0), (0, 0), (0, 0), (0, 0), (0, 0), (0, 0), (1, 2), (1, 0)] (weak_load_peek 3 ?w) = Some s"
    and u: "th_pc (local (wthreads s 1)) = Peeked PT_IN_MEMORY 4" and h: "length (hist (mem s)) = 3" "n_writes (mem s) = 1"
    and v: "seen (tview (wthreads s 1)) = 2" "wrote (tview (wthreads s 1)) = 1" "snd (hist (mem s) ! 2) = \<lparr>seen = 2, wrote = 1, read_ids = {0}\<rparr>"
    by (simp add: weak_eval)
  have r: "reach (weak_init 3) (weak_latch_system ?t {?w}) s" by (rule reach_wrun_peek [OF reach_weak_load_peek s]) simp
  define s1 where "s1 = s\<lparr>wthreads := (wthreads s)(1 := (wthreads s 1)\<lparr>local := start_peek\<rparr>)\<rparr>"
  have c: "weak_latch_system ?t {?w} s s1" unfolding s1_def by (rule weak_call_peek; unfold u; simp)
  obtain s' y x where s': "wrun False ?t [(1, 2), (1, 0)] s1 = Some s'" and u': "th_pc (local (wthreads s' 1)) = Peeked y x"
    using h v by (simp add: weak_eval s1_def)
  have st: "(weak_latch_system ?t {?w})\<^sup>*\<^sup>* s s'" by (rule steps_wrun_peek [OF _ s']) (use c in auto)
  have "y = PT_IN_MEMORY \<and> x = 4" using weak_peek_monotone [OF r st u u'] by simp
  then show ?thesis using r st u u' by blast
qed

text \<open>
  C37: \<^verbatim>\<open>peek\<close> makes the latch undefined. Whenever a closure can succeed there is an execution that
  brings the loader to its write of the data after a \<^verbatim>\<open>peek\<close> has read them, and this write is then
  undefined, a race with the earlier read; and there is an execution that brings a \<^verbatim>\<open>peek\<close> to its read of the
  data after the loader has written them, its acquire load of the state having returned
  \<^verbatim>\<open>PT_LOADING\<close>, and this read is then undefined.
\<close>

theorem weak_peek_races:
  assumes "w \<in> W" and "w d = Ok v"
  shows "(\<exists>s m th. reach (weak_init d) (weak_latch_system t W) s \<and> th_pc (local (wthreads s 1)) = Peeked PT_ON_DISK d \<and>
      th_pc (local (wthreads s 0)) = AtWriteBack v \<and>
      weak_thread t k (mem s) (wthreads s 0) = Some (m, th) \<and> th_pc (local th) = Returned UB) \<and>
    (\<exists>s m th. reach (weak_init d) (weak_latch_system t W) s \<and> th_pc (local (wthreads s 0)) = AtPublish v \<and>
      th_pc (local (wthreads s 1)) = AtPeekData PT_LOADING \<and>
      weak_thread t k (mem s) (wthreads s 1) = Some (m, th) \<and> th_pc (local th) = Returned UB)"
proof -
  note R = reach_wrun_peek [OF reach_weak_load_peek [OF assms(1), of d t]]
  obtain s m th where s: "wrun False t [(0, 0), (0, 0), (0, 0), (0, 0), (1, 0), (1, 0)] (weak_load_peek d w) = Some s"
    "th_pc (local (wthreads s 1)) = Peeked PT_ON_DISK d" "th_pc (local (wthreads s 0)) = AtWriteBack v"
    "weak_thread t k (mem s) (wthreads s 0) = Some (m, th)" "th_pc (local th) = Returned UB"
    using assms(2) by (simp add: weak_eval)
  obtain s' m' th' where s': "wrun False t [(0, 0), (0, 0), (0, 0), (0, 0), (0, 0), (1, 1)] (weak_load_peek d w) = Some s'"
    "th_pc (local (wthreads s' 0)) = AtPublish v" "th_pc (local (wthreads s' 1)) = AtPeekData PT_LOADING"
    "weak_thread t k (mem s') (wthreads s' 1) = Some (m', th')" "th_pc (local th') = Returned UB"
    using assms(2) by (simp add: weak_eval)
  show ?thesis using R [OF s(1)] R [OF s'(1)] s(2-) s'(2-) by blast
qed

theorem weak_peek_races_witness:
  "\<exists>s m th. reach (weak_init (3 :: nat)) (weak_latch_system \<lparr>debug = False, big_endian = False\<rparr> {\<lambda>d. Ok (d + 1)}) s \<and>
     th_pc (local (wthreads s 0)) = AtWriteBack 4 \<and>
     weak_thread \<lparr>debug = False, big_endian = False\<rparr> 0 (mem s) (wthreads s 0) = Some (m, th) \<and> th_pc (local th) = Returned UB"
  using weak_peek_races [of "\<lambda>d. Ok (d + 1)" "{\<lambda>d. Ok (d + 1)}" "3 :: nat" 4 "\<lparr>debug = False, big_endian = False\<rparr>" 0] by auto

end
