(* ===== verification/Memory_Refinement.thy ===== *)
theory Memory_Refinement
  imports Memory_Properties
begin

text \<open>
  The latch on the memory its orderings describe refines the latch on interleavings: a weak
  execution of \<^verbatim>\<open>load\<close> is mapped, each step to none, one or several, to an interleaving with the same memory and the same
  results, in which a thread reads the state byte only when it acts on it.
\<close>

section \<open>The mapping\<close>

text \<open>A thread that has read a state and not acted on it is back at the loop.\<close>

fun sc_pc :: "'a pc \<Rightarrow> 'a pc" where
  "sc_pc AtFastRead = AtLoop"
| "sc_pc AtCas = AtLoop"
| "sc_pc AtBackoff = AtLoop"
| "sc_pc p = p"

definition sc_thread :: "'a thread \<Rightarrow> 'a thread" where
  "sc_thread th = \<lparr>th_pc = sc_pc (th_pc th), spin_count = 0, waits = [], th_work = th_work th\<rparr>"

definition sc_latch :: "'a memory \<Rightarrow> 'a PageTableLatch" where
  "sc_latch m = \<lparr>l_state = fst (last (hist m)), l_data = m_data m\<rparr>"

definition sc_of :: "'a wshared \<Rightarrow> 'a shared" where
  "sc_of s = \<lparr>latch = sc_latch (mem s), threads = (\<lambda>i. sc_thread (local (wthreads s i)))\<rparr>"

section \<open>The simulation\<close>

text \<open>Steps of one thread, and what they do in a system.\<close>

definition thread_step :: "target \<Rightarrow> 'a PageTableLatch \<times> 'a thread \<Rightarrow> 'a PageTableLatch \<times> 'a thread \<Rightarrow> bool" where
  "thread_step t x y \<longleftrightarrow> in_load (th_pc (snd x)) \<and> load_step t (fst x) (snd x) = y"

lemma thread_steps_system:
  assumes "(thread_step t)\<^sup>*\<^sup>* (latch S, threads S i) (l, th)"
  shows "(load_system t W)\<^sup>*\<^sup>* S (S\<lparr>latch := l, threads := (threads S)(i := th)\<rparr>)"
  using assms
proof (induction "(l, th)" arbitrary: l th rule: rtranclp_induct)
  case base
  then show ?case by simp
next
  case (step y)
  let ?S = "S\<lparr>latch := fst y, threads := (threads S)(i := snd y)\<rparr>"
  have "load_system t W ?S (exec t i ?S)"
    using step.hyps(2) by (intro exec_load) (simp add: thread_step_def)
  moreover have "exec t i ?S = S\<lparr>latch := l, threads := (threads S)(i := th)\<rparr>"
  proof -
    have "\<not> in_peek (th_pc (snd y))" using step.hyps(2) by (cases "th_pc (snd y)") (simp_all add: thread_step_def)
    then show ?thesis using step.hyps(2) by (simp add: exec_def thread_step_def)
  qed
  ultimately show ?case using step.hyps(3) [of "fst y" "snd y"] by (auto intro: rtranclp.rtrancl_into_rtrancl)
qed

lemma one_step: "thread_step t x y \<Longrightarrow> (thread_step t)\<^sup>*\<^sup>* x y"
  by (rule r_into_rtranclp)

lemma two_steps: "thread_step t x y \<Longrightarrow> thread_step t y z \<Longrightarrow> (thread_step t)\<^sup>*\<^sup>* x z"
  by (meson rtranclp.simps)

text \<open>A step that acts on nothing shared is mapped to no step, an action to one or two.\<close>

lemma sim_step:
  assumes "\<not> debug t" and "mem_ok True d W m" and "wthread_ok True t d W m w" and "in_load (th_pc (local w))"
    and "weak_thread t k m w = Some (m', w')"
  shows "(thread_step t)\<^sup>*\<^sup>* (sc_latch m, sc_thread (local w)) (sc_latch m', sc_thread (local w'))"
proof (cases "th_pc (local w)")
  case AtLoop
  then have "weak_load t Acquire k m w = Some (m', w')" using assms(5) by (simp add: weak_thread_def)
  then have k: "k < length (hist m)" "m' = m"
    "local w' = snd (load_step t \<lparr>l_state = fst (hist m ! k), l_data = m_data m\<rparr> (local w))"
    using AtLoop by (auto simp: weak_load_def access_step_def split: if_splits)
  have "stores_ok m" using assms(2) by (simp add: mem_ok_def)
  from store_cases [OF this k(1)] have "sc_thread (local w') = sc_thread (local w)"
    using AtLoop by (auto simp: k(3) load_step_def sc_thread_def latch_consts Let_def)
  then show ?thesis by (simp add: k(2))
next
  case AtCas
  have S: "stores_ok m" using assms(2) by (simp add: mem_ok_def)
  show ?thesis
  proof (cases "k < length (hist m) \<and> fst (hist m ! k) = PT_ON_DISK")
    case True
    then have c: "weak_rmw t AcqRel k m w = Some (m', w')" using assms(5) AtCas by (simp add: weak_thread_def)
    have "k = 0" using store_cases [OF S, of k] True by (auto simp: latch_consts)
    then have "length (hist m) = 1" using c by (simp add: weak_rmw_def split: if_splits)
    then obtain v where h: "hist m = [(PT_ON_DISK, v)]" using True \<open>k = 0\<close> by (cases "hist m") auto
    have m': "sc_latch m' = \<lparr>l_state = PT_LOADING, l_data = m_data m\<rparr>" "local w' = (local w)\<lparr>th_pc := AtCloneForWork\<rparr>"
      using c AtCas \<open>k = 0\<close> h
      by (auto simp: weak_rmw_def append_store_def access_step_def load_step_def sc_latch_def Let_def split: if_splits)
    show ?thesis
      by (rule two_steps [of _ _ "(sc_latch m, (sc_thread (local w))\<lparr>th_pc := AtCas\<rparr>)"])
        (simp_all add: thread_step_def sc_thread_def sc_latch_def AtCas h load_step_def latch_consts m' [unfolded latch_consts sc_latch_def])
  next
    case False
    then have "weak_load t Acquire k m w = Some (m', w')" using assms(5) AtCas by (auto simp: weak_thread_def)
    then have "k < length (hist m)" "m' = m" "local w' = snd (load_step t \<lparr>l_state = fst (hist m ! k), l_data = m_data m\<rparr> (local w))"
      using AtCas by (auto simp: weak_load_def access_step_def split: if_splits)
    then have "sc_thread (local w') = sc_thread (local w)" "m' = m"
      using False AtCas by (auto simp: load_step_def sc_thread_def)
    then show ?thesis by simp
  qed
next
  case AtFastRead
  have s: "seen (tview w) = 2" "wrote (tview w) = 1" "2 < length (hist m)" using assms(3) AtFastRead by (simp_all add: wthread_ok_def)
  have len: "length (hist m) = 3" "n_writes m = 1" using assms(2) s by (auto simp: mem_ok_def stores_ok_def)
  have "fst (hist m ! 2) = PT_IN_MEMORY" using stores_okD(2) [of m 2] assms(2) len by (simp add: mem_ok_def)
  then have last: "fst (last (hist m)) = PT_IN_MEMORY" using len by (cases "hist m" rule: rev_cases) (auto simp: nth_append)
  have e: "sc_latch m' = sc_latch m" "local w' = (local w)\<lparr>th_pc := Returned (Ok (m_data m))\<rparr>"
    using assms(5) AtFastRead s len
    by (auto simp: weak_thread_def weak_read_def access_step_def load_step_def sc_latch_def Let_def split: if_splits)
  show ?thesis
    by (rule two_steps [of _ _ "(sc_latch m, (sc_thread (local w))\<lparr>th_pc := AtFastRead\<rparr>)"])
      (simp_all add: thread_step_def sc_thread_def AtFastRead load_step_def e, simp_all add: sc_latch_def last)
next
  case AtBackoff
  then have "m' = m" "sc_thread (local w') = sc_thread (local w)"
    using assms(1,5) by (auto simp: weak_thread_def access_step_def load_step_def sc_thread_def Let_def)
  then show ?thesis by simp
qed (use assms in \<open>auto simp: weak_thread_def wthread_ok_def weak_read_def weak_write_def weak_store_def append_store_def racy_def access_step_def load_step_def
    sc_latch_def sc_thread_def thread_step_def Let_def intro!: one_step split: outcome.splits if_splits\<close>)

lemma sim_system:
  assumes "\<not> debug t" and "weak_inv True t d W s" and "weak_system t W s s'"
  shows "(load_system t W)\<^sup>*\<^sup>* (sc_of s) (sc_of s')"
  using assms(3)
proof (cases rule: weak_system.cases)
  case (weak_exec i k m w)
  have "(thread_step t)\<^sup>*\<^sup>* (latch (sc_of s), threads (sc_of s) i) (sc_latch m, sc_thread (local w))"
    using sim_step [OF assms(1) _ _ weak_exec(2,3), of d W] assms(2) by (simp add: weak_inv_def sc_of_def)
  note thread_steps_system [OF this, of W]
  moreover have "(sc_of s)\<lparr>latch := sc_latch m, threads := (threads (sc_of s))(i := sc_thread (local w))\<rparr> = sc_of s'"
    by (auto simp: sc_of_def weak_exec(1))
  ultimately show ?thesis by simp
next
  case (weak_call i work)
  have "\<not> in_load (th_pc (threads (sc_of s) i))" "\<not> in_peek (th_pc (threads (sc_of s) i))"
    using weak_call(2,3) by (cases "th_pc (local (wthreads s i))"; simp add: sc_of_def sc_thread_def)+
  from call_load [OF this weak_call(4), of t]
  have "load_system t W (sc_of s) ((sc_of s)\<lparr>threads := (threads (sc_of s))(i := start_load work)\<rparr>)" .
  moreover have "(sc_of s)\<lparr>threads := (threads (sc_of s))(i := start_load work)\<rparr> = sc_of s'"
    by (auto simp: sc_of_def weak_call(1) sc_thread_def start_load_def)
  ultimately show ?thesis by auto
qed

interpretation weak_load: refinement_mapping "weak_init d" "weak_system \<lparr>debug = False, big_endian = b\<rparr> W"
  "weak_inv True \<lparr>debug = False, big_endian = b\<rparr> d W" "latch_init d" "load_system \<lparr>debug = False, big_endian = b\<rparr> W" sc_of
  for d b W
proof unfold_locales
  show "latch_init d (sc_of s)" if "weak_init d s" for s
    using that by (simp add: weak_init_def latch_init_def sc_of_def sc_latch_def sc_thread_def)
  show "(load_system \<lparr>debug = False, big_endian = b\<rparr> W)\<^sup>*\<^sup>* (sc_of s) (sc_of s')"
    if "weak_inv True \<lparr>debug = False, big_endian = b\<rparr> d W s" "weak_system \<lparr>debug = False, big_endian = b\<rparr> W s s'" for s s'
    using that by (intro sim_system) simp_all
qed

section \<open>Properties\<close>

text \<open>
  C7: The orderings of the code are strong enough for \<^verbatim>\<open>load\<close>. In a release build every execution
  on the release/acquire memory has an interleaving, reachable from a new latch by the steps of
  \<^verbatim>\<open>load\<close> alone, with the same data and last state, in which the same threads have returned, each
  with the same result, and the same thread is loading: whatever the interleavings exclude is
  excluded there too.
\<close>

theorem weak_memory_refines_interleavings:
  assumes "\<not> debug t" and "reach (weak_init d) (weak_system t W) s"
  shows "\<exists>S. reach (latch_init d) (load_system t W) S \<and>
    l_state (latch S) = fst (last (hist (mem s))) \<and> l_data (latch S) = m_data (mem s) \<and>
    (\<forall>i r. th_pc (threads S i) = Returned r \<longleftrightarrow> th_pc (local (wthreads s i)) = Returned r) \<and>
    (\<forall>i. owner (th_pc (threads S i)) \<longleftrightarrow> owner (th_pc (local (wthreads s i))))"
proof -
  obtain b where t: "t = \<lparr>debug = False, big_endian = b\<rparr>" using assms(1) by (cases t) simp
  have r: "reach (latch_init d) (load_system t W) (sc_of s)"
    using weak_load.reach_mapped assms(2) unfolding t .
  have "sc_pc p = Returned r \<longleftrightarrow> p = Returned r" "owner (sc_pc p) \<longleftrightarrow> owner p" for p :: "'a pc" and r
    by (cases p; simp)+
  then show ?thesis
    using r by (intro exI [of _ "sc_of s"]) (simp add: sc_of_def sc_latch_def sc_thread_def)
qed

theorem weak_memory_refines_interleavings_witness:
  "\<exists>S. reach (latch_init (3 :: nat)) (load_system \<lparr>debug = False, big_endian = False\<rparr> {\<lambda>d. Ok (d + 1)}) S \<and>
     th_pc (threads S 0) = Returned (Ok 4) \<and> l_state (latch S) = PT_IN_MEMORY"
proof -
  let ?t = "\<lparr>debug = False, big_endian = False\<rparr>" and ?w = "\<lambda>d :: nat. (Ok (d + 1) :: (string, nat) outcome)"
  obtain s where s: "wrun True ?t [(0, 0), (0, 0), (0, 0), (0, 0), (0, 0), (0, 0)] (weak_two_loads 3 ?w) = Some s"
    and u: "th_pc (local (wthreads s 0)) = Returned (Ok 4)" "fst (last (hist (mem s))) = PT_IN_MEMORY"
    by (simp add: weak_eval)
  have r: "reach (weak_init 3) (weak_system ?t {?w}) s" by (rule reach_wrun [OF reach_weak_two_loads s]) simp
  have "\<not> debug ?t" by simp
  from weak_memory_refines_interleavings [OF this r] u show ?thesis by auto
qed

end
