(* ===== verification/Memory_Liveness.thy ===== *)
theory Memory_Liveness
  imports Memory_Refinement
begin

text \<open>
  Progress of \<^verbatim>\<open>load\<close> on the release/acquire memory. A load may return an old store of the state byte,
  and nothing in an ordering makes it return a newer one: a waiting thread that is given
  \<^verbatim>\<open>PT_LOADING\<close> again and again never leaves its loop. What the language adds is that a store becomes visible
  after a finite time. So the executions here are arbitrary at first, with stale reads of any number, and
  after some point each read returns the last store.
\<close>

section \<open>Executions with fresh reads\<close>

text \<open>A step of thread \<open>i\<close> that reads the last store where it reads the state byte; a thread outside \<^verbatim>\<open>load\<close> does nothing.\<close>

definition fresh_exec :: "target \<Rightarrow> nat \<Rightarrow> 'a wshared \<Rightarrow> 'a wshared" where
  "fresh_exec t i s =
     (if in_load (th_pc (local (wthreads s i)))
      then case weak_thread t (length (hist (mem s)) - 1) (mem s) (wthreads s i) of
             Some (m, w) \<Rightarrow> \<lparr>mem = m, wthreads = (wthreads s)(i := w)\<rparr>
           | None \<Rightarrow> s
      else s)"

fun fresh_run :: "target \<Rightarrow> nat list \<Rightarrow> 'a wshared \<Rightarrow> 'a wshared" where
  "fresh_run t [] s = s"
| "fresh_run t (i # is) s = fresh_run t is (fresh_exec t i s)"

lemma fresh_exec_system: "fresh_exec t i s = s \<or> weak_system t W s (fresh_exec t i s)"
  by (auto simp: fresh_exec_def split: option.split intro: weak_exec)

lemma fresh_run_steps: "(weak_system t W)\<^sup>*\<^sup>* s (fresh_run t is s)"
proof (induction "is" arbitrary: s)
  case (Cons i "is")
  show ?case using fresh_exec_system [of t i s W] Cons.IH [of "fresh_exec t i s"]
    by (auto intro: converse_rtranclp_into_rtranclp)
qed simp

section \<open>They are interleavings\<close>

text \<open>The state with the memory collapsed to its last store, and the threads as they are.\<close>

definition sc_full :: "'a wshared \<Rightarrow> 'a shared" where
  "sc_full s = \<lparr>latch = sc_latch (mem s), threads = (\<lambda>i. local (wthreads s i))\<rparr>"

text \<open>One thread: a fresh step exists, and it is the step of the program on the latch.\<close>

lemma fresh_thread:
  assumes "mem_ok True d W m" and "wthread_ok True t d W m w" and "in_load (th_pc (local w))"
  shows "\<exists>m' w'. weak_thread t (length (hist m) - 1) m w = Some (m', w') \<and> load_step t (sc_latch m) (local w) = (sc_latch m', local w')"
proof -
  have S: "hist m \<noteq> []" "length (hist m) \<le> 3" "n_writes m \<le> 1" using assms(1) by (auto simp: mem_ok_def stores_ok_def)
  then have last: "hist m ! (length (hist m) - 1) = last (hist m)" "length (hist m) - 1 < length (hist m)"
    "Suc (length (hist m) - 1) = length (hist m)"
    by (simp_all add: last_conv_nth)
  have T: "seen (tview w) \<le> length (hist m) - 1" "wrote (tview w) \<le> n_writes m" "seen (tview w) = 2 \<longrightarrow> wrote (tview w) = 1"
    "wknows True t d (th_work (local w)) m (tview w) (th_pc (local w))" "\<not> in_peek (th_pc (local w))"
    using assms(2) by (auto simp: wthread_ok_def)
  have race: "wrote (tview w) = n_writes m" if "th_pc (local w) = AtFastRead" using that T S by auto
  note D = weak_thread_def access_step_def sc_latch_def
  show ?thesis
  proof (cases "th_pc (local w)")
    case AtLoop
    then show ?thesis using T(1) last by (auto simp: D weak_load_def load_step_def Let_def)
  next
    case AtCas
    then show ?thesis using T(1) last
      by (auto simp: D weak_load_def weak_rmw_def append_store_def load_step_def Let_def)
  next
    case AtFastRead
    then show ?thesis using race by (auto simp: D weak_read_def load_step_def Let_def)
  qed (use T assms(3) in \<open>auto simp: D weak_read_def weak_write_def weak_store_def append_store_def load_step_def Let_def
      split: outcome.splits\<close>)
qed

lemma fresh_exec_sc:
  assumes "weak_inv True t d W s"
  shows "sc_full (fresh_exec t i s) = exec t i (sc_full s)" and "weak_inv True t d W (fresh_exec t i s)"
proof -
  have I: "mem_ok True d W (mem s)" "wthread_ok True t d W (mem s) (wthreads s i)" using assms by (simp_all add: weak_inv_def)
  have np: "\<not> in_peek (th_pc (local (wthreads s i)))" using I(2) by (simp add: wthread_ok_def)
  show "sc_full (fresh_exec t i s) = exec t i (sc_full s)"
  proof (cases "in_load (th_pc (local (wthreads s i)))")
    case True
    from fresh_thread [OF I True] obtain m w where
      "weak_thread t (length (hist (mem s)) - 1) (mem s) (wthreads s i) = Some (m, w)"
      "load_step t (sc_latch (mem s)) (local (wthreads s i)) = (sc_latch m, local w)" by blast
    then show ?thesis using True np by (auto simp: fresh_exec_def exec_def sc_full_def)
  next
    case False
    then have "load_step t l (local (wthreads s i)) = (l, local (wthreads s i))" for l
      by (cases "th_pc (local (wthreads s i))") (simp_all add: load_step_def)
    then show ?thesis using False np by (simp add: fresh_exec_def exec_def sc_full_def fun_upd_idem)
  qed
  show "weak_inv True t d W (fresh_exec t i s)"
    using fresh_exec_system [of t i s W] assms weak_inv_load [of True t d W s] by auto
qed

lemma fresh_run_sc: "weak_inv True t d W s \<Longrightarrow> sc_full (fresh_run t is s) = run t is (sc_full s)"
  by (induction "is" arbitrary: s) (simp_all add: fresh_exec_sc)

text \<open>What the threads know on the weak memory is what they know on its last store.\<close>

lemma last_store:
  assumes "stores_ok m"
  shows "length (hist m) = 1 \<and> fst (last (hist m)) = PT_ON_DISK \<or> length (hist m) = 2 \<and> fst (last (hist m)) = PT_LOADING \<or>
    length (hist m) = 3 \<and> fst (last (hist m)) = PT_IN_MEMORY"
proof -
  have n: "hist m \<noteq> []" "length (hist m) - 1 < length (hist m)" using assms by (auto simp: stores_ok_def)
  then obtain k where k: "length (hist m) = Suc k" "last (hist m) = hist m ! k" by (cases "length (hist m)") (auto simp: last_conv_nth)
  from store_cases [OF assms, of k] show ?thesis by (auto simp: k)
qed

lemma sc_knows:
  assumes "mem_ok True d W m" and "wthread_ok True t d W m w"
  shows "knows t d (th_work (local w)) (sc_latch m) (th_pc (local w))"
proof -
  have "stores_ok m" using assms(1) by (simp add: mem_ok_def)
  note last_store [OF this]
  moreover have "seen (tview w) < length (hist m)" "wknows True t d (th_work (local w)) m (tview w) (th_pc (local w))"
    using assms(2) by (simp_all add: wthread_ok_def)
  ultimately show ?thesis
    by (cases "(t, d, th_work (local w), sc_latch m, th_pc (local w))" rule: knows.cases)
      (auto simp: sc_latch_def latch_consts)
qed

lemma sc_inv:
  assumes "weak_inv True t d W s"
  shows "latch_inv t d W (sc_full s)"
proof -
  have M: "mem_ok True d W (mem s)" and T: "\<And>i. wthread_ok True t d W (mem s) (wthreads s i)"
    using assms by (simp_all add: weak_inv_def)
  have "stores_ok (mem s)" using M by (simp add: mem_ok_def)
  from last_store [OF this] have "latch_ok d W (sc_latch (mem s))"
    using M by (auto simp: latch_ok_def sc_latch_def mem_ok_def)
  moreover have "closures_ok W (local (wthreads s i))" for i using T [of i] by (simp add: wthread_ok_def)
  ultimately show ?thesis
    using assms sc_knows [OF M T] by (simp add: latch_inv_def sc_full_def weak_inv_def)
qed

lemma sc_loading_owned:
  assumes "reach (weak_init d) (weak_system t W) s" and "\<not> debug t" and "always_ok d W" and "l_state (latch (sc_full s)) = PT_LOADING"
  shows "\<exists>k. owner (th_pc (threads (sc_full s) k))"
proof -
  obtain b where t: "t = \<lparr>debug = False, big_endian = b\<rparr>" using assms(2) by (cases t) simp
  have "reach (latch_init d) (load_system t W) (sc_of s)" using weak_load.reach_mapped assms(1) unfolding t .
  from loading_owned [OF load_reach [OF this] assms(3)] assms(4) obtain k where "owner (th_pc (threads (sc_of s) k))"
    by (auto simp: sc_of_def sc_full_def)
  then show ?thesis by (cases "th_pc (local (wthreads s k))") (auto simp: sc_of_def sc_thread_def sc_full_def intro!: exI [of _ k])
qed

section \<open>Stale reads\<close>

text \<open>A thread that has not seen the publication may be given \<^verbatim>\<open>PT_LOADING\<close> once more, and is then where it was.\<close>

definition stale :: "nat \<Rightarrow> 'a wshared \<Rightarrow> bool" where
  "stale i s \<longleftrightarrow> stores_ok (mem s) \<and> length (hist (mem s)) = 3 \<and> th_pc (local (wthreads s i)) = AtLoop \<and> seen (tview (wthreads s i)) \<le> 1"

lemma stale_round:
  assumes "stale i s" and "\<not> debug t"
  shows "\<exists>s'. wrun True t [(i, 1), (i, 1)] s = Some s' \<and> stale i s'"
proof -
  have S: "stores_ok (mem s)" "1 < length (hist (mem s))" using assms(1) by (simp_all add: stale_def)
  have "fst (hist (mem s) ! 1) = PT_LOADING" "seen (snd (hist (mem s) ! 1)) \<le> 1"
    using store_cases [OF S] stores_okD(3) [OF S] by auto
  then show ?thesis
    using assms by (auto simp: stale_def weak_thread_def weak_load_def access_step_def load_step_def latch_consts Let_def observe_def vjoin_def)
qed

lemma wrun_append: "wrun q t xs s = Some s' \<Longrightarrow> wrun q t (xs @ ys) s = wrun q t ys s'"
  by (induction q t xs s rule: wrun.induct) (auto split: if_splits option.splits)

section \<open>Properties\<close>

text \<open>
  C12: Every load completes on the memory the code's orderings describe. In a release build, when the
  closures succeed, take any reachable state of the weak memory, whatever stale stores the
  threads have read so far. Nine rounds of steps, each giving every thread inside \<^verbatim>\<open>load\<close> at least one
  step in any order, that read the last store of the state byte, are an execution and bring each of the threads back
  with a value, the one that is published.
\<close>

theorem weak_fair_load_completes:
  assumes "reach (weak_init d) (weak_system t W) s" and "\<not> debug t" and "\<forall>w\<in>W. \<exists>v. w d = Ok v"
    and "in_load (th_pc (local (wthreads s i)))"
    and "length rounds = 9" and "\<forall>r\<in>set rounds. \<forall>q. in_load (th_pc (local (wthreads s q))) \<longrightarrow> q \<in> set r"
  shows "(weak_system t W)\<^sup>*\<^sup>* s (fresh_run t (concat rounds) s) \<and>
    (\<exists>v. th_pc (local (wthreads (fresh_run t (concat rounds) s) i)) = Returned (Ok v) \<and>
      m_data (mem (fresh_run t (concat rounds) s)) = v \<and> fst (last (hist (mem (fresh_run t (concat rounds) s)))) = PT_IN_MEMORY)"
proof -
  have I: "weak_inv True t d W s" by (rule weak.reach_inv [OF assms(1)])
  have ok: "always_ok d W" using assms(3) by (simp add: always_ok_def)
  have "fair_state t d W i (sc_full s)"
    using sc_inv [OF I] assms(2,4) ok by (simp add: fair_state_def engaged_def sc_full_def)
  moreover have "\<forall>r\<in>set rounds. \<forall>q. in_load (th_pc (threads (sc_full s) q)) \<longrightarrow> q \<in> set r" using assms(6) by (simp add: sc_full_def)
  ultimately obtain v where "th_pc (threads (run t (concat rounds) (sc_full s)) i) = Returned (Ok v)"
    "latch (run t (concat rounds) (sc_full s)) = \<lparr>l_state = PT_IN_MEMORY, l_data = v\<rparr>"
    using fair_rounds [OF _ sc_loading_owned [OF assms(1,2) ok] assms(5)] by blast
  then have "th_pc (threads (sc_full (fresh_run t (concat rounds) s)) i) = Returned (Ok v)"
    "latch (sc_full (fresh_run t (concat rounds) s)) = \<lparr>l_state = PT_IN_MEMORY, l_data = v\<rparr>"
    by (simp_all add: fresh_run_sc [OF I])
  then show ?thesis using fresh_run_steps [of t W s "concat rounds"] by (simp add: sc_full_def sc_latch_def)
qed

theorem weak_fair_load_completes_witness:
  "\<exists>v. th_pc (local (wthreads (fresh_run \<lparr>debug = False, big_endian = False\<rparr> (concat (replicate 9 [1, 0]))
       (weak_two_loads (3 :: nat) (\<lambda>d. Ok (d + 1)))) 0)) = Returned (Ok v)"
proof -
  let ?t = "\<lparr>debug = False, big_endian = False\<rparr>" and ?w = "\<lambda>d :: nat. (Ok (d + 1) :: (string, nat) outcome)"
  have r: "reach (weak_init 3) (weak_system ?t {?w}) (weak_two_loads 3 ?w)" by (rule reach_weak_two_loads) simp
  have q: "\<forall>q. in_load (th_pc (local (wthreads (weak_two_loads 3 ?w) q))) \<longrightarrow> q \<in> set [1, 0]"
    by (auto simp: weak_two_loads_def)
  from weak_fair_load_completes [OF r, of 0 "replicate 9 [1, 0]"] q show ?thesis
    by (auto simp: weak_two_loads_def start_load_def)
qed

text \<open>
  The assumption on the reads is needed: after the value is published, a thread at the loop that has not
  seen the publication can spin any number of times, each time given \<^verbatim>\<open>PT_LOADING\<close>, which the
  orderings allow.
\<close>

theorem stale_reads_spin:
  assumes "stale i s" and "\<not> debug t"
  shows "\<exists>s'. wrun True t (concat (replicate n [(i, 1), (i, 1)])) s = Some s' \<and> stale i s'"
proof (induction n)
  case (Suc n)
  then obtain s1 where s1: "wrun True t (concat (replicate n [(i, 1), (i, 1)])) s = Some s1" "stale i s1" by blast
  have "concat (replicate (Suc n) [(i, 1), (i, 1)]) = concat (replicate n [(i, 1), (i, 1)]) @ [(i, 1 :: nat), (i, 1)]"
    by (simp flip: replicate_append_same)
  then show ?case using stale_round [OF s1(2) assms(2)] wrun_append [OF s1(1), of "[(i, 1), (i, 1)]"] by (simp only:)
qed (use assms in auto)

end
