(* ===== verification/Page_Frame.thy ===== *)
theory Page_Frame
  imports Page_Mod Slotted_Page Transition
begin

text \<open>
  The page frame, \<^verbatim>\<open>buffer/page_frame.rs\<close>: a page in memory behind a reader-writer lock, with the
  kind of the page beside it. The lock of the standard library is modelled by what the code uses
  of it: any number of readers or one writer, a guard that releases on drop, and poisoning when a
  write guard is dropped by a panic. An acquisition that has to wait is \<open>None\<close>. The guards of
  several threads form a state machine; \<^verbatim>\<open>read\<close> and \<^verbatim>\<open>write\<close> with a closure are also given as
  functions from frame to frame.
\<close>

section \<open>Definitions\<close>

subsection \<open>The lock\<close>

record 'v RwLock =
  rw_readers :: nat
  rw_writer :: bool
  rw_poisoned :: bool
  rw_value :: 'v

definition rwlock_new :: "'v \<Rightarrow> 'v RwLock" where
  "rwlock_new v = \<lparr>rw_readers = 0, rw_writer = False, rw_poisoned = False, rw_value = v\<rparr>"

text \<open>
  \<^verbatim>\<open>lock.read().unwrap()\<close> and \<^verbatim>\<open>lock.write().unwrap()\<close>: on a poisoned lock the guard inside the
  error is dropped again and \<^verbatim>\<open>unwrap\<close> panics.
\<close>

definition rw_read_unwrap :: "'v RwLock \<Rightarrow> (('e, unit) outcome \<times> 'v RwLock) option" where
  "rw_read_unwrap l =
     (if rw_writer l then None
      else if rw_poisoned l then Some (Panic, l)
      else Some (Ok (), l\<lparr>rw_readers := rw_readers l + 1\<rparr>))"

definition rw_write_unwrap :: "'v RwLock \<Rightarrow> (('e, unit) outcome \<times> 'v RwLock) option" where
  "rw_write_unwrap l =
     (if rw_writer l \<or> rw_readers l > 0 then None
      else if rw_poisoned l then Some (Panic, l)
      else Some (Ok (), l\<lparr>rw_writer := True\<rparr>))"

definition rw_drop_read :: "'v RwLock \<Rightarrow> 'v RwLock" where
  "rw_drop_read l = l\<lparr>rw_readers := rw_readers l - 1\<rparr>"

definition rw_drop_write :: "bool \<Rightarrow> 'v RwLock \<Rightarrow> 'v RwLock" where
  "rw_drop_write panicking l = l\<lparr>rw_writer := False, rw_poisoned := rw_poisoned l \<or> panicking\<rparr>"

subsection \<open>The frame\<close>

datatype PageFrameError = InvalidPageKind

record PageFrame =
  f_checksum :: u32
  f_kind :: PageKind
  f_dirty :: bool
  f_latch :: "RawPage RwLock"
  f_pin :: u16

definition PageFrame_new :: "u32 \<Rightarrow> PageKind \<Rightarrow> RawPage \<Rightarrow> PageFrame" where
  "PageFrame_new checksum kind raw_page =
     \<lparr>f_checksum = checksum, f_kind = kind, f_dirty = False, f_latch = rwlock_new raw_page, f_pin = 0\<rparr>"

text \<open>
  A guard is the kind it was made with; the page it refers to is the value of the frame's lock
  while the guard lives.
\<close>

datatype FrameReadGuard = FrameReadGuard (rg_kind: PageKind)
datatype FrameWriteGuard = FrameWriteGuard (wg_kind: PageKind)

definition read_guard :: "PageFrame \<Rightarrow> (('e, FrameReadGuard) outcome \<times> PageFrame) option" where
  "read_guard self =
     (case rw_read_unwrap (f_latch self) of
        None \<Rightarrow> None
      | Some (r, l) \<Rightarrow> Some (obind r (\<lambda>_. Ok (FrameReadGuard (f_kind self))), self\<lparr>f_latch := l\<rparr>))"

definition write_guard :: "PageFrame \<Rightarrow> (('e, FrameWriteGuard) outcome \<times> PageFrame) option" where
  "write_guard self =
     (case rw_write_unwrap (f_latch self) of
        None \<Rightarrow> None
      | Some (r, l) \<Rightarrow> Some (obind r (\<lambda>_. Ok (FrameWriteGuard (f_kind self))), self\<lparr>f_latch := l\<rparr>))"

definition raw :: "PageFrame \<Rightarrow> RawPage" where
  "raw self = rw_value (f_latch self)"

text \<open>Writing through \<^verbatim>\<open>raw()\<close> of a write guard.\<close>

definition set_raw :: "RawPage \<Rightarrow> PageFrame \<Rightarrow> PageFrame" where
  "set_raw p self = self\<lparr>f_latch := (f_latch self)\<lparr>rw_value := p\<rparr>\<rparr>"

text \<open>The guards dereference to the page; \<^verbatim>\<open>deref_mut\<close> is what is stored through the reference.\<close>

definition read_deref :: "FrameReadGuard \<Rightarrow> PageFrame \<Rightarrow> RawPage" where
  "read_deref g self = rw_value (f_latch self)"

definition write_deref :: "FrameWriteGuard \<Rightarrow> PageFrame \<Rightarrow> RawPage" where
  "write_deref g self = rw_value (f_latch self)"

definition write_deref_mut :: "FrameWriteGuard \<Rightarrow> RawPage \<Rightarrow> PageFrame \<Rightarrow> PageFrame" where
  "write_deref_mut g p self = self\<lparr>f_latch := (f_latch self)\<lparr>rw_value := p\<rparr>\<rparr>"

definition drop_read_guard :: "PageFrame \<Rightarrow> PageFrame" where
  "drop_read_guard self = self\<lparr>f_latch := rw_drop_read (f_latch self)\<rparr>"

definition drop_write_guard :: "bool \<Rightarrow> PageFrame \<Rightarrow> PageFrame" where
  "drop_write_guard panicking self = self\<lparr>f_latch := rw_drop_write panicking (f_latch self)\<rparr>"

definition slotted_ref :: "FrameReadGuard \<Rightarrow> PageFrame \<Rightarrow> (PageFrameError, RawPage) outcome" where
  "slotted_ref g self =
     (if uses_slotted_page_layout (rg_kind g) then Ok (ref_from_bytes (raw self)) else Err InvalidPageKind)"

definition slotted_mut :: "FrameWriteGuard \<Rightarrow> PageFrame \<Rightarrow> (PageFrameError, RawPage) outcome" where
  "slotted_mut g self =
     (if uses_slotted_page_layout (wg_kind g) then Ok (from_bytes (raw self)) else Err InvalidPageKind)"

text \<open>
  \<^verbatim>\<open>read(f)\<close> and \<^verbatim>\<open>write(f)\<close>: the guard is dropped when the closure returns and when it panics.
\<close>

definition frame_read :: "(RawPage \<Rightarrow> ('e, unit) outcome) \<Rightarrow> PageFrame \<Rightarrow> (('e, unit) outcome \<times> PageFrame) option" where
  "frame_read f self =
     (case read_guard self of
        None \<Rightarrow> None
      | Some (g, fr) \<Rightarrow>
          (case g of
             Ok _ \<Rightarrow> Some (f (raw fr), drop_read_guard fr)
           | Err e \<Rightarrow> Some (Err e, fr) | Panic \<Rightarrow> Some (Panic, fr) | UB \<Rightarrow> Some (UB, fr)))"

definition frame_write :: "(RawPage, 'e, unit) op \<Rightarrow> PageFrame \<Rightarrow> (('e, unit) outcome \<times> PageFrame) option" where
  "frame_write f self =
     (case write_guard self of
        None \<Rightarrow> None
      | Some (g, fr) \<Rightarrow>
          (case g of
             Ok _ \<Rightarrow> (let (r, p) = f (raw fr) in Some (r, drop_write_guard (r = Panic) (set_raw p fr)))
           | Err e \<Rightarrow> Some (Err e, fr) | Panic \<Rightarrow> Some (Panic, fr) | UB \<Rightarrow> Some (UB, fr)))"

subsection \<open>Threads and their guards\<close>

datatype held = NoGuard | Reading FrameReadGuard | Writing FrameWriteGuard

record frame_sys =
  frame :: PageFrame
  held_by :: "nat \<Rightarrow> held"

text \<open>The steps of thread \<open>i\<close>. A thread takes one guard of the frame at a time.\<close>

inductive frame_step :: "nat \<Rightarrow> frame_sys \<Rightarrow> frame_sys \<Rightarrow> bool" for i where
  take_read: "held_by s i = NoGuard \<Longrightarrow> read_guard (frame s) = Some (Ok g :: (unit, FrameReadGuard) outcome, fr) \<Longrightarrow>
    frame_step i s \<lparr>frame = fr, held_by = (held_by s)(i := Reading g)\<rparr>"
| take_write: "held_by s i = NoGuard \<Longrightarrow> write_guard (frame s) = Some (Ok g :: (unit, FrameWriteGuard) outcome, fr) \<Longrightarrow>
    frame_step i s \<lparr>frame = fr, held_by = (held_by s)(i := Writing g)\<rparr>"
| modify: "held_by s i = Writing g \<Longrightarrow> frame_step i s (s\<lparr>frame := set_raw p (frame s)\<rparr>)"
| leave_read: "held_by s i = Reading g \<Longrightarrow>
    frame_step i s \<lparr>frame = drop_read_guard (frame s), held_by = (held_by s)(i := NoGuard)\<rparr>"
| leave_write: "held_by s i = Writing g \<Longrightarrow>
    frame_step i s \<lparr>frame = drop_write_guard panicking (frame s), held_by = (held_by s)(i := NoGuard)\<rparr>"

text \<open>All ways to the page of a frame lead to the same bytes.\<close>

lemma guard_views:
  "read_deref rg fr = raw fr" "write_deref wg fr = raw fr" "write_deref_mut wg p fr = set_raw p fr"
  "slotted_ref rg fr = Ok q \<Longrightarrow> q = raw fr" "slotted_mut wg fr = Ok q \<Longrightarrow> q = raw fr"
  by (auto simp: read_deref_def write_deref_def write_deref_mut_def raw_def set_raw_def slotted_ref_def slotted_mut_def
      ref_from_bytes_def from_bytes_def split: if_splits)

definition frame_init :: "frame_sys \<Rightarrow> bool" where
  "frame_init s \<longleftrightarrow> (\<exists>c k p. frame s = PageFrame_new c k p) \<and> (\<forall>i. held_by s i = NoGuard)"

inductive_cases frame_stepE: "frame_step i s s'"

definition any_step :: "frame_sys \<Rightarrow> frame_sys \<Rightarrow> bool" where
  "any_step s s' \<longleftrightarrow> (\<exists>i. frame_step i s s')"

section \<open>The invariant of the lock\<close>

definition readers_of :: "frame_sys \<Rightarrow> nat set" where
  "readers_of s = {i. \<exists>g. held_by s i = Reading g}"

definition writers_of :: "frame_sys \<Rightarrow> nat set" where
  "writers_of s = {i. \<exists>g. held_by s i = Writing g}"

definition frame_inv :: "frame_sys \<Rightarrow> bool" where
  "frame_inv s \<longleftrightarrow> finite (readers_of s) \<and> rw_readers (f_latch (frame s)) = card (readers_of s) \<and>
     (if rw_writer (f_latch (frame s)) then readers_of s = {} \<and> (\<exists>i. writers_of s = {i}) else writers_of s = {})"

text \<open>The holders after thread \<open>i\<close> takes or drops a guard.\<close>

lemma holders_upd:
  "readers_of \<lparr>frame = fr, held_by = (held_by s)(i := h)\<rparr> =
     (case h of Reading g \<Rightarrow> insert i (readers_of s) | _ \<Rightarrow> readers_of s - {i})"
  "writers_of \<lparr>frame = fr, held_by = (held_by s)(i := h)\<rparr> =
     (case h of Writing g \<Rightarrow> insert i (writers_of s) | _ \<Rightarrow> writers_of s - {i})"
  by (auto simp: readers_of_def writers_of_def split: held.split if_splits)

lemma holders_frame:
  "readers_of (s\<lparr>frame := fr\<rparr>) = readers_of s" "writers_of (s\<lparr>frame := fr\<rparr>) = writers_of s"
  by (simp_all add: readers_of_def writers_of_def)

lemma guards_ok:
  "read_guard fr = Some (Ok g, fr') \<longleftrightarrow>
     \<not> rw_writer (f_latch fr) \<and> \<not> rw_poisoned (f_latch fr) \<and> g = FrameReadGuard (f_kind fr) \<and>
     fr' = fr\<lparr>f_latch := (f_latch fr)\<lparr>rw_readers := rw_readers (f_latch fr) + 1\<rparr>\<rparr>"
  "write_guard fr = Some (Ok h, fr'') \<longleftrightarrow>
     \<not> rw_writer (f_latch fr) \<and> rw_readers (f_latch fr) = 0 \<and> \<not> rw_poisoned (f_latch fr) \<and>
     h = FrameWriteGuard (f_kind fr) \<and> fr'' = fr\<lparr>f_latch := (f_latch fr)\<lparr>rw_writer := True\<rparr>\<rparr>"
  by (auto simp: read_guard_def write_guard_def rw_read_unwrap_def rw_write_unwrap_def)

lemma frame_inv_step: "frame_step i s s' \<Longrightarrow> frame_inv s \<Longrightarrow> frame_inv s'"
proof (elim frame_stepE)
  fix g fr assume inv: "frame_inv s" and h: "held_by s i = NoGuard" and g: "read_guard (frame s) = Some (Ok g :: (unit, FrameReadGuard) outcome, fr)"
    and s': "s' = \<lparr>frame = fr, held_by = (held_by s)(i := Reading g)\<rparr>"
  have "i \<notin> readers_of s" "i \<notin> writers_of s" using h by (simp_all add: readers_of_def writers_of_def)
  then show ?thesis using inv g unfolding s' guards_ok by (auto simp: frame_inv_def holders_upd)
next
  fix g fr assume inv: "frame_inv s" and h: "held_by s i = NoGuard" and g: "write_guard (frame s) = Some (Ok g :: (unit, FrameWriteGuard) outcome, fr)"
    and s': "s' = \<lparr>frame = fr, held_by = (held_by s)(i := Writing g)\<rparr>"
  then show ?thesis unfolding s' guards_ok by (auto simp: frame_inv_def holders_upd)
next
  fix p assume "frame_inv s" and "s' = s\<lparr>frame := set_raw p (frame s)\<rparr>"
  then show ?thesis by (simp add: frame_inv_def holders_frame set_raw_def)
next
  fix g assume inv: "frame_inv s" and h: "held_by s i = Reading g"
    and s': "s' = \<lparr>frame = drop_read_guard (frame s), held_by = (held_by s)(i := NoGuard)\<rparr>"
  have "i \<in> readers_of s" using h by (simp add: readers_of_def)
  then show ?thesis using inv unfolding s'
    by (auto simp: frame_inv_def holders_upd drop_read_guard_def rw_drop_read_def)
next
  fix g panicking assume inv: "frame_inv s" and h: "held_by s i = Writing g"
    and s': "s' = \<lparr>frame = drop_write_guard panicking (frame s), held_by = (held_by s)(i := NoGuard)\<rparr>"
  have "i \<in> writers_of s" using h by (simp add: writers_of_def)
  then show ?thesis using inv unfolding s'
    by (auto simp: frame_inv_def holders_upd drop_write_guard_def rw_drop_write_def split: if_splits)
qed

interpretation frame_lock: invariant_system frame_init any_step frame_inv
proof unfold_locales
  show "frame_init s \<Longrightarrow> frame_inv s" for s
    by (auto simp: frame_init_def frame_inv_def readers_of_def writers_of_def PageFrame_new_def rwlock_new_def)
  show "frame_inv s \<Longrightarrow> any_step s s' \<Longrightarrow> frame_inv s'" for s s'
    by (auto simp: any_step_def intro: frame_inv_step)
qed

text \<open>While thread \<open>i\<close> holds a guard, the other threads cannot change the page.\<close>

definition others_step :: "nat \<Rightarrow> frame_sys \<Rightarrow> frame_sys \<Rightarrow> bool" where
  "others_step i s s' \<longleftrightarrow> (\<exists>j. j \<noteq> i \<and> frame_step j s s')"

definition holder_inv :: "nat \<Rightarrow> frame_sys \<Rightarrow> bool" where
  "holder_inv i s \<longleftrightarrow> frame_inv s \<and> held_by s i \<noteq> NoGuard"

definition page_kept :: "nat \<Rightarrow> frame_sys \<Rightarrow> frame_sys \<Rightarrow> bool" where
  "page_kept i s s' \<longleftrightarrow> raw (frame s') = raw (frame s) \<and> held_by s' i = held_by s i"

lemma writer_alone:
  assumes "frame_inv s" and "held_by s i = Writing g" and "held_by s j \<noteq> NoGuard"
  shows "j = i"
proof -
  have i: "i \<in> writers_of s" using assms(2) by (simp add: writers_of_def)
  have j: "j \<in> writers_of s \<or> j \<in> readers_of s"
    using assms(3) by (cases "held_by s j") (simp_all add: writers_of_def readers_of_def)
  show ?thesis using assms(1) i j by (auto simp: frame_inv_def split: if_splits)
qed

interpretation frame_holder: guarantee_system "holder_inv i" "others_step i" "holder_inv i" "page_kept i" for i
proof unfold_locales
  fix s s' assume inv: "holder_inv i s" and "others_step i s s'"
  then obtain j where j: "j \<noteq> i" "frame_step j s s'" by (auto simp: others_step_def)
  have "page_kept i s s'"
    using j(2)
  proof (elim frame_stepE)
    fix g p assume w: "held_by s j = Writing g"
    then show ?thesis using writer_alone [of s j g i] inv j(1) by (simp add: holder_inv_def)
  qed (use j(1) in \<open>auto simp: page_kept_def guards_ok raw_def drop_read_guard_def drop_write_guard_def
      rw_drop_read_def rw_drop_write_def\<close>)
  then show "page_kept i s s'" .
  then show "holder_inv i s'"
    using frame_inv_step [OF j(2)] inv by (simp add: holder_inv_def page_kept_def)
qed (auto simp: page_kept_def)

fun guard_kind :: "held \<Rightarrow> PageKind option" where
  "guard_kind NoGuard = None"
| "guard_kind (Reading g) = Some (rg_kind g)"
| "guard_kind (Writing g) = Some (wg_kind g)"

lemma set_raw_id: "set_raw (raw fr) fr = fr"
  by (simp add: set_raw_def raw_def)

lemma set_raw_reads:
  "raw (set_raw p fr) = p" "f_kind (set_raw p fr) = f_kind fr"
  "raw (drop_write_guard b fr) = raw fr" "f_kind (drop_write_guard b fr) = f_kind fr"
  by (simp_all add: set_raw_def raw_def drop_write_guard_def rw_drop_write_def)

text \<open>A guard is taken and dropped without touching the page, and it carries the kind of the frame.\<close>

lemma guard_moves:
  assumes "frame_step i fs fs'" and "held_by fs i = NoGuard \<or> held_by fs' i = NoGuard"
  shows "raw (frame fs') = raw (frame fs)" and "f_kind (frame fs') = f_kind (frame fs)"
    and "held_by fs' i = NoGuard \<or> guard_kind (held_by fs' i) = Some (f_kind (frame fs))"
    and "\<And>j. j \<noteq> i \<Longrightarrow> held_by fs' j = held_by fs j"
  using assms
  by (auto elim!: frame_stepE simp: guards_ok raw_def drop_read_guard_def drop_write_guard_def rw_drop_read_def rw_drop_write_def)

text \<open>What no step changes, and that a poisoned frame stays poisoned.\<close>

definition meta_kept :: "frame_sys \<Rightarrow> frame_sys \<Rightarrow> bool" where
  "meta_kept s s' \<longleftrightarrow> f_kind (frame s') = f_kind (frame s) \<and> f_checksum (frame s') = f_checksum (frame s) \<and>
     f_dirty (frame s') = f_dirty (frame s) \<and> f_pin (frame s') = f_pin (frame s) \<and>
     (rw_poisoned (f_latch (frame s)) \<longrightarrow> rw_poisoned (f_latch (frame s')))"

interpretation frame_meta: guarantee_system frame_init any_step frame_inv meta_kept
proof unfold_locales
  show "meta_kept s s'" if "any_step s s'" for s s'
    using that unfolding any_step_def
    by (auto elim!: frame_stepE simp: meta_kept_def guards_ok set_raw_def drop_read_guard_def drop_write_guard_def
        rw_drop_read_def rw_drop_write_def)
qed (auto simp: meta_kept_def)

section \<open>Properties\<close>

definition unlocked :: "PageFrame \<Rightarrow> bool" where
  "unlocked fr \<longleftrightarrow> \<not> rw_writer (f_latch fr) \<and> rw_readers (f_latch fr) = 0 \<and> \<not> rw_poisoned (f_latch fr)"

lemma unlocked_new: "unlocked (PageFrame_new c k p)" "raw (PageFrame_new c k p) = p"
  by (simp_all add: unlocked_def PageFrame_new_def rwlock_new_def raw_def)

lemma frame_read_ok: "unlocked fr \<Longrightarrow> frame_read g fr = Some (g (raw fr), fr)"
  by (simp add: frame_read_def read_guard_def rw_read_unwrap_def unlocked_def raw_def drop_read_guard_def
      rw_drop_read_def)

lemma frame_write_ok:
  "unlocked fr \<Longrightarrow> f (raw fr) = (r, p) \<Longrightarrow> frame_write f fr = Some (r, drop_write_guard (r = Panic) (set_raw p
     (fr\<lparr>f_latch := (f_latch fr)\<lparr>rw_writer := True\<rparr>\<rparr>)))"
  by (simp add: frame_write_def write_guard_def rw_write_unwrap_def unlocked_def raw_def)

definition demo_sys :: frame_sys where
  "demo_sys = \<lparr>frame = PageFrame_new 10 IndexInternal (replicate 4096 0), held_by = (\<lambda>_. NoGuard)\<rparr>"

definition demo_reading :: frame_sys where
  "demo_reading = \<lparr>frame = (frame demo_sys)\<lparr>f_latch := (f_latch (frame demo_sys))\<lparr>rw_readers := 1\<rparr>\<rparr>,
     held_by = (\<lambda>_. NoGuard)(0 := Reading (FrameReadGuard IndexInternal))\<rparr>"

definition demo_writing :: frame_sys where
  "demo_writing = \<lparr>frame = (frame demo_sys)\<lparr>f_latch := (f_latch (frame demo_sys))\<lparr>rw_writer := True\<rparr>\<rparr>,
     held_by = (\<lambda>_. NoGuard)(0 := Writing (FrameWriteGuard IndexInternal))\<rparr>"

lemma demo_steps: "frame_step 0 demo_sys demo_reading" "frame_step 0 demo_sys demo_writing"
proof -
  have "read_guard (frame demo_sys) = Some (Ok (FrameReadGuard IndexInternal) :: (unit, FrameReadGuard) outcome, frame demo_reading)"
    "write_guard (frame demo_sys) = Some (Ok (FrameWriteGuard IndexInternal) :: (unit, FrameWriteGuard) outcome, frame demo_writing)"
    by (simp_all add: guards_ok demo_sys_def demo_reading_def demo_writing_def PageFrame_new_def rwlock_new_def)
  then show "frame_step 0 demo_sys demo_reading" "frame_step 0 demo_sys demo_writing"
    using take_read [of demo_sys 0] take_write [of demo_sys 0]
    by (fastforce simp: demo_sys_def demo_reading_def demo_writing_def)+
qed

lemma demo_reach: "reach frame_init any_step demo_sys" "reach frame_init any_step demo_reading"
  "reach frame_init any_step demo_writing"
proof -
  show r: "reach frame_init any_step demo_sys"
    by (rule reach_init) (auto simp: frame_init_def demo_sys_def)
  show "reach frame_init any_step demo_reading" "reach frame_init any_step demo_writing"
    using demo_steps by (auto intro!: reach_step [OF r] simp: any_step_def)
qed

text \<open>
  A guard keeps the page still. From when a thread holds a guard until it drops it, whatever
  the other threads do, the bytes of the page are the same and the guard is still held.
\<close>

theorem guard_keeps_page:
  assumes "reach frame_init any_step s" and "held_by s i \<noteq> NoGuard" and "(others_step i)\<^sup>*\<^sup>* s s'"
  shows "raw (frame s') = raw (frame s) \<and> held_by s' i = held_by s i"
proof -
  have "holder_inv i s" using frame_lock.reach_inv [OF assms(1)] assms(2) by (simp add: holder_inv_def)
  from frame_holder.steps_guar [OF assms(3) this] show ?thesis by (simp add: page_kept_def)
qed

theorem guard_keeps_page_witness:
  "\<exists>s'. (others_step 0)\<^sup>*\<^sup>* demo_reading s' \<and> held_by s' 1 \<noteq> NoGuard \<and> raw (frame s') = raw (frame demo_reading)"
proof -
  let ?fr = "(frame demo_reading)\<lparr>f_latch := (f_latch (frame demo_reading))\<lparr>rw_readers := 2\<rparr>\<rparr>"
  let ?s = "\<lparr>frame = ?fr, held_by = (held_by demo_reading)(1 := Reading (FrameReadGuard IndexInternal))\<rparr>"
  have "read_guard (frame demo_reading) = Some (Ok (FrameReadGuard IndexInternal) :: (unit, FrameReadGuard) outcome, ?fr)"
    by (simp add: guards_ok demo_sys_def demo_reading_def PageFrame_new_def rwlock_new_def)
  then have "frame_step 1 demo_reading ?s" by (intro take_read) (simp_all add: demo_reading_def)
  then have "others_step 0 demo_reading ?s" by (auto simp: others_step_def)
  then have steps: "(others_step 0)\<^sup>*\<^sup>* demo_reading ?s" by blast
  have "held_by demo_reading 0 \<noteq> NoGuard" by (simp add: demo_reading_def)
  from guard_keeps_page [OF demo_reach(2) this steps] steps show ?thesis
    by (intro exI [of _ ?s]) simp
qed

text \<open>
  Writing and reading through closures. On an unlocked frame \<^verbatim>\<open>write\<close> runs the closure on the
  page and releases the lock, and a following \<^verbatim>\<open>read\<close> sees exactly the page it left; kind,
  checksum, pin count and dirty flag are untouched.
\<close>

theorem frame_write_then_read:
  assumes "unlocked fr" and "f (raw fr) = (r, p)" and "r \<noteq> Panic"
  shows "\<exists>fr'. frame_write f fr = Some (r, fr') \<and> unlocked fr' \<and> raw fr' = p \<and>
    frame_read g fr' = Some (g p, fr') \<and> f_kind fr' = f_kind fr \<and> f_checksum fr' = f_checksum fr \<and>
    f_pin fr' = f_pin fr \<and> f_dirty fr' = f_dirty fr"
proof (intro exI conjI)
  let ?fr = "set_raw p fr"
  have eq: "drop_write_guard (r = Panic) (set_raw p (fr\<lparr>f_latch := (f_latch fr)\<lparr>rw_writer := True\<rparr>\<rparr>)) = ?fr"
    using assms(1,3) by (simp add: drop_write_guard_def rw_drop_write_def set_raw_def unlocked_def)
  show "frame_write f fr = Some (r, ?fr)"
    using frame_write_ok [of fr f r p] assms(1,2) by (simp add: eq)
  show u: "unlocked ?fr" and v: "raw ?fr = p" using assms(1) by (simp_all add: unlocked_def set_raw_def raw_def)
  show "frame_read g ?fr = Some (g p, ?fr)" using frame_read_ok [OF u, of g] by (simp add: v)
qed (simp_all add: set_raw_def)

theorem frame_write_then_read_witness:
  "\<exists>fr'. frame_write (\<lambda>p. (Ok () :: (unit, unit) outcome, p[0 := 7])) (PageFrame_new 10 Heap [1, 2, 3]) = Some (Ok (), fr') \<and>
     raw fr' = [7, 2, 3]"
  using frame_write_then_read [of "PageFrame_new 10 Heap [1, 2, 3]" "\<lambda>p. (Ok () :: (unit, unit) outcome, p[0 := 7])" "Ok ()" "[7, 2, 3]"]
  by (auto simp: unlocked_new)

text \<open>
  A panicking writer poisons the frame. When the closure of \<^verbatim>\<open>write\<close> panics, every later
  \<^verbatim>\<open>read\<close> and \<^verbatim>\<open>write\<close> of the frame panics and changes nothing; a panic in the closure of \<^verbatim>\<open>read\<close>
  leaves the frame usable.
\<close>

theorem write_panic_poisons:
  assumes "unlocked fr" and "f (raw fr) = (Panic, p)"
  shows "\<exists>fr'. frame_write f fr = Some (Panic, fr') \<and>
    (\<forall>h. frame_write h fr' = Some (Panic, fr')) \<and> (\<forall>g. frame_read g fr' = Some (Panic, fr')) \<and>
    frame_read (\<lambda>_. Panic) fr = Some (Panic, fr)"
  using assms frame_write_ok [of fr f Panic p] frame_read_ok [OF assms(1), of "\<lambda>_. Panic"]
  by (auto simp: frame_write_def frame_read_def write_guard_def read_guard_def rw_write_unwrap_def rw_read_unwrap_def
      drop_write_guard_def rw_drop_write_def set_raw_def unlocked_def)

theorem write_panic_poisons_witness:
  "\<exists>fr'. frame_write (\<lambda>p. (Panic :: (unit, unit) outcome, p)) (PageFrame_new 10 Heap [1, 2, 3]) = Some (Panic, fr') \<and>
     frame_read (\<lambda>_. Ok ()) fr' = Some (Panic :: (unit, unit) outcome, fr')"
  using write_panic_poisons [OF unlocked_new(1), of "\<lambda>p. (Panic :: (unit, unit) outcome, p)" 10 Heap "[1, 2, 3]" "[1, 2, 3]"]
  by (auto simp: unlocked_new)

text \<open>
  A slotted view is granted by the kind the frame was made with. The kind never changes over
  the life of a frame, whatever is written into the page, so a frame made as an index page gives
  out slotted views even when the page-type byte no longer says so, and one made as a heap page
  never does.
\<close>

theorem slotted_view_by_frame_kind:
  assumes "reach frame_init any_step s" and "any_step\<^sup>*\<^sup>* s s'"
    and "read_guard (frame s') = Some (Ok g, fr)"
  shows "f_kind (frame s') = f_kind (frame s) \<and>
    slotted_ref g fr = (if uses_slotted_page_layout (f_kind (frame s)) then Ok (raw (frame s')) else Err InvalidPageKind)"
proof -
  have "meta_kept s s'" by (rule frame_meta.reach_guar [OF assms(1,2)])
  then have "f_kind (frame s') = f_kind (frame s)" by (simp add: meta_kept_def)
  moreover have "g = FrameReadGuard (f_kind (frame s'))" "raw fr = raw (frame s')"
    using assms(3) by (simp_all add: guards_ok raw_def)
  ultimately show ?thesis by (simp add: slotted_ref_def ref_from_bytes_def)
qed

theorem slotted_view_by_frame_kind_witness:
  "slotted_ref (FrameReadGuard IndexInternal) (frame demo_reading) = Ok (replicate 4096 0)"
proof -
  have "read_guard (frame demo_sys) = Some (Ok (FrameReadGuard IndexInternal) :: (unit, FrameReadGuard) outcome, frame demo_reading)"
    by (simp add: guards_ok demo_sys_def demo_reading_def PageFrame_new_def rwlock_new_def)
  from slotted_view_by_frame_kind [OF demo_reach(1) rtranclp.rtrancl_refl this]
  show ?thesis by (simp add: demo_sys_def PageFrame_new_def raw_def rwlock_new_def)
qed

end
