(* ===== verification/Guarded_Page.thy ===== *)
theory Guarded_Page
  imports Index_Machine Page_Frame
begin

text \<open>
  A page type behind a frame: threads run the commands of \<^verbatim>\<open>IndexPageMut\<close> or \<^verbatim>\<open>SlottedPageMut\<close> through
  write guards and those of \<^verbatim>\<open>IndexPageRef\<close> or \<^verbatim>\<open>SlottedPageRef\<close> through read guards of one
  \<^verbatim>\<open>PageFrame\<close>. A command takes time: between its start and its end other threads run, the page of a
  command that writes may hold anything, and a command that reads sees what is in the page at each moment. The
  commands are an argument, so that what the lock gives a page type is shown once: every
  execution of the threads answers as the specification does when the commands run one after the other.
\<close>

section \<open>Definitions\<close>

text \<open>
  The threads with their guards; for each thread inside a command the command and the bytes it works on;
  and the commands that have ended with their answers, in that order.
\<close>

record ('c, 'o) guarded =
  gsys :: frame_sys
  busy :: "nat \<Rightarrow> ('c \<times> RawPage) option"
  events :: "(nat \<times> 'c \<times> 'o) list"

text \<open>A panic unwinds the thread: its guard is dropped, and a write guard poisons the lock.\<close>

definition after_write :: "nat \<Rightarrow> ('e, 'r) outcome \<Rightarrow> PageFrame \<Rightarrow> frame_sys \<Rightarrow> frame_sys" where
  "after_write i r fr fs =
     (if r = Panic then \<lparr>frame = drop_write_guard True fr, held_by = (held_by fs)(i := NoGuard)\<rparr> else fs\<lparr>frame := fr\<rparr>)"

definition after_read :: "nat \<Rightarrow> ('e, 'r) outcome \<Rightarrow> frame_sys \<Rightarrow> frame_sys" where
  "after_read i r fs =
     (if r = Panic then \<lparr>frame = drop_read_guard (frame fs), held_by = (held_by fs)(i := NoGuard)\<rparr> else fs)"

text \<open>Bytes some of which were read before and some now.\<close>

definition mixed :: "RawPage \<Rightarrow> RawPage \<Rightarrow> RawPage \<Rightarrow> bool" where
  "mixed old now q \<longleftrightarrow> length q = length old \<and> (\<forall>k < length old. q ! k = old ! k \<or> q ! k = now ! k)"

text \<open>
  The steps. A thread takes or drops a guard only outside of a command, since the view borrows the guard.
  A command starts with \<^verbatim>\<open>guard.slotted_mut()?\<close> or \<^verbatim>\<open>guard.slotted_ref()?\<close>, whose error ends it at once.
  While a thread writes, the page may take any value. A thread that reads may see any
  of its bytes again. At its end a writing command has left the page it makes of the one it
  started with, and a reading one answers from the bytes it saw. Errors of the frame and of the page are kept apart
  as the two sides of a sum.
\<close>

inductive guarded_step ::
    "('c \<Rightarrow> bool) \<Rightarrow> ('c \<Rightarrow> bool) \<Rightarrow> ('c \<Rightarrow> RawPage \<Rightarrow> ('e, 'r) outcome \<times> RawPage) \<Rightarrow>
     ('c, (PageFrameError + 'e, 'r) outcome) guarded \<Rightarrow> ('c, (PageFrameError + 'e, 'r) outcome) guarded \<Rightarrow> bool"
  for legal reads ex where
  move_guard: "busy s i = None \<Longrightarrow> frame_step i (gsys s) fs \<Longrightarrow> held_by (gsys s) i = NoGuard \<or> held_by fs i = NoGuard \<Longrightarrow>
    guarded_step legal reads ex s (s\<lparr>gsys := fs\<rparr>)"
| start_write: "busy s i = None \<Longrightarrow> held_by (gsys s) i = Writing g \<Longrightarrow> legal c \<Longrightarrow> slotted_mut g (frame (gsys s)) = Ok q \<Longrightarrow>
    guarded_step legal reads ex s (s\<lparr>busy := (busy s)(i \<mapsto> (c, q))\<rparr>)"
| refuse_write: "busy s i = None \<Longrightarrow> held_by (gsys s) i = Writing g \<Longrightarrow> slotted_mut g (frame (gsys s)) = Err e \<Longrightarrow>
    guarded_step legal reads ex s (s\<lparr>events := events s @ [(i, c, Err (Inl e))]\<rparr>)"
| start_read: "busy s i = None \<Longrightarrow> held_by (gsys s) i = Reading h \<Longrightarrow> legal c \<Longrightarrow> reads c \<Longrightarrow> slotted_ref h (frame (gsys s)) = Ok q \<Longrightarrow>
    guarded_step legal reads ex s (s\<lparr>busy := (busy s)(i \<mapsto> (c, q))\<rparr>)"
| refuse_read: "busy s i = None \<Longrightarrow> held_by (gsys s) i = Reading h \<Longrightarrow> slotted_ref h (frame (gsys s)) = Err e \<Longrightarrow>
    guarded_step legal reads ex s (s\<lparr>events := events s @ [(i, c, Err (Inl e))]\<rparr>)"
| write_some: "busy s i = Some (c, q) \<Longrightarrow> held_by (gsys s) i = Writing g \<Longrightarrow>
    guarded_step legal reads ex s (s\<lparr>gsys := (gsys s)\<lparr>frame := set_raw p' (frame (gsys s))\<rparr>\<rparr>)"
| read_some: "busy s i = Some (c, q) \<Longrightarrow> held_by (gsys s) i = Reading h \<Longrightarrow> mixed q (raw (frame (gsys s))) q' \<Longrightarrow>
    guarded_step legal reads ex s (s\<lparr>busy := (busy s)(i \<mapsto> (c, q'))\<rparr>)"
| end_write: "busy s i = Some (c, q) \<Longrightarrow> held_by (gsys s) i = Writing g \<Longrightarrow> ex c q = (r, p') \<Longrightarrow>
    guarded_step legal reads ex s \<lparr>gsys = after_write i r (set_raw p' (frame (gsys s))) (gsys s),
      busy = (busy s)(i := None), events = events s @ [(i, c, map_err Inr r)]\<rparr>"
| end_read: "busy s i = Some (c, q) \<Longrightarrow> held_by (gsys s) i = Reading h \<Longrightarrow> ex c q = (r, p') \<Longrightarrow>
    guarded_step legal reads ex s \<lparr>gsys = after_read i r (gsys s), busy = (busy s)(i := None),
      events = events s @ [(i, c, map_err Inr r)]\<rparr>"

definition guarded_init :: "RawPage \<Rightarrow> ('c, 'o) guarded \<Rightarrow> bool" where
  "guarded_init p s \<longleftrightarrow> (\<exists>c k. uses_slotted_page_layout k \<and> frame (gsys s) = PageFrame_new c k p) \<and>
     (\<forall>i. held_by (gsys s) i = NoGuard) \<and> (\<forall>i. busy s i = None) \<and> events s = []"

text \<open>Some thread is inside a command that writes.\<close>

definition writing :: "('c, 'o) guarded \<Rightarrow> bool" where
  "writing s \<longleftrightarrow> (\<exists>i g. busy s i \<noteq> None \<and> held_by (gsys s) i = Writing g)"

definition commands_of :: "('c, 'o) guarded \<Rightarrow> 'c list" where
  "commands_of s = map (\<lambda>(i, c, r). c) (events s)"

definition answers_of :: "('c, 'o) guarded \<Rightarrow> 'o list" where
  "answers_of s = map (\<lambda>(i, c, r). r) (events s)"

section \<open>What the lock gives a page type\<close>

definition kinds_ok :: "frame_sys \<Rightarrow> bool" where
  "kinds_ok fs \<longleftrightarrow> frame_inv fs \<and> uses_slotted_page_layout (f_kind (frame fs)) \<and>
     (\<forall>i. held_by fs i \<noteq> NoGuard \<longrightarrow> guard_kind (held_by fs i) = Some (f_kind (frame fs)))"

lemma kinds_okD:
  "kinds_ok fs \<Longrightarrow> held_by fs i = Writing wg \<Longrightarrow> uses_slotted_page_layout (wg_kind wg)"
  "kinds_ok fs \<Longrightarrow> held_by fs i = Reading rg \<Longrightarrow> uses_slotted_page_layout (rg_kind rg)"
  unfolding kinds_ok_def by (metis guard_kind.simps held.distinct option.inject)+

lemma kinds_ok_move:
  assumes "kinds_ok fs" and "frame_step i fs fs'" and "held_by fs i = NoGuard \<or> held_by fs' i = NoGuard"
  shows "kinds_ok fs'"
proof -
  note G = guard_moves [OF assms(2,3)]
  have "held_by fs' j \<noteq> NoGuard \<Longrightarrow> guard_kind (held_by fs' j) = Some (f_kind (frame fs'))" for j
    using assms(1) G(2,3,4) by (cases "j = i") (auto simp: kinds_ok_def)
  then show ?thesis using frame_inv_step [OF assms(2)] assms(1) G(2) by (simp add: kinds_ok_def)
qed

lemma kinds_ok_write:
  assumes "kinds_ok fs" and "held_by fs i = Writing g"
  shows "kinds_ok (after_write i r (set_raw p (frame fs)) fs)" and "raw (frame (after_write i r (set_raw p (frame fs)) fs)) = p"
proof -
  let ?fs = "fs\<lparr>frame := set_raw p (frame fs)\<rparr>"
  have inv: "kinds_ok ?fs"
    using frame_inv_step [OF modify [OF assms(2)], of p] assms(1) by (simp add: kinds_ok_def set_raw_reads)
  have "frame_step i ?fs \<lparr>frame = drop_write_guard True (frame ?fs), held_by = (held_by ?fs)(i := NoGuard)\<rparr>"
    by (rule leave_write) (simp add: assms(2))
  from kinds_ok_move [OF inv this] inv show "kinds_ok (after_write i r (set_raw p (frame fs)) fs)" by (simp add: after_write_def)
  show "raw (frame (after_write i r (set_raw p (frame fs)) fs)) = p" by (simp add: after_write_def set_raw_reads)
qed

lemma kinds_ok_read:
  assumes "kinds_ok fs" and "held_by fs i = Reading g"
  shows "kinds_ok (after_read i r fs)" and "raw (frame (after_read i r fs)) = raw (frame fs)"
proof -
  have "frame_step i fs \<lparr>frame = drop_read_guard (frame fs), held_by = (held_by fs)(i := NoGuard)\<rparr>"
    by (rule leave_read [OF assms(2)])
  from kinds_ok_move [OF assms(1) this] assms(1) show "kinds_ok (after_read i r fs)" by (simp add: after_read_def)
  show "raw (frame (after_read i r fs)) = raw (frame fs)"
    by (simp add: after_read_def drop_read_guard_def rw_drop_read_def raw_def)
qed

lemma run_cmds_snoc:
  "run_cmds f (cs @ [c]) s = (case run_cmds f cs s of (rs, s') \<Rightarrow> case f c s' of (r, s'') \<Rightarrow> (rs @ [r], s''))"
  by (induction cs arbitrary: s) (simp_all add: Let_def split_def)

text \<open>
  A page type that implements a specification, some of whose commands only read the page. Behind a
  frame, the commands of all threads answer what the specification answers to them one after the
  other, and the page is the one they lead to.
\<close>

locale guarded_object = data_refinement invar abstract legal cexec aexec
  for invar :: "RawPage \<Rightarrow> bool" and abstract :: "RawPage \<Rightarrow> 'a" and legal :: "'c \<Rightarrow> bool"
    and cexec :: "'c \<Rightarrow> RawPage \<Rightarrow> ('e, 'r) outcome \<times> RawPage" and aexec :: "'c \<Rightarrow> 'a \<Rightarrow> ('e, 'r) outcome \<times> 'a" +
  fixes reads :: "'c \<Rightarrow> bool"
  assumes reads_keep: "reads c \<Longrightarrow> snd (cexec c p) = p"
begin

text \<open>
  \<open>p\<close> is the page the commands that have ended lead to. It is what every command works on, and it is in the
  frame unless a command writes.
\<close>

definition works :: "RawPage \<Rightarrow> held \<Rightarrow> ('c \<times> RawPage) option \<Rightarrow> bool" where
  "works p h b \<longleftrightarrow> (case b of None \<Rightarrow> True
     | Some (c, q) \<Rightarrow> q = p \<and> legal c \<and> h \<noteq> NoGuard \<and> (case h of Reading g \<Rightarrow> reads c | _ \<Rightarrow> True))"

definition agree :: "RawPage \<Rightarrow> ('c, (PageFrameError + 'e, 'r) outcome) guarded \<Rightarrow> bool" where
  "agree p s \<longleftrightarrow> kinds_ok (gsys s) \<and> (\<not> writing s \<longrightarrow> raw (frame (gsys s)) = p) \<and> (\<forall>i. works p (held_by (gsys s) i) (busy s i))"

lemma agreeD:
  assumes "agree p s"
  shows "kinds_ok (gsys s)" "frame_inv (gsys s)" "\<not> writing s \<Longrightarrow> raw (frame (gsys s)) = p" "works p (held_by (gsys s) i) (busy s i)"
    "busy s i = Some (c, q) \<Longrightarrow> q = p \<and> legal c \<and> held_by (gsys s) i \<noteq> NoGuard"
    "busy s i = Some (c, q) \<Longrightarrow> held_by (gsys s) i = Reading h \<Longrightarrow> reads c"
proof -
  show "kinds_ok (gsys s)" and W: "works p (held_by (gsys s) j) (busy s j)" and "\<not> writing s \<Longrightarrow> raw (frame (gsys s)) = p" for j
    using assms by (simp_all add: agree_def)
  then show "frame_inv (gsys s)" by (simp add: kinds_ok_def)
  show "busy s i = Some (c, q) \<Longrightarrow> q = p \<and> legal c \<and> held_by (gsys s) i \<noteq> NoGuard"
    "busy s i = Some (c, q) \<Longrightarrow> held_by (gsys s) i = Reading h \<Longrightarrow> reads c"
    using W [of i] by (simp_all add: works_def)
qed

definition leads_to :: "'a \<Rightarrow> ('c, (PageFrameError + 'e, 'r) outcome) guarded \<Rightarrow> RawPage \<Rightarrow> bool" where
  "leads_to a s p \<longleftrightarrow> invar p \<and> run_cmds aexec (commands_of s) a = (fst (run_cmds aexec (commands_of s) a), abstract p) \<and>
     answers_of s = map (map_err Inr) (fst (run_cmds aexec (commands_of s) a))"

definition linear_inv :: "'a \<Rightarrow> ('c, (PageFrameError + 'e, 'r) outcome) guarded \<Rightarrow> bool" where
  "linear_inv a s \<longleftrightarrow> (\<exists>p. agree p s \<and> leads_to a s p)"

lemma linear_invI: "agree p s \<Longrightarrow> leads_to a s p \<Longrightarrow> linear_inv a s"
  by (auto simp: linear_inv_def)

lemma leads_to_more:
  assumes "leads_to a s p" and "legal c" and "cexec c p = (r, p')" and "events s' = events s @ [(i, c, map_err Inr r)]"
  shows "leads_to a s' p'"
proof -
  obtain rs where R: "run_cmds aexec (commands_of s) a = (rs, abstract p)" "answers_of s = map (map_err Inr) rs" "invar p"
    using assms(1) unfolding leads_to_def by metis
  have "aexec c (abstract p) = (r, abstract p')" "invar p'"
    using command_refines [OF R(3) assms(2)] command_invar [OF R(3) assms(2)] assms(3) by simp_all
  then show ?thesis
    using R assms(4) by (simp add: leads_to_def commands_of_def answers_of_def run_cmds_snoc)
qed

lemma leads_to_same: "leads_to a s p \<Longrightarrow> events s' = events s \<Longrightarrow> leads_to a s' p"
  by (simp add: leads_to_def commands_of_def answers_of_def)

text \<open>Here the lock is needed: beside a thread that writes no other is inside a command.\<close>

lemma writer_alone_busy:
  assumes "agree p s" and "held_by (gsys s) i = Writing g" and "busy s j = Some b"
  shows "j = i"
  using writer_alone [OF agreeD(2) [OF assms(1)] assms(2), of j] agreeD(5) [OF assms(1), of j] assms(3) by (cases b) simp

lemma not_writing:
  assumes "agree p s"
  shows "held_by (gsys s) i = Reading h \<Longrightarrow> \<not> writing s" and "held_by (gsys s) i = Writing g \<Longrightarrow> busy s i = None \<Longrightarrow> \<not> writing s"
proof -
  note inv = agreeD(2) [OF assms]
  show "\<not> writing s" if "held_by (gsys s) i = Reading h"
    using writer_alone [OF inv, of _ _ i] that by (auto simp: writing_def)
  show "\<not> writing s" if i: "held_by (gsys s) i = Writing g" "busy s i = None"
  proof
    assume "writing s"
    then obtain j g' where "busy s j \<noteq> None" "held_by (gsys s) j = Writing g'" unfolding writing_def by blast
    then show False using writer_alone [OF inv i(1), of j] i(2) by simp
  qed
qed

lemma agree_start:
  assumes "agree p s" and "\<not> writing s" and "works (raw (frame (gsys s))) (held_by (gsys s) i) b"
  shows "agree p (s\<lparr>busy := (busy s)(i := b)\<rparr>)"
  using assms by (simp add: agree_def)

lemma agree_move:
  assumes "agree p s" and "busy s i = None" and "frame_step i (gsys s) fs" and "held_by (gsys s) i = NoGuard \<or> held_by fs i = NoGuard"
  shows "agree p (s\<lparr>gsys := fs\<rparr>)"
proof -
  note G = guard_moves [OF assms(3,4)] and D = agreeD [OF assms(1)]
  have K: "kinds_ok fs" by (rule kinds_ok_move [OF D(1) assms(3,4)])
  have same: "held_by fs j = held_by (gsys s) j" if "busy s j \<noteq> None" for j using G(4) [of j] assms(2) that by (cases "j = i") simp_all
  then have W: "writing (s\<lparr>gsys := fs\<rparr>) = writing s" unfolding writing_def by simp metis
  have "works p (held_by fs j) (busy s j)" for j
    using D(4) [of j] same [of j] by (cases "busy s j") (simp_all add: works_def)
  then show ?thesis using K W D(3) G(1) by (simp add: agree_def)
qed

lemma agree_end_write:
  assumes "agree p s" and "held_by (gsys s) i = Writing g"
    and "gsys s' = after_write i r (set_raw p' (frame (gsys s))) (gsys s)" and "busy s' = (busy s)(i := None)"
  shows "agree p' s'"
proof -
  note K = kinds_ok_write [OF agreeD(1) [OF assms(1)] assms(2), of r p']
  have "busy s' j = None" for j
  proof (cases "j = i")
    case False
    then have "busy s j = None" using writer_alone_busy [OF assms(1,2), of j] by (metis option.exhaust)
    with False show ?thesis by (simp add: assms(4))
  qed (simp add: assms(4))
  then show ?thesis using K assms(3) by (simp add: agree_def works_def)
qed

lemma agree_end_read:
  assumes "agree p s" and "held_by (gsys s) i = Reading h"
    and "gsys s' = after_read i r (gsys s)" and "busy s' = (busy s)(i := None)"
  shows "agree p s'"
proof -
  note D = agreeD [OF assms(1)]
  note K = kinds_ok_read [OF D(1) assms(2), of r]
  have held: "held_by (after_read i r (gsys s)) j = held_by (gsys s) j" if "j \<noteq> i" for j
    using that by (simp add: after_read_def)
  have "works p (held_by (gsys s') j) (busy s' j)" for j
  proof (cases "j = i")
    case False
    then show ?thesis using D(4) [of j] by (simp add: assms(3,4) held)
  qed (simp add: assms(4) works_def)
  then show ?thesis using K D(3) [OF not_writing(1) [OF assms(1,2)]] assms(3) by (simp add: agree_def)
qed

lemma linear_inv_step:
  assumes "linear_inv a s" and "guarded_step legal reads cexec s s'"
  shows "linear_inv a s'"
proof -
  obtain p where A: "agree p s" and L: "leads_to a s p" using assms(1) by (auto simp: linear_inv_def)
  note K = agreeD(1) [OF A] and same = leads_to_same [OF L]
  from assms(2) show ?thesis
  proof (cases rule: guarded_step.cases)
    case (move_guard i fs)
    then show ?thesis by (intro linear_invI [of p]) (simp_all add: agree_move [OF A] same)
  next
    case (start_write i g c q)
    then have "agree p s'"
      using agree_start [OF A not_writing(2) [OF A start_write(3,2)], of i "Some (c, q)"] by (simp add: guard_views works_def)
    then show ?thesis by (rule linear_invI) (simp add: same start_write(1))
  next
    case (refuse_write i g e c)
    then show ?thesis using kinds_okD(1) [OF K] by (simp add: slotted_mut_def)
  next
    case (start_read i h c q)
    then have "agree p s'"
      using agree_start [OF A not_writing(1) [OF A start_read(3)], of i "Some (c, q)"] by (simp add: guard_views works_def)
    then show ?thesis by (rule linear_invI) (simp add: same start_read(1))
  next
    case (refuse_read i h e c)
    then show ?thesis using kinds_okD(2) [OF K] by (simp add: slotted_ref_def)
  next
    case (write_some i c q g p')
    have "kinds_ok ((gsys s)\<lparr>frame := set_raw p' (frame (gsys s))\<rparr>)"
      using kinds_ok_write(1) [OF K write_some(3), of "Ok ()" p'] by (simp add: after_write_def)
    moreover have "writing s'" unfolding write_some(1) writing_def using write_some(2,3) by auto
    ultimately have "agree p s'" using agreeD(4) [OF A] write_some(1) by (simp add: agree_def)
    then show ?thesis by (rule linear_invI) (simp add: same write_some(1))
  next
    case (read_some i c q h q')
    have "q = raw (frame (gsys s))"
      using agreeD(3) [OF A not_writing(1) [OF A read_some(3)]] agreeD(5) [OF A read_some(2)] by simp
    then have "q' = q" using read_some(4) by (auto simp: mixed_def intro!: nth_equalityI)
    then have "s' = s" using read_some(1,2) by (simp add: fun_upd_idem)
    then show ?thesis using assms(1) by simp
  next
    case (end_write i c q g r p')
    have q: "q = p" "legal c" using agreeD(5) [OF A end_write(2)] by simp_all
    have "agree p' s'" by (rule agree_end_write [OF A end_write(3), of _ r]) (simp_all add: end_write(1))
    moreover have "leads_to a s' p'" using leads_to_more [OF L q(2), of r p' s' i] end_write(1,4) q(1) by simp
    ultimately show ?thesis by (rule linear_invI)
  next
    case (end_read i c q h r p')
    have q: "q = p" "legal c" "reads c" using agreeD(5,6) [OF A end_read(2)] end_read(3) by simp_all
    have A': "agree p s'" by (rule agree_end_read [OF A end_read(3), of _ r]) (simp_all add: end_read(1))
    have "p' = p" using reads_keep [OF q(3), of p] end_read(4) q(1) by simp
    then have "leads_to a s' p" using leads_to_more [OF L q(2), of r p s' i] end_read(1,4) q(1) by simp
    then show ?thesis by (rule linear_invI [OF A'])
  qed
qed

lemma linear_inv_init: "guarded_init p s \<Longrightarrow> invar p \<Longrightarrow> linear_inv (abstract p) s"
proof -
  assume i: "guarded_init p s" "invar p"
  then have "frame_init (gsys s)" by (auto simp: guarded_init_def frame_init_def)
  then have "frame_inv (gsys s)" by (rule frame_lock.inv_init)
  with i have "agree p s" by (auto simp: guarded_init_def agree_def works_def kinds_ok_def unlocked_new) (simp add: PageFrame_new_def)
  moreover have "leads_to (abstract p) s p" using i by (simp add: guarded_init_def leads_to_def commands_of_def answers_of_def)
  ultimately show ?thesis by (auto simp: linear_inv_def)
qed

lemma linearisable:
  assumes "reach (guarded_init p) (guarded_step legal reads cexec) s" and "invar p"
  shows "answers_of s = map (map_err Inr) (fst (run_cmds aexec (commands_of s) (abstract p))) \<and>
    (\<not> writing s \<longrightarrow> abstract (raw (frame (gsys s))) = snd (run_cmds aexec (commands_of s) (abstract p)) \<and> invar (raw (frame (gsys s))))"
proof -
  have "linear_inv (abstract p) s"
    using assms by (induction rule: reach.induct) (auto intro: linear_inv_init linear_inv_step)
  then show ?thesis unfolding linear_inv_def agree_def leads_to_def by (metis snd_conv)
qed

end

section \<open>The two page types behind a frame\<close>

fun index_reads :: "index_cmd \<Rightarrow> bool" where
  "index_reads (GetKind v) \<longleftrightarrow> v = RefView"
| "index_reads (GetLevel v) \<longleftrightarrow> v = RefView"
| "index_reads (HasRightSibling v) \<longleftrightarrow> v = RefView"
| "index_reads GetRightSibling \<longleftrightarrow> True"
| "index_reads (FindChildPtr key) \<longleftrightarrow> True"
| "index_reads _ \<longleftrightarrow> False"

fun slotted_reads_page :: "slotted_cmd \<Rightarrow> bool" where
  "slotted_reads_page (GetType v) \<longleftrightarrow> v = RefView"
| "slotted_reads_page GetFlags \<longleftrightarrow> True"
| "slotted_reads_page GetLsn \<longleftrightarrow> True"
| "slotted_reads_page (FreeStart v) \<longleftrightarrow> v = RefView"
| "slotted_reads_page (FreeEnd v) \<longleftrightarrow> v = RefView"
| "slotted_reads_page (FreeSpace v) \<longleftrightarrow> v = RefView"
| "slotted_reads_page (Fragmented v) \<longleftrightarrow> v = RefView"
| "slotted_reads_page (SlotCount v) \<longleftrightarrow> v = RefView"
| "slotted_reads_page (CellById v i) \<longleftrightarrow> v = RefView"
| "slotted_reads_page (SpecialOffset v) \<longleftrightarrow> v = RefView"
| "slotted_reads_page SpecialSize \<longleftrightarrow> True"
| "slotted_reads_page (GetSpecial v) \<longleftrightarrow> v = RefView"
| "slotted_reads_page _ \<longleftrightarrow> False"

lemma read_only_ops: "snd (op_bind (op_read f) (\<lambda>a. op_ret (g a)) p) = p"
  by (simp add: op_bind_def op_read_def op_ret_def split: outcome.split)

interpretation guarded_index: guarded_object wf_index node_of slice_args "index_exec t" node_exec index_reads for t
proof unfold_locales
  show "snd (index_exec t c p) = p" if "index_reads c" for c p
    using that by (cases c) (simp_all add: read_only_ops)
qed

interpretation guarded_slots: guarded_object wf_cells store_of cell_args "slotted_exec t" store_exec slotted_reads_page for t
proof unfold_locales
  show "snd (slotted_exec t c p) = p" if "slotted_reads_page c" for c p
    using that by (cases c) (simp_all add: read_only_ops)
qed

text \<open>
  An execution: one thread runs a command under a write guard, with anything in the page in between, and leaves;
  another takes a read guard and runs a second one.
\<close>

lemma reach_write_then_read:
  assumes "uses_slotted_page_layout k" and "legal c" and "ex c p = (r, q)" and "r \<noteq> Panic" and "legal c'" and "reads c'"
  shows "\<exists>s. reach (guarded_init p) (guarded_step legal reads ex) s \<and> commands_of s = [c, c'] \<and> raw (frame (gsys s)) = q \<and> \<not> writing s"
proof -
  let ?R = "reach (guarded_init p) (guarded_step legal reads ex)"
  let ?w = "Writing (FrameWriteGuard k)" and ?r = "Reading (FrameReadGuard k)" and ?no = "\<lambda>_ :: nat. NoGuard"
    and ?e = "(0 :: nat, c, map_err Inr r)" and ?idle = "\<lambda>_ :: nat. None :: ('a \<times> RawPage) option"
  define fr0 where "fr0 = PageFrame_new 10 k p"
  define fr1 where "fr1 = fr0\<lparr>f_latch := (f_latch fr0)\<lparr>rw_writer := True\<rparr>\<rparr>"
  define fr2 where "fr2 = drop_write_guard False (set_raw q fr1)"
  define fr3 where "fr3 = fr2\<lparr>f_latch := (f_latch fr2)\<lparr>rw_readers := rw_readers (f_latch fr2) + 1\<rparr>\<rparr>"
  note F = fr3_def fr2_def fr1_def fr0_def PageFrame_new_def rwlock_new_def drop_write_guard_def rw_drop_write_def set_raw_def raw_def
  let ?sys = "\<lambda>fr held b es. \<lparr>gsys = \<lparr>frame = fr, held_by = held\<rparr>, busy = b, events = es\<rparr>"
  have "?R (?sys fr0 ?no ?idle [])"
    by (rule reach_init) (use assms(1) in \<open>auto simp: guarded_init_def fr0_def\<close>)
  moreover have "frame_step 0 \<lparr>frame = fr0, held_by = ?no\<rparr> \<lparr>frame = fr1, held_by = ?no(0 := ?w)\<rparr>"
    using take_write [of "\<lparr>frame = fr0, held_by = ?no\<rparr>" 0 "FrameWriteGuard k" fr1] by (simp add: guards_ok F)
  ultimately have "?R (?sys fr1 (?no(0 := ?w)) ?idle [])"
    using move_guard [of "?sys fr0 ?no ?idle []" 0 "\<lparr>frame = fr1, held_by = ?no(0 := ?w)\<rparr>" legal reads ex] by (auto intro: reach_step)
  moreover have "slotted_mut (FrameWriteGuard k) fr1 = Ok p" using assms(1) by (simp add: slotted_mut_def from_bytes_def F)
  ultimately have "?R (?sys fr1 (?no(0 := ?w)) (?idle(0 \<mapsto> (c, p))) [])"
    using start_write [of "?sys fr1 (?no(0 := ?w)) ?idle []" 0 "FrameWriteGuard k" legal c p reads ex] assms(2) by (auto intro: reach_step)
  then have "?R (?sys (set_raw [] fr1) (?no(0 := ?w)) (?idle(0 \<mapsto> (c, p))) [])"
    using write_some [of "?sys fr1 (?no(0 := ?w)) (?idle(0 \<mapsto> (c, p))) []" 0 c p "FrameWriteGuard k" legal reads ex "[]"]
    by (auto intro: reach_step)
  moreover have "map_err Inr r \<noteq> (Panic :: (PageFrameError + 'b, 'c) outcome)" using assms(4) by (cases r) simp_all
  moreover have "set_raw q (set_raw [] fr1) = set_raw q fr1" by (simp add: set_raw_def)
  ultimately have "?R (?sys (set_raw q fr1) (?no(0 := ?w)) ?idle [?e])"
    using end_write [of "?sys (set_raw [] fr1) (?no(0 := ?w)) (?idle(0 \<mapsto> (c, p))) []" 0 c p "FrameWriteGuard k" ex r q legal reads] assms(3,4)
    by (auto intro: reach_step simp: after_write_def fun_upd_idem)
  moreover have "frame_step 0 \<lparr>frame = set_raw q fr1, held_by = ?no(0 := ?w)\<rparr> \<lparr>frame = fr2, held_by = ?no\<rparr>"
    using leave_write [of "\<lparr>frame = set_raw q fr1, held_by = ?no(0 := ?w)\<rparr>" 0 "FrameWriteGuard k" False] by (simp add: fr2_def fun_upd_idem)
  ultimately have "?R (?sys fr2 ?no ?idle [?e])"
    using move_guard [of "?sys (set_raw q fr1) (?no(0 := ?w)) ?idle [?e]" 0 "\<lparr>frame = fr2, held_by = ?no\<rparr>" legal reads ex]
    by (auto intro: reach_step)
  moreover have "frame_step 1 \<lparr>frame = fr2, held_by = ?no\<rparr> \<lparr>frame = fr3, held_by = ?no(1 := ?r)\<rparr>"
    using take_read [of "\<lparr>frame = fr2, held_by = ?no\<rparr>" 1 "FrameReadGuard k" fr3] by (simp add: guards_ok F)
  ultimately have "?R (?sys fr3 (?no(1 := ?r)) ?idle [?e])"
    using move_guard [of "?sys fr2 ?no ?idle [?e]" 1 "\<lparr>frame = fr3, held_by = ?no(1 := ?r)\<rparr>" legal reads ex] by (auto intro: reach_step)
  moreover have "slotted_ref (FrameReadGuard k) fr3 = Ok q" using assms(1) by (simp add: slotted_ref_def ref_from_bytes_def F)
  ultimately have "?R (?sys fr3 (?no(1 := ?r)) (?idle(1 \<mapsto> (c', q))) [?e])"
    using start_read [of "?sys fr3 (?no(1 := ?r)) ?idle [?e]" 1 "FrameReadGuard k" legal c' reads q ex] assms(5,6) by (auto intro: reach_step)
  then have "?R \<lparr>gsys = after_read 1 (fst (ex c' q)) \<lparr>frame = fr3, held_by = ?no(1 := ?r)\<rparr>, busy = ?idle,
      events = [?e, (1, c', map_err Inr (fst (ex c' q)))]\<rparr>"
    using end_read [of "?sys fr3 (?no(1 := ?r)) (?idle(1 \<mapsto> (c', q))) [?e]" 1 c' q "FrameReadGuard k" ex "fst (ex c' q)" "snd (ex c' q)" legal reads]
    by (auto intro: reach_step simp: fun_upd_idem)
  moreover have "raw (frame (after_read 1 x \<lparr>frame = fr3, held_by = ?no(1 := ?r)\<rparr>)) = q" for x :: "('b, 'c) outcome"
    by (simp add: after_read_def drop_read_guard_def rw_drop_read_def F)
  ultimately show ?thesis by (fastforce simp: commands_of_def writing_def)
qed

section \<open>Properties\<close>

text \<open>
  C3: An index page behind a frame is linearisable. Let any number of threads take read and write
  guards of a frame with an index page and run through them any of the commands of \<^verbatim>\<open>IndexPageMut\<close> and
  \<^verbatim>\<open>IndexPageRef\<close>, in any interleaving of their parts: while a command writes, the page holds arbitrary bytes,
  and a command that reads may see any byte as it is at any moment of its run; a panic unwinds, drops
  the guard and poisons the lock. Then every answer, errors and panics included, is the one the abstract node gives
  when the commands run one after the other in the order they ended, and whenever no command is writing the page is
  a well-formed index page with the contents of that node. This rests on the exclusion of the lock.
\<close>

theorem shared_index_linearisable:
  assumes "reach (guarded_init p) (guarded_step slice_args index_reads (index_exec t)) s" and "wf_index p"
  shows "answers_of s = map (map_err Inr) (fst (run_cmds node_exec (commands_of s) (node_of p))) \<and>
    (\<not> writing s \<longrightarrow> node_of (raw (frame (gsys s))) = snd (run_cmds node_exec (commands_of s) (node_of p)) \<and> wf_index (raw (frame (gsys s))))"
  by (rule guarded_index.linearisable [OF assms])

theorem shared_index_linearisable_witness:
  "\<exists>s. reach (guarded_init demo_index) (guarded_step slice_args index_reads (index_exec dev)) s \<and>
     answers_of s = [Ok Done, Ok (IsLevel (IndexLevel 2))] \<and> n_level (node_of (raw (frame (gsys s)))) = 2"
proof -
  obtain q where q: "index_exec dev (SetLevel 2) demo_index = (Ok Done, q)"
    using cmd_set_level [OF demo_index(1), of dev 2] by (cases "index_exec dev (SetLevel 2) demo_index") (simp add: cmd_ok_def)
  obtain s where s: "reach (guarded_init demo_index) (guarded_step slice_args index_reads (index_exec dev)) s"
    "commands_of s = [SetLevel 2, GetLevel RefView]" "\<not> writing s"
    using reach_write_then_read [of IndexInternal slice_args "SetLevel 2" "index_exec dev" demo_index "Ok Done" q "GetLevel RefView" index_reads] q
    by auto
  note T = shared_index_linearisable [OF s(1) demo_index(1), unfolded s(2)]
  have "answers_of s = [Ok Done, Ok (IsLevel (IndexLevel 2))]" using T by simp
  moreover have "n_level (node_of (raw (frame (gsys s)))) = 2" using T s(3) by simp
  ultimately show ?thesis using s(1) by blast
qed

text \<open>
  C24: The slotted page behind a frame is linearisable. The same for threads that use the slotted
  views of their guards directly: every answer is the one the store of cells gives to the commands
  in the order they ended.
\<close>

theorem shared_slots_linearisable:
  assumes "reach (guarded_init p) (guarded_step cell_args slotted_reads_page (slotted_exec t)) s" and "wf_cells p"
  shows "answers_of s = map (map_err Inr) (fst (run_cmds store_exec (commands_of s) (store_of p))) \<and>
    (\<not> writing s \<longrightarrow> store_of (raw (frame (gsys s))) = snd (run_cmds store_exec (commands_of s) (store_of p)) \<and> wf_cells (raw (frame (gsys s))))"
  by (rule guarded_slots.linearisable [OF assms])

theorem shared_slots_linearisable_witness:
  "\<exists>s. reach (guarded_init demo_page) (guarded_step cell_args slotted_reads_page (slotted_exec dev)) s \<and>
     answers_of s = [Ok Unit, Ok (Byte 9)]"
proof -
  obtain q where q: "slotted_exec dev (SetFlags 9) demo_page = (Ok Unit, q)"
    using slotted_header_writes(2) [OF demo_page(1), of dev 9]
    by (cases "slotted_exec dev (SetFlags 9) demo_page") (simp add: slotted_ok_def)
  obtain s where s: "reach (guarded_init demo_page) (guarded_step cell_args slotted_reads_page (slotted_exec dev)) s"
    "commands_of s = [SetFlags 9, GetFlags]"
    using reach_write_then_read [of IndexInternal cell_args "SetFlags 9" "slotted_exec dev" demo_page "Ok Unit" q GetFlags slotted_reads_page] q
    by auto
  have "answers_of s = map (map_err Inr) (fst (run_cmds store_exec [SetFlags 9, GetFlags] (store_of demo_page)))"
    using shared_slots_linearisable [OF s(1) demo_page(1)] s(2) by simp
  then show ?thesis using s(1) by auto
qed

end
