(* ===== verification/Shared_Index.thy ===== *)
theory Shared_Index
  imports Index_Properties Page_Frame
begin

text \<open>
  An index page shared by threads through its frame: the composition of \<^verbatim>\<open>page_frame.rs\<close> with
  \<^verbatim>\<open>slotted_page.rs\<close> and \<^verbatim>\<open>internal_page.rs\<close>. A thread takes a guard, asks it for the slotted view,
  and inserts cells through a write guard or searches through a read guard. The state keeps, beside
  the frame, the insertions that succeeded in the order they took effect, and for each thread those
  there were when it took its guard.
\<close>

section \<open>Definitions\<close>

type_synonym insertion = "nat \<times> block \<times> PageID"

record shared_index =
  fsys :: frame_sys
  ins_log :: "insertion list"
  since :: "nat \<Rightarrow> insertion list"

text \<open>
  \<^verbatim>\<open>IndexPageMut::from_slotted_page(guard.slotted_mut()?).add_cell_at_slot_entry_index(i, cell)\<close>
  and \<^verbatim>\<open>IndexPageRef::from_slotted_page(guard.slotted_ref()?).find_child_ptr(key)\<close>. Errors of the
  frame and of the index page are kept apart as the two sides of a sum.
\<close>

definition guarded_insert ::
    "target \<Rightarrow> FrameWriteGuard \<Rightarrow> nat \<Rightarrow> block \<Rightarrow> PageID \<Rightarrow> PageFrame \<Rightarrow>
     (PageFrameError + IndexPageError, unit) outcome \<times> PageFrame" where
  "guarded_insert t g i key c fr =
     (case slotted_mut g fr of
        Ok p \<Rightarrow>
          (case (IndexCellOwned_new t key c :: (IndexPageError, IndexCellOwned) outcome) of
             Ok cell \<Rightarrow>
               (let (r, p') = index_add_cell_at_slot_entry_index t i cell (from_slotted_page p)
                in (map_err Inr r, set_raw p' fr))
           | Err e \<Rightarrow> (Err (Inr e), fr) | Panic \<Rightarrow> (Panic, fr) | UB \<Rightarrow> (UB, fr))
      | Err e \<Rightarrow> (Err (Inl e), fr) | Panic \<Rightarrow> (Panic, fr) | UB \<Rightarrow> (UB, fr))"

definition guarded_search ::
    "target \<Rightarrow> FrameReadGuard \<Rightarrow> block \<Rightarrow> PageFrame \<Rightarrow> (PageFrameError + IndexPageError, PageID option) outcome" where
  "guarded_search t g key fr =
     obind (map_err Inl (slotted_ref g fr)) (\<lambda>p. map_err Inr (find_child_ptr t (ref_from_slotted_page p) key))"

text \<open>
  The steps: a thread takes or drops a guard, or inserts through its write guard. A panic inside
  the insertion unwinds and drops the guard, which poisons the lock.
\<close>

inductive index_step :: "target \<Rightarrow> shared_index \<Rightarrow> shared_index \<Rightarrow> bool" for t where
  take_guard: "held_by (fsys s) i = NoGuard \<Longrightarrow> frame_step i (fsys s) fs \<Longrightarrow> held_by fs i \<noteq> NoGuard \<Longrightarrow>
    index_step t s (s\<lparr>fsys := fs, since := (since s)(i := ins_log s)\<rparr>)"
| drop_guard: "held_by (fsys s) i \<noteq> NoGuard \<Longrightarrow> frame_step i (fsys s) fs \<Longrightarrow> held_by fs i = NoGuard \<Longrightarrow>
    index_step t s (s\<lparr>fsys := fs\<rparr>)"
| insert_cell: "held_by (fsys s) i = Writing g \<Longrightarrow> length key < 2 ^ 63 \<Longrightarrow>
    guarded_insert t g n key c (frame (fsys s)) = (r, fr) \<Longrightarrow> r \<noteq> Panic \<Longrightarrow>
    index_step t s (s\<lparr>fsys := (fsys s)\<lparr>frame := fr\<rparr>, ins_log := ins_log s @ (if r = Ok () then [(n, key, c)] else [])\<rparr>)"
| insert_panic: "held_by (fsys s) i = Writing g \<Longrightarrow> length key < 2 ^ 63 \<Longrightarrow>
    guarded_insert t g n key c (frame (fsys s)) = (Panic, fr) \<Longrightarrow>
    index_step t s (s\<lparr>fsys := \<lparr>frame = drop_write_guard True fr, held_by = (held_by (fsys s))(i := NoGuard)\<rparr>\<rparr>)"

inductive_cases index_stepE: "index_step t s s'"

definition index_init :: "RawPage \<Rightarrow> shared_index \<Rightarrow> bool" where
  "index_init p s \<longleftrightarrow> wf_index p \<and> (\<exists>c k. uses_slotted_page_layout k \<and> frame (fsys s) = PageFrame_new c k p) \<and>
     (\<forall>i. held_by (fsys s) i = NoGuard) \<and> ins_log s = []"

text \<open>The specification: insertions replayed on a list of entries.\<close>

definition replay :: "insertion list \<Rightarrow> (block \<times> PageID) list \<Rightarrow> (block \<times> PageID) list" where
  "replay is es = fold (\<lambda>(n, key, c). insert_at n (key, c)) is es"

section \<open>The invariant\<close>

definition index_inv :: "RawPage \<Rightarrow> shared_index \<Rightarrow> bool" where
  "index_inv p s \<longleftrightarrow> frame_inv (fsys s) \<and> uses_slotted_page_layout (f_kind (frame (fsys s))) \<and>
     wf_index (raw (frame (fsys s))) \<and> index_entries (raw (frame (fsys s))) = replay (ins_log s) (index_entries p) \<and>
     sibling_of (raw (frame (fsys s))) = sibling_of p \<and>
     (\<forall>i. held_by (fsys s) i \<noteq> NoGuard \<longrightarrow> guard_kind (held_by (fsys s) i) = Some (f_kind (frame (fsys s)))) \<and>
     (\<forall>i g. held_by (fsys s) i = Reading g \<longrightarrow> since s i = ins_log s)"

lemma guarded_insert_ok:
  assumes "uses_slotted_page_layout (wg_kind g)" and "wf_index (raw fr)" and "length key < 2 ^ 63"
    and "guarded_insert t g n key c fr = (r, fr')"
  shows "\<exists>p'. fr' = set_raw p' fr \<and> wf_index p' \<and> sibling_of p' = sibling_of (raw fr) \<and>
    index_entries p' = (if r = Ok () then insert_at n (key, c) (index_entries (raw fr)) else index_entries (raw fr))"
proof (cases "IndexCellOwned_new t key c :: (IndexPageError, IndexCellOwned) outcome")
  case (Ok cell)
  note N = IndexCellOwned_new_inv [OF Ok assms(3)]
  show ?thesis
    by (rule index_insert_cases [OF assms(2) N(1), of t n c])
      (use assms(1,2,4) Ok N(2) in \<open>auto simp: guarded_insert_def slotted_mut_def from_bytes_def from_slotted_page_def\<close>)
qed (use assms(1,2,4) in \<open>auto simp: guarded_insert_def slotted_mut_def intro!: exI [of _ "raw fr"] set_raw_id [symmetric]\<close>)

lemma index_inv_insert:
  assumes "index_inv p s" and "held_by (fsys s) i = Writing g" and "length key < 2 ^ 63"
    and "guarded_insert t g n key c (frame (fsys s)) = (r, fr)"
  shows "index_inv p (s\<lparr>fsys := (fsys s)\<lparr>frame := fr\<rparr>, ins_log := ins_log s @ (if r = Ok () then [(n, key, c)] else [])\<rparr>)"
proof -
  have I: "frame_inv (fsys s)" "uses_slotted_page_layout (f_kind (frame (fsys s)))" "wf_index (raw (frame (fsys s)))"
    "index_entries (raw (frame (fsys s))) = replay (ins_log s) (index_entries p)" "sibling_of (raw (frame (fsys s))) = sibling_of p"
    "\<And>j. held_by (fsys s) j \<noteq> NoGuard \<Longrightarrow> guard_kind (held_by (fsys s) j) = Some (f_kind (frame (fsys s)))"
    using assms(1) by (simp_all add: index_inv_def)
  have "uses_slotted_page_layout (wg_kind g)" using I(2) I(6) [of i] assms(2) by simp
  from guarded_insert_ok [OF this I(3) assms(3,4)] obtain p' where p': "fr = set_raw p' (frame (fsys s))" "wf_index p'"
    "sibling_of p' = sibling_of (raw (frame (fsys s)))"
    "index_entries p' = (if r = Ok () then insert_at n (key, c) (index_entries (raw (frame (fsys s)))) else index_entries (raw (frame (fsys s))))"
    by blast
  have inv: "frame_inv ((fsys s)\<lparr>frame := fr\<rparr>)"
    unfolding p'(1) by (rule frame_inv_step [OF modify [OF assms(2)] I(1)])
  have none: "held_by (fsys s) j \<noteq> Reading h" for j h
    using writer_alone [OF I(1) assms(2), of j] assms(2) by (cases "j = i") auto
  show ?thesis
    using I(2,6) inv p'(2,3) none unfolding index_inv_def p'(1)
    by (auto simp: set_raw_reads p'(4) I(4,5) replay_def)
qed

lemma index_inv_guard:
  assumes "index_inv p s" and "frame_step i (fsys s) fs" and "held_by (fsys s) i = NoGuard \<or> held_by fs i = NoGuard"
    and "\<And>j. j \<noteq> i \<Longrightarrow> since' j = since s j" and "held_by fs i \<noteq> NoGuard \<Longrightarrow> since' i = ins_log s"
  shows "index_inv p (s\<lparr>fsys := fs, since := since'\<rparr>)"
proof -
  note G = guard_moves [OF assms(2,3)]
  have "frame_inv fs" using frame_inv_step [OF assms(2)] assms(1) by (simp add: index_inv_def)
  moreover have "held_by fs j \<noteq> NoGuard \<Longrightarrow> guard_kind (held_by fs j) = Some (f_kind (frame fs))" for j
    using assms(1) G(2,3,4) by (cases "j = i") (auto simp: index_inv_def)
  moreover have "held_by fs j = Reading g \<Longrightarrow> since' j = ins_log s" for j g
    using assms(1,4,5) G(4) by (cases "j = i") (auto simp: index_inv_def)
  ultimately show ?thesis using assms(1) by (auto simp: index_inv_def G(1,2))
qed

interpretation shared_index: invariant_system "index_init p" "index_step t" "index_inv p" for p t
proof unfold_locales
  fix s assume "index_init p s"
  moreover from this have "frame_init (fsys s)" by (auto simp: index_init_def frame_init_def)
  then have "frame_inv (fsys s)" by (rule frame_lock.inv_init)
  ultimately show "index_inv p s"
    by (auto simp: index_init_def index_inv_def PageFrame_new_def rwlock_new_def raw_def replay_def)
next
  fix s s' assume I: "index_inv p s" and "index_step t s s'"
  from this(2) show "index_inv p s'"
  proof (cases rule: index_step.cases)
    case (take_guard i fs)
    then show ?thesis using index_inv_guard [OF I, of i fs "(since s)(i := ins_log s)"] by simp
  next
    case (drop_guard i fs)
    then show ?thesis using index_inv_guard [OF I, of i fs "since s"] by simp
  next
    case (insert_cell i g key n c r fr)
    show ?thesis unfolding insert_cell(1) by (rule index_inv_insert [OF I insert_cell(2-4)])
  next
    case (insert_panic i g key n c fr)
    let ?s = "s\<lparr>fsys := (fsys s)\<lparr>frame := fr\<rparr>\<rparr>"
    have I': "index_inv p ?s" using index_inv_insert [OF I insert_panic(2-4)] by simp
    have "frame_step i (fsys ?s) (fsys s')" using leave_write [of "fsys ?s" i g True] insert_panic(1,2) by simp
    then show ?thesis using index_inv_guard [OF I', of i "fsys s'" "since s"] by (simp add: insert_panic(1))
  qed
qed

section \<open>Properties\<close>

text \<open>
  A shared index page is linearisable. Whatever the threads do through their guards, the page
  stays a well-formed index page whose entries are the successful insertions replayed in the order
  they took effect, with the right sibling kept; and a thread that holds a read guard finds, with
  every search, the result of the node as it was when it took the guard.
\<close>

theorem shared_index_replay:
  assumes "reach (index_init p) (index_step t) s"
  shows "wf_index (raw (frame (fsys s))) \<and>
    index_entries (raw (frame (fsys s))) = replay (ins_log s) (index_entries p) \<and>
    sibling_of (raw (frame (fsys s))) = sibling_of p \<and>
    (\<forall>i g key. held_by (fsys s) i = Reading g \<longrightarrow>
       guarded_search t g key (frame (fsys s)) = map_err Inr (search_node key (replay (since s i) (index_entries p)) (sibling_of p)))"
proof -
  have I: "index_inv p s" by (rule shared_index.reach_inv [OF assms])
  have W: "wf_index (raw (frame (fsys s)))" using I by (simp add: index_inv_def)
  have "guarded_search t g key (frame (fsys s)) = map_err Inr (search_node key (replay (since s i) (index_entries p)) (sibling_of p))"
    if h: "held_by (fsys s) i = Reading g" for i g key
  proof -
    have "held_by (fsys s) i \<noteq> NoGuard \<longrightarrow> guard_kind (held_by (fsys s) i) = Some (f_kind (frame (fsys s)))"
      "held_by (fsys s) i = Reading g \<longrightarrow> since s i = ins_log s"
      using I unfolding index_inv_def by blast+
    then have "rg_kind g = f_kind (frame (fsys s))" "since s i = ins_log s" using h by simp_all
    then show ?thesis
      using I find_child_ptr_exec [OF W, of t key]
      by (simp add: guarded_search_def slotted_ref_def index_inv_def ref_from_bytes_def ref_from_slotted_page_def)
  qed
  then show ?thesis using I by (simp add: index_inv_def)
qed

text \<open>
  An execution: one thread inserts an entry under a write guard and leaves, another takes a read
  guard and searches.
\<close>

lemma reach_insert_then_read:
  assumes "wf_index p" and "uses_slotted_page_layout k" and "length key < 65536" and "length key + 14 \<le> room_of p"
    and "10 + length key < 4068" and "n \<le> count_of p"
  shows "\<exists>s g. reach (index_init p) (index_step t) s \<and> held_by (fsys s) 1 = Reading g \<and> ins_log s = [(n, key, c)] \<and>
    since s 1 = [(n, key, c)]"
proof -
  let ?fr = "PageFrame_new 10 k p"
  define s0 where "s0 = \<lparr>fsys = \<lparr>frame = ?fr, held_by = (\<lambda>_. NoGuard)\<rparr>, ins_log = [], since = (\<lambda>_. [])\<rparr>"
  let ?g = "FrameWriteGuard k"
  let ?fr1 = "?fr\<lparr>f_latch := (f_latch ?fr)\<lparr>rw_writer := True\<rparr>\<rparr>"
  define s1 where "s1 = s0\<lparr>fsys := \<lparr>frame = ?fr1, held_by = (held_by (fsys s0))(0 := Writing ?g)\<rparr>, since := (since s0)(0 := ins_log s0)\<rparr>"
  have raw: "raw ?fr1 = p" by (simp add: raw_def PageFrame_new_def rwlock_new_def)
  obtain p' where p': "index_add_cell_at_slot_entry_index t n (IndexCellOwned (encode_cell key c)) p = (Ok (), p')"
    using index_insert_fits [OF assms(1,3,4,6), of t c] by blast
  have ins: "guarded_insert t ?g n key c ?fr1 = (Ok (), set_raw p' ?fr1)"
    using assms(2) by (simp add: guarded_insert_def slotted_mut_def from_bytes_def from_slotted_page_def
        IndexCellOwned_new_ok [OF assms(5)] p' raw)
  define s2 where "s2 = s1\<lparr>fsys := (fsys s1)\<lparr>frame := set_raw p' ?fr1\<rparr>, ins_log := ins_log s1 @ [(n, key, c)]\<rparr>"
  define s3 where "s3 = s2\<lparr>fsys := \<lparr>frame = drop_write_guard False (frame (fsys s2)), held_by = (held_by (fsys s2))(0 := NoGuard)\<rparr>\<rparr>"
  let ?fr3 = "frame (fsys s3)"
  define s4 where "s4 = s3\<lparr>fsys := \<lparr>frame = ?fr3\<lparr>f_latch := (f_latch ?fr3)\<lparr>rw_readers := rw_readers (f_latch ?fr3) + 1\<rparr>\<rparr>,
      held_by = (held_by (fsys s3))(1 := Reading (FrameReadGuard (f_kind ?fr3)))\<rparr>, since := (since s3)(1 := ins_log s3)\<rparr>"
  have r0: "reach (index_init p) (index_step t) s0"
    by (rule reach_init) (use assms(1,2) in \<open>auto simp: index_init_def s0_def\<close>)
  have f1: "frame_step 0 (fsys s0) (fsys s1)"
    using take_write [of "fsys s0" 0 ?g ?fr1] by (simp add: s1_def s0_def guards_ok PageFrame_new_def rwlock_new_def)
  have r1: "reach (index_init p) (index_step t) s1"
    using index_step.take_guard [of s0 0 "fsys s1" t] f1 by (intro reach_step [OF r0]) (simp add: s1_def s0_def)
  have r2: "reach (index_init p) (index_step t) s2"
    using index_step.insert_cell [of s1 0 ?g key t n c "Ok ()" "set_raw p' ?fr1"] ins assms(3)
    by (intro reach_step [OF r1]) (simp add: s2_def s1_def)
  have f3: "frame_step 0 (fsys s2) (fsys s3)"
    using leave_write [of "fsys s2" 0 ?g False] by (simp add: s3_def s2_def s1_def)
  have r3: "reach (index_init p) (index_step t) s3"
    using index_step.drop_guard [of s2 0 "fsys s3" t] f3 by (intro reach_step [OF r2]) (simp add: s3_def s2_def s1_def)
  have f4: "frame_step 1 (fsys s3) (fsys s4)"
    unfolding s4_def by (simp, rule take_read)
      (simp_all add: guards_ok s3_def s2_def s1_def s0_def drop_write_guard_def rw_drop_write_def set_raw_def PageFrame_new_def rwlock_new_def)
  have r4: "reach (index_init p) (index_step t) s4"
    using index_step.take_guard [of s3 1 "fsys s4" t] f4 by (intro reach_step [OF r3]) (simp add: s4_def s3_def s2_def s1_def s0_def)
  show ?thesis using r4 by (intro exI [of _ s4]) (simp add: s4_def s3_def s2_def s1_def s0_def)
qed

theorem shared_index_replay_witness:
  "\<exists>s g. reach (index_init demo_index) (index_step dev) s \<and>
     guarded_search dev g [3] (frame (fsys s)) = Ok (Some (PageID 9))"
proof -
  obtain s g where r: "reach (index_init demo_index) (index_step dev) s" and h: "held_by (fsys s) 1 = Reading g"
    and l: "since s 1 = [(0, [5], PageID 9)]"
    using reach_insert_then_read [of demo_index IndexInternal "[5]" 0 dev "PageID 9"] demo_index by auto
  have "guarded_search dev g [3] (frame (fsys s)) =
      map_err Inr (search_node [3] (replay (since s 1) (index_entries demo_index)) (sibling_of demo_index))"
    using shared_index_replay [OF r] h by blast
  then show ?thesis using r by (intro exI [of _ s] exI [of _ g]) (simp add: l [simplified] demo_index replay_def insert_at_def search_node_def)
qed

end
