(* ===== verification/Page_Table.thy ===== *)
theory Page_Table
  imports Page_Frame Latch_Properties
begin

text \<open>
  The page table, \<^verbatim>\<open>buffer/page_table.rs\<close>: the map from page ids to handles. A handle is an
  \<^verbatim>\<open>Arc\<close> of an entry, modelled as the address of the entry in a store, so that two clones of a
  handle are the same latch; an entry is a latch over where the page is. The trait \<^verbatim>\<open>PageTable\<close>
  is the locale \<open>page_table\<close>, and the naive table, a hash map behind a reader-writer lock, is its
  interpretation.
\<close>

section \<open>Definitions\<close>

datatype PageTableResult = Disk u64 | Memory u64

record PageTableEntry =
  pte_state :: "PageTableResult PageTableLatch"

definition PageTableEntry_new :: "target \<Rightarrow> PageID \<Rightarrow> ('e, PageTableEntry) outcome" where
  "PageTableEntry_new t page_id = obind (to_offset t page_id) (\<lambda>off. Ok \<lparr>pte_state = latch_new (Disk off)\<rparr>)"

datatype PageTableHandle = Arc (arc_addr: nat)

record NaiveMappingTable =
  nmt_map :: "(PageID \<rightharpoonup> PageTableHandle) RwLock"

definition NaiveMappingTable_new :: NaiveMappingTable where
  "NaiveMappingTable_new = \<lparr>nmt_map = rwlock_new Map.empty\<rparr>"

text \<open>The lock guard is a temporary of the statement, dropped at its end.\<close>

definition table_get ::
    "PageID \<Rightarrow> NaiveMappingTable \<Rightarrow> (('e, PageTableHandle option) outcome \<times> NaiveMappingTable) option" where
  "table_get page_id self =
     (case rw_read_unwrap (nmt_map self) of
        None \<Rightarrow> None
      | Some (r, l) \<Rightarrow>
          (case r of
             Ok _ \<Rightarrow> Some (Ok (rw_value l page_id), self\<lparr>nmt_map := rw_drop_read l\<rparr>)
           | Err e \<Rightarrow> Some (Err e, self) | Panic \<Rightarrow> Some (Panic, self) | UB \<Rightarrow> Some (UB, self)))"

definition table_insert ::
    "PageID \<Rightarrow> PageTableHandle \<Rightarrow> NaiveMappingTable \<Rightarrow> (('e, unit) outcome \<times> NaiveMappingTable) option" where
  "table_insert page_id entry self =
     (case rw_write_unwrap (nmt_map self) of
        None \<Rightarrow> None
      | Some (r, l) \<Rightarrow>
          (case r of
             Ok _ \<Rightarrow> Some (Ok (), self\<lparr>nmt_map := rw_drop_write False (l\<lparr>rw_value := (rw_value l)(page_id \<mapsto> entry)\<rparr>)\<rparr>)
           | Err e \<Rightarrow> Some (Err e, self) | Panic \<Rightarrow> Some (Panic, self) | UB \<Rightarrow> Some (UB, self)))"

section \<open>The interface\<close>

text \<open>
  What a client of the trait relies on: outside of other calls a lookup returns the handle last
  inserted for the page id and changes nothing, and an insertion changes that one id.
\<close>

locale page_table =
  fixes invar :: "'t \<Rightarrow> bool" and content :: "'t \<Rightarrow> 'i \<rightharpoonup> 'h"
    and get :: "'i \<Rightarrow> 't \<Rightarrow> ((unit, 'h option) outcome \<times> 't) option"
    and insert :: "'i \<Rightarrow> 'h \<Rightarrow> 't \<Rightarrow> ((unit, unit) outcome \<times> 't) option"
  assumes get_content: "invar t \<Longrightarrow> get i t = Some (Ok (content t i), t)"
    and insert_content:
      "invar t \<Longrightarrow> \<exists>t'. insert i h t = Some (Ok (), t') \<and> invar t' \<and> content t' = (content t)(i \<mapsto> h)"
begin

lemma get_after_insert:
  assumes "invar t" and "insert i h t = Some (r, t')"
  shows "get j t' = Some (Ok (if j = i then Some h else content t j), t')"
  using insert_content [OF assms(1), of i h] assms(2) get_content [of t' j] by auto

lemma insert_keeps:
  assumes "invar t" and "insert i h t = Some (r, t')"
  shows "r = Ok ()" "invar t'" "content t' = (content t)(i \<mapsto> h)"
  using insert_content [OF assms(1), of i h] assms(2) by auto

end

section \<open>The naive table\<close>

definition table_idle :: "NaiveMappingTable \<Rightarrow> bool" where
  "table_idle tb \<longleftrightarrow> \<not> rw_writer (nmt_map tb) \<and> rw_readers (nmt_map tb) = 0 \<and> \<not> rw_poisoned (nmt_map tb)"

definition table_content :: "NaiveMappingTable \<Rightarrow> PageID \<rightharpoonup> PageTableHandle" where
  "table_content tb = rw_value (nmt_map tb)"

interpretation naive: page_table table_idle table_content table_get table_insert
proof unfold_locales
  fix tb i h assume idle: "table_idle tb"
  show "table_get i tb = Some (Ok (table_content tb i), tb)"
    using idle by (simp add: table_get_def rw_read_unwrap_def rw_drop_read_def table_idle_def table_content_def)
  show "\<exists>tb'. table_insert i h tb = Some (Ok (), tb') \<and> table_idle tb' \<and> table_content tb' = (table_content tb)(i \<mapsto> h)"
    using idle by (simp add: table_insert_def rw_write_unwrap_def rw_drop_write_def table_idle_def table_content_def)
qed

text \<open>A sequence of insertions.\<close>

fun insert_all :: "(PageID \<times> PageTableHandle) list \<Rightarrow> NaiveMappingTable \<Rightarrow> ((unit, unit) outcome \<times> NaiveMappingTable) option" where
  "insert_all [] tb = Some (Ok (), tb)"
| "insert_all ((i, h) # xs) tb =
     (case table_insert i h tb of
        Some (Ok _, tb') \<Rightarrow> insert_all xs tb'
      | r \<Rightarrow> r)"

lemma insert_all_content:
  assumes "table_idle tb"
  shows "\<exists>tb'. insert_all xs tb = Some (Ok (), tb') \<and> table_idle tb' \<and>
    table_content tb' = table_content tb ++ map_of (rev xs)"
  using assms
proof (induction xs arbitrary: tb)
  case Nil
  then show ?case by simp
next
  case (Cons x xs)
  obtain i h where x: "x = (i, h)" by (cases x)
  from naive.insert_content [OF Cons.prems, of i h] obtain tb1 where
    tb1: "table_insert i h tb = Some (Ok () :: (unit, unit) outcome, tb1)" "table_idle tb1"
      "table_content tb1 = (table_content tb)(i \<mapsto> h)" by blast
  have "(table_content tb)(i \<mapsto> h) ++ map_of (rev xs) = table_content tb ++ map_of (rev (x # xs))"
    by (auto simp: x map_add_def fun_eq_iff split: option.split)
  then have "\<exists>tb'. insert_all xs tb1 = Some (Ok (), tb') \<and> table_idle tb' \<and>
      table_content tb' = table_content tb ++ map_of (rev (x # xs))"
    using Cons.IH [OF tb1(2)] unfolding tb1(3) by metis
  then show ?case unfolding x insert_all.simps tb1(1) by simp
qed

lemma new_table: "table_idle NaiveMappingTable_new" "table_content NaiveMappingTable_new = Map.empty"
  by (simp_all add: NaiveMappingTable_new_def table_idle_def table_content_def rwlock_new_def)

section \<open>Properties\<close>

text \<open>
  The naive table is a map. After any sequence of insertions into a new table, a lookup
  returns the handle inserted last for that page id, or nothing when there was none; no
  operation blocks or panics.
\<close>

theorem naive_table_last_insert:
  "\<exists>tb. insert_all xs NaiveMappingTable_new = Some (Ok (), tb) \<and>
     (\<forall>page_id. table_get page_id tb = Some (Ok (map_of (rev xs) page_id) :: (unit, PageTableHandle option) outcome, tb))"
proof -
  from insert_all_content [OF new_table(1), of xs] obtain tb where
    "insert_all xs NaiveMappingTable_new = Some (Ok (), tb)" "table_idle tb" "table_content tb = map_of (rev xs)"
    by (auto simp: new_table(2))
  then show ?thesis using naive.get_content by metis
qed

text \<open>
  Threads that look a page up share its latch. As long as nobody inserts that page id again,
  lookups before and after any other insertions return the same handle; an insertion of the id
  replaces it, so that the holders of the old handle and of the new one wait on different latches.
\<close>

theorem lookups_share_handle:
  assumes "table_idle tb" and "table_get page_id tb = Some (Ok (Some h) :: (unit, PageTableHandle option) outcome, tb)"
    and "page_id \<notin> fst ` set xs"
  shows "\<exists>tb'. insert_all xs tb = Some (Ok (), tb') \<and>
    table_get page_id tb' = Some (Ok (Some h) :: (unit, PageTableHandle option) outcome, tb') \<and>
    (\<forall>h'. \<exists>tb''. table_insert page_id h' tb' = Some (Ok () :: (unit, unit) outcome, tb'') \<and>
       table_get page_id tb'' = Some (Ok (Some h') :: (unit, PageTableHandle option) outcome, tb''))"
proof -
  from insert_all_content [OF assms(1), of xs] obtain tb' where
    tb': "insert_all xs tb = Some (Ok (), tb')" "table_idle tb'" "table_content tb' = table_content tb ++ map_of (rev xs)"
    by blast
  have "map_of (rev xs) page_id = None" using assms(3) by (simp add: map_of_eq_None_iff)
  then have "table_content tb' page_id = Some h"
    using assms(2) naive.get_content [OF assms(1), of page_id] by (simp add: tb'(3) map_add_def)
  then have g: "table_get page_id tb' = Some (Ok (Some h) :: (unit, PageTableHandle option) outcome, tb')"
    using naive.get_content [OF tb'(2), of page_id] by simp
  have "\<exists>tb''. table_insert page_id h' tb' = Some (Ok () :: (unit, unit) outcome, tb'') \<and>
       table_get page_id tb'' = Some (Ok (Some h') :: (unit, PageTableHandle option) outcome, tb'')" for h'
  proof -
    from naive.insert_content [OF tb'(2), of page_id h'] obtain tb'' where
      i: "table_insert page_id h' tb' = Some (Ok () :: (unit, unit) outcome, tb'')" by blast
    from naive.get_after_insert [OF tb'(2) i, of page_id] i show ?thesis by auto
  qed
  with tb'(1) g show ?thesis by blast
qed

theorem lookups_share_handle_witness:
  "\<exists>tb tb'. table_insert (PageID 1) (Arc 5) NaiveMappingTable_new = Some (Ok () :: (unit, unit) outcome, tb) \<and>
     insert_all [(PageID 2, Arc 6)] tb = Some (Ok (), tb') \<and>
     table_get (PageID 1) tb' = Some (Ok (Some (Arc 5)) :: (unit, PageTableHandle option) outcome, tb')"
proof -
  from naive.insert_content [OF new_table(1), of "PageID 1" "Arc 5"] obtain tb where
    tb: "table_insert (PageID 1) (Arc 5) NaiveMappingTable_new = Some (Ok () :: (unit, unit) outcome, tb)" "table_idle tb"
    by blast
  have "table_get (PageID 1) tb = Some (Ok (Some (Arc 5)) :: (unit, PageTableHandle option) outcome, tb)"
    using naive.get_after_insert [OF new_table(1) tb(1), of "PageID 1"] by simp
  from lookups_share_handle [OF tb(2) this, of "[(PageID 2, Arc 6)]"] tb(1) show ?thesis by auto
qed

text \<open>
  A loader is given its page's place on disk. Whatever threads do with the latch of an entry
  made by \<^verbatim>\<open>PageTableEntry::new\<close>, the closure that runs receives \<^verbatim>\<open>Disk\<close> of the offset of that
  page, and what any thread gets back is what a closure made of it.
\<close>

theorem loader_gets_page_offset:
  assumes "PageTableEntry_new t page_id = (Ok e :: ('e, PageTableEntry) outcome)" and "to_offset t page_id = (Ok off :: ('e, u64) outcome)"
    and "latch s0 = pte_state e" and "\<forall>i. th_pc (threads s0 i) = Idle"
    and "(latch_system t W)\<^sup>*\<^sup>* s0 s"
  shows "(th_pc (threads s i) = AtWork x \<longrightarrow> x = Disk off) \<and>
    (th_pc (threads s i) = Returned (Ok y) \<longrightarrow> (\<exists>w\<in>W. w (Disk off) = Ok y))"
proof -
  have "pte_state e = latch_new (Disk off)" using assms(1,2) by (auto simp: PageTableEntry_new_def)
  then have "latch_init (Disk off) s0" using assms(3,4) by (simp add: latch_init_def)
  from page_latch.steps_inv [OF assms(5) page_latch.inv_init [OF this]]
  have "knows t (Disk off) (th_work (threads s i)) (latch s) (th_pc (threads s i))" "latch_ok (Disk off) W (latch s)"
    by (simp_all add: latch_inv_def)
  then show ?thesis by (auto simp: latch_ok_def latch_consts)
qed

theorem loader_gets_page_offset_witness:
  "\<exists>e x. PageTableEntry_new \<lparr>debug = True, big_endian = False\<rparr> (PageID 2) = (Ok e :: (unit, PageTableEntry) outcome) \<and>
     latch (fresh_shared (Disk 8192)) = pte_state e \<and>
     th_pc (threads (run \<lparr>debug = True, big_endian = False\<rparr> [0, 0, 0] (two_loads (Disk 8192) (\<lambda>_. Ok (Memory 1)))) 0) = AtWork x \<and>
     x = Disk 8192"
proof -
  let ?t = "\<lparr>debug = True, big_endian = False\<rparr>" and ?e = "\<lparr>pte_state = latch_new (Disk 8192)\<rparr>"
  let ?w = "\<lambda>_ :: PageTableResult. (Ok (Memory 1) :: (string, PageTableResult) outcome)"
  let ?s = "run ?t [0, 0, 0] (two_loads (Disk 8192) ?w)"
  have off: "to_offset ?t (PageID 2) = (Ok 8192 :: (unit, u64) outcome)" by (simp add: to_offset_def)
  then have e: "PageTableEntry_new ?t (PageID 2) = (Ok ?e :: (unit, PageTableEntry) outcome)"
    by (simp add: PageTableEntry_new_def)
  have l: "latch (fresh_shared (Disk 8192)) = pte_state ?e" and idle: "\<forall>i. th_pc (threads (fresh_shared (Disk 8192)) i) = Idle"
    by (simp_all add: fresh_shared_def idle_thread_def)
  have steps: "(latch_system ?t {?w})\<^sup>*\<^sup>* (fresh_shared (Disk 8192)) ?s" by (rule fresh_steps) simp
  obtain x where x: "th_pc (threads ?s 0) = AtWork x" by (simp add: exec_eval)
  from loader_gets_page_offset [OF e off l idle steps, of 0 x] x e l show ?thesis by blast
qed

end
