(* ===== verification/Buffer_System.thy ===== *)
theory Buffer_System
  imports Page_Table
begin

text \<open>
  The buffer layer put together: a page table, the entries its handles point to, and any number of
  threads that look pages up and load them, \<^verbatim>\<open>page_table.rs\<close> over \<^verbatim>\<open>page_table_latch.rs\<close>. An \<^verbatim>\<open>Arc\<close> of
  an entry is an address in the store of entries, so clones of one handle are one latch. Every
  statement that locks the table is one step; a load is one step per access to its latch. An entry
  carries the page id it was made for.
\<close>

section \<open>Definitions\<close>

record client =
  c_page :: PageID
  c_handle :: "PageTableHandle option"
  c_thread :: "PageTableResult thread"

record buffer_system =
  bs_table :: NaiveMappingTable
  bs_heap :: "(PageID \<times> PageTableEntry) list"
  bs_clients :: "nat \<Rightarrow> client"

type_synonym loader = "PageTableResult \<Rightarrow> (string, PageTableResult) outcome"

text \<open>
  \<^verbatim>\<open>table.insert(id, Arc::new(PageTableEntry::new(id)))\<close>; \<^verbatim>\<open>table.get(id)\<close> by a thread that is
  outside of \<^verbatim>\<open>load\<close>; the call of \<^verbatim>\<open>load\<close> on the handle it got; a step of that call.
\<close>

inductive buffer_step :: "target \<Rightarrow> loader set \<Rightarrow> buffer_system \<Rightarrow> buffer_system \<Rightarrow> bool" for t W where
  add_page: "PageTableEntry_new t page = (Ok e :: (unit, PageTableEntry) outcome) \<Longrightarrow>
    table_insert page (Arc (length (bs_heap s))) (bs_table s) = Some (Ok () :: (unit, unit) outcome, tb) \<Longrightarrow>
    buffer_step t W s (s\<lparr>bs_table := tb, bs_heap := bs_heap s @ [(page, e)]\<rparr>)"
| find_page: "\<not> in_load (th_pc (c_thread (bs_clients s i))) \<Longrightarrow>
    table_get page (bs_table s) = Some (Ok h :: (unit, PageTableHandle option) outcome, tb) \<Longrightarrow>
    buffer_step t W s (s\<lparr>bs_table := tb,
      bs_clients := (bs_clients s)(i := \<lparr>c_page = page, c_handle = h, c_thread = idle_thread\<rparr>)\<rparr>)"
| call_page: "\<not> in_load (th_pc (c_thread (bs_clients s i))) \<Longrightarrow> c_handle (bs_clients s i) \<noteq> None \<Longrightarrow> work \<in> W \<Longrightarrow>
    buffer_step t W s (s\<lparr>bs_clients := (bs_clients s)(i := (bs_clients s i)\<lparr>c_thread := start_load work\<rparr>)\<rparr>)"
| exec_page: "in_load (th_pc (c_thread (bs_clients s i))) \<Longrightarrow> c_handle (bs_clients s i) = Some (Arc a) \<Longrightarrow>
    load_step t (pte_state (snd (bs_heap s ! a))) (c_thread (bs_clients s i)) = (l, th) \<Longrightarrow>
    buffer_step t W s (s\<lparr>bs_heap := (bs_heap s)[a := (fst (bs_heap s ! a), \<lparr>pte_state = l\<rparr>)],
      bs_clients := (bs_clients s)(i := (bs_clients s i)\<lparr>c_thread := th\<rparr>)\<rparr>)"

definition buffer_init :: "buffer_system \<Rightarrow> bool" where
  "buffer_init s \<longleftrightarrow> bs_table s = NaiveMappingTable_new \<and> bs_heap s = [] \<and>
     (\<forall>i. c_handle (bs_clients s i) = None \<and> c_thread (bs_clients s i) = idle_thread)"

text \<open>How many entries were ever made for a page.\<close>

definition times_added :: "PageID \<Rightarrow> buffer_system \<Rightarrow> nat" where
  "times_added page s = length (filter (\<lambda>e. fst e = page) (bs_heap s))"

section \<open>The invariant\<close>

text \<open>The system as the latch of one entry sees it: threads that do not hold it are idle.\<close>

definition latch_view :: "nat \<Rightarrow> buffer_system \<Rightarrow> PageTableResult shared" where
  "latch_view a s = \<lparr>latch = pte_state (snd (bs_heap s ! a)),
     threads = (\<lambda>i. if c_handle (bs_clients s i) = Some (Arc a) then c_thread (bs_clients s i) else idle_thread)\<rparr>"

definition addr_ok :: "buffer_system \<Rightarrow> PageID \<Rightarrow> PageTableHandle \<Rightarrow> bool" where
  "addr_ok s page h \<longleftrightarrow> arc_addr h < length (bs_heap s) \<and> fst (bs_heap s ! arc_addr h) = page"

definition arc_entry_ok :: "target \<Rightarrow> loader set \<Rightarrow> buffer_system \<Rightarrow> nat \<Rightarrow> bool" where
  "arc_entry_ok t W s a \<longleftrightarrow>
     (\<exists>off. to_offset t (fst (bs_heap s ! a)) = (Ok off :: (unit, u64) outcome) \<and> latch_inv t (Disk off) W (latch_view a s))"

definition buffer_inv :: "target \<Rightarrow> loader set \<Rightarrow> buffer_system \<Rightarrow> bool" where
  "buffer_inv t W s \<longleftrightarrow> table_idle (bs_table s) \<and>
     (\<forall>page h. table_content (bs_table s) page = Some h \<longrightarrow> addr_ok s page h) \<and>
     (\<forall>i h. c_handle (bs_clients s i) = Some h \<longrightarrow> addr_ok s (c_page (bs_clients s i)) h) \<and>
     (\<forall>i. c_handle (bs_clients s i) = None \<longrightarrow> c_thread (bs_clients s i) = idle_thread) \<and>
     (\<forall>a < length (bs_heap s). arc_entry_ok t W s a)"

text \<open>How a step looks through one latch.\<close>

lemma view_replace:
  "latch_view a (s\<lparr>bs_clients := (bs_clients s)(i := c)\<rparr>) =
     (latch_view a s)\<lparr>threads := (threads (latch_view a s))(i := if c_handle c = Some (Arc a) then c_thread c else idle_thread)\<rparr>"
  by (auto simp: latch_view_def)

lemma latch_inv_idle:
  "latch_inv t d W s \<Longrightarrow> latch_inv t d W (s\<lparr>threads := (threads s)(i := idle_thread)\<rparr>)"
  by (rule latch_inv_call) (simp_all add: idle_thread_def closures_ok_def)

lemma view_exec:
  assumes "in_load (th_pc (c_thread (bs_clients s i)))" and "c_handle (bs_clients s i) = Some (Arc a)"
    and "load_step t (pte_state (snd (bs_heap s ! a))) (c_thread (bs_clients s i)) = (l, th)" and "a < length (bs_heap s)"
  defines "s' \<equiv> s\<lparr>bs_heap := (bs_heap s)[a := (fst (bs_heap s ! a), \<lparr>pte_state = l\<rparr>)],
      bs_clients := (bs_clients s)(i := (bs_clients s i)\<lparr>c_thread := th\<rparr>)\<rparr>"
  shows "latch_view a s' = exec t i (latch_view a s)" and "b \<noteq> a \<Longrightarrow> latch_view b s' = latch_view b s"
proof -
  have "\<not> in_peek (th_pc (c_thread (bs_clients s i)))" using assms(1) by (cases "th_pc (c_thread (bs_clients s i))") auto
  then show "latch_view a s' = exec t i (latch_view a s)"
    using assms(2-4) by (auto simp: latch_view_def exec_def s'_def)
  show "b \<noteq> a \<Longrightarrow> latch_view b s' = latch_view b s"
    using assms(2) by (auto simp: latch_view_def s'_def)
qed

lemma entry_ok_stable:
  assumes "arc_entry_ok t W s a" and "fst (bs_heap s' ! a) = fst (bs_heap s ! a)"
    and "\<And>d. latch_inv t d W (latch_view a s) \<Longrightarrow> latch_inv t d W (latch_view a s')"
  shows "arc_entry_ok t W s' a"
  using assms by (auto simp: arc_entry_ok_def)

lemma buffer_inv_add:
  assumes "buffer_inv t W s" and "PageTableEntry_new t page = (Ok e :: (unit, PageTableEntry) outcome)"
    and "table_insert page (Arc (length (bs_heap s))) (bs_table s) = Some (Ok () :: (unit, unit) outcome, tb)"
  shows "buffer_inv t W (s\<lparr>bs_table := tb, bs_heap := bs_heap s @ [(page, e)]\<rparr>)" (is "buffer_inv t W ?s")
proof -
  let ?n = "length (bs_heap s)"
  have I: "table_idle (bs_table s)" "\<And>page h. table_content (bs_table s) page = Some h \<Longrightarrow> addr_ok s page h"
    "\<And>i h. c_handle (bs_clients s i) = Some h \<Longrightarrow> addr_ok s (c_page (bs_clients s i)) h"
    "\<And>i. c_handle (bs_clients s i) = None \<Longrightarrow> c_thread (bs_clients s i) = idle_thread"
    "\<And>a. a < ?n \<Longrightarrow> arc_entry_ok t W s a"
    using assms(1) by (simp_all add: buffer_inv_def)
  note T = naive.insert_keeps [OF I(1) assms(3)]
  have addr: "addr_ok s q h \<Longrightarrow> addr_ok ?s q h" for q h by (simp add: addr_ok_def nth_append)
  have view: "latch_view a ?s = latch_view a s" if "a < ?n" for a using that by (simp add: latch_view_def nth_append fun_eq_iff)
  have free: "c_handle (bs_clients s i) \<noteq> Some (Arc ?n)" for i
    using I(3) [of i "Arc ?n"] by (auto simp: addr_ok_def)
  obtain off where off: "to_offset t page = (Ok off :: (unit, u64) outcome)" and e: "e = \<lparr>pte_state = latch_new (Disk off)\<rparr>"
    using assms(2) by (cases "to_offset t page :: (unit, u64) outcome") (auto simp: PageTableEntry_new_def)
  have "latch_init (Disk off) (latch_view ?n ?s)" using free by (simp add: latch_init_def latch_view_def e idle_thread_def)
  then have new: "arc_entry_ok t W ?s ?n" using off page_latch.inv_init by (auto simp: arc_entry_ok_def)
  have ok: "arc_entry_ok t W ?s a" if "a < Suc ?n" for a
  proof (cases "a = ?n")
    case False
    then have a: "a < ?n" using that by simp
    show ?thesis by (rule entry_ok_stable [OF I(5) [OF a]]) (use a in \<open>simp_all only: view [OF a], simp add: nth_append\<close>)
  qed (use new in simp)
  have "addr_ok ?s page (Arc ?n)" by (simp add: addr_ok_def)
  moreover have "addr_ok ?s q h" if q: "q \<noteq> page" "table_content tb q = Some h" for q h
  proof -
    have "table_content (bs_table s) q = Some h" using q by (simp add: T(3))
    from addr [OF I(2) [OF this]] show ?thesis .
  qed
  moreover have "h = Arc ?n" if "table_content tb page = Some h" for h using that by (simp add: T(3))
  ultimately have "addr_ok ?s q h" if "table_content tb q = Some h" for q h
    using that by metis
  moreover have "arc_entry_ok t W ?s a" if "a < Suc ?n" for a by (rule ok [OF that])
  moreover have "addr_ok ?s (c_page (bs_clients s i)) h" if "c_handle (bs_clients s i) = Some h" for i h
    by (rule addr [OF I(3) [OF that]])
  ultimately show ?thesis using T(2) I(4) by (simp add: buffer_inv_def)
qed

text \<open>A step of thread \<open>i\<close> outside of \<^verbatim>\<open>load\<close> or to its start.\<close>

lemma buffer_inv_client:
  assumes "buffer_inv t W s" and "\<not> in_load (th_pc (c_thread (bs_clients s i)))"
    and "\<And>h. c_handle c = Some h \<Longrightarrow> addr_ok s (c_page c) h" and "c_handle c = None \<Longrightarrow> c_thread c = idle_thread"
    and "c_thread c = idle_thread \<or> (\<exists>work\<in>W. c_thread c = start_load work)"
  shows "buffer_inv t W (s\<lparr>bs_clients := (bs_clients s)(i := c)\<rparr>)" (is "buffer_inv t W ?s")
proof -
  have "arc_entry_ok t W ?s a" if "a < length (bs_heap s)" for a
  proof (rule entry_ok_stable [of t W s a])
    show "arc_entry_ok t W s a" using assms(1) that by (simp add: buffer_inv_def)
    fix d assume inv: "latch_inv t d W (latch_view a s)"
    let ?th = "if c_handle c = Some (Arc a) then c_thread c else idle_thread"
    have "\<not> owner (th_pc ?th)" "closures_ok W ?th" "\<And>l. knows t d (th_work ?th) l (th_pc ?th)"
      using assms(5) by (auto simp: idle_thread_def start_load_def closures_ok_def)
    then show "latch_inv t d W (latch_view a ?s)" unfolding view_replace by (rule latch_inv_call [OF inv])
  qed simp
  moreover have "addr_ok ?s q h = addr_ok s q h" for q h by (simp add: addr_ok_def)
  ultimately show ?thesis using assms(1,3,4) by (simp add: buffer_inv_def)
qed

lemma buffer_inv_exec:
  assumes "buffer_inv t W s" and "in_load (th_pc (c_thread (bs_clients s i)))" and "c_handle (bs_clients s i) = Some (Arc a)"
    and "load_step t (pte_state (snd (bs_heap s ! a))) (c_thread (bs_clients s i)) = (l, th)"
  shows "buffer_inv t W (s\<lparr>bs_heap := (bs_heap s)[a := (fst (bs_heap s ! a), \<lparr>pte_state = l\<rparr>)],
      bs_clients := (bs_clients s)(i := (bs_clients s i)\<lparr>c_thread := th\<rparr>)\<rparr>)" (is "buffer_inv t W ?s")
proof -
  have "addr_ok s (c_page (bs_clients s i)) (Arc a)" using assms(1,3) unfolding buffer_inv_def by blast
  then have a: "a < length (bs_heap s)" by (simp add: addr_ok_def)
  note V = view_exec [OF assms(2-4) a]
  have fst: "fst (bs_heap ?s ! b) = fst (bs_heap s ! b)" if "b < length (bs_heap s)" for b
    using that by (cases "b = a") simp_all
  have "arc_entry_ok t W ?s b" if b: "b < length (bs_heap s)" for b
  proof (rule entry_ok_stable [of t W s b])
    show "arc_entry_ok t W s b" using assms(1) b by (simp add: buffer_inv_def)
    fix d assume inv: "latch_inv t d W (latch_view b s)"
    show "latch_inv t d W (latch_view b ?s)"
    proof (cases "b = a")
      case True
      have "in_load (th_pc (threads (latch_view a s) i))" using assms(2,3) by (simp add: latch_view_def)
      then show ?thesis unfolding True V(1) by (rule latch_inv_exec(1) [OF inv [unfolded True]])
    next
      case False
      show ?thesis unfolding V(2) [OF False] by (rule inv)
    qed
  qed (rule fst [OF b])
  moreover have "addr_ok ?s q h = addr_ok s q h" for q h
    using fst by (auto simp: addr_ok_def)
  ultimately show ?thesis using assms(1,3) by (simp add: buffer_inv_def)
qed

interpretation buffer: invariant_system buffer_init "buffer_step t W" "buffer_inv t W" for t W
proof unfold_locales
  show "buffer_init s \<Longrightarrow> buffer_inv t W s" for s
    by (simp add: buffer_init_def buffer_inv_def new_table)
  fix s s' assume I: "buffer_inv t W s" and "buffer_step t W s s'"
  from this(2) show "buffer_inv t W s'"
  proof cases
    case (add_page page e tb)
    then show ?thesis using buffer_inv_add [OF I] by simp
  next
    case (find_page i page h tb)
    have "table_idle (bs_table s)" using I by (simp add: buffer_inv_def)
    from naive.get_content [OF this, of page] find_page(3) have h: "h = table_content (bs_table s) page" and tb: "tb = bs_table s"
      by simp_all
    have "buffer_inv t W (s\<lparr>bs_clients := (bs_clients s)(i := \<lparr>c_page = page, c_handle = h, c_thread = idle_thread\<rparr>)\<rparr>)"
      using I h find_page(2) by (intro buffer_inv_client) (auto simp: buffer_inv_def)
    then show ?thesis using find_page(1) tb by simp
  next
    case (call_page i work)
    have "addr_ok s (c_page (bs_clients s i)) h" if "c_handle (bs_clients s i) = Some h" for h
      using I that unfolding buffer_inv_def by blast
    then show ?thesis unfolding call_page(1) using call_page(2-4) by (intro buffer_inv_client [OF I]) auto
  next
    case (exec_page i a l th)
    then show ?thesis using buffer_inv_exec [OF I] by simp
  qed
qed

section \<open>Executions\<close>

lemma filter_at_most_one:
  assumes "length (filter P xs) \<le> 1" and "a < length xs" and "b < length xs" and "P (xs ! a)" and "P (xs ! b)"
  shows "a = b"
proof -
  have "card {i. i < length xs \<and> P (xs ! i)} \<le> Suc 0" using assms(1) by (simp add: length_filter_conv_card)
  then show ?thesis using assms(2-5) by (auto simp: card_le_Suc0_iff_eq)
qed

lemma client_latch:
  assumes "reach buffer_init (buffer_step t W) s" and "th_pc (c_thread (bs_clients s i)) = Returned r"
  obtains a off where "c_handle (bs_clients s i) = Some (Arc a)" "a < length (bs_heap s)"
    "fst (bs_heap s ! a) = c_page (bs_clients s i)" "to_offset t (c_page (bs_clients s i)) = (Ok off :: (unit, u64) outcome)"
    "latch_inv t (Disk off) W (latch_view a s)" "threads (latch_view a s) i = c_thread (bs_clients s i)"
proof -
  have I: "buffer_inv t W s" by (rule buffer.reach_inv [OF assms(1)])
  have "c_thread (bs_clients s i) \<noteq> idle_thread" using assms(2) by (auto simp: idle_thread_def)
  then obtain a where a: "c_handle (bs_clients s i) = Some (Arc a)"
    using I unfolding buffer_inv_def by (metis PageTableHandle.exhaust not_None_eq)
  have ad: "addr_ok s (c_page (bs_clients s i)) (Arc a)" using I a unfolding buffer_inv_def by blast
  then have "arc_entry_ok t W s a" using I by (simp add: buffer_inv_def addr_ok_def)
  then obtain off where "to_offset t (c_page (bs_clients s i)) = (Ok off :: (unit, u64) outcome)" "latch_inv t (Disk off) W (latch_view a s)"
    using ad by (auto simp: arc_entry_ok_def addr_ok_def)
  then show ?thesis using that [of a off] a ad by (simp add: latch_view_def addr_ok_def)
qed

text \<open>A thread alone on a latch nobody has touched loads it in six steps.\<close>

lemma solo_load:
  assumes "reach buffer_init (buffer_step t W) s" and "c_handle (bs_clients s i) = Some (Arc a)"
    and "\<not> in_load (th_pc (c_thread (bs_clients s i)))" and "a < length (bs_heap s)"
    and "pte_state (snd (bs_heap s ! a)) = latch_new d" and "w \<in> W" and "w d = Ok v"
  shows "\<exists>s'. reach buffer_init (buffer_step t W) s' \<and> th_pc (c_thread (bs_clients s' i)) = Returned (Ok v) \<and>
    bs_table s' = bs_table s \<and> c_page (bs_clients s' i) = c_page (bs_clients s i) \<and>
    (\<forall>j. j \<noteq> i \<longrightarrow> bs_clients s' j = bs_clients s j) \<and> map fst (bs_heap s') = map fst (bs_heap s) \<and>
    (\<forall>b. b \<noteq> a \<longrightarrow> bs_heap s' ! b = bs_heap s ! b)"
proof -
  let ?R = "reach buffer_init (buffer_step t W)" and ?c = "bs_clients s i" and ?p = "fst (bs_heap s ! a)"
  define st where "st l pc = s\<lparr>bs_heap := (bs_heap s)[a := (?p, \<lparr>pte_state = l\<rparr>)],
      bs_clients := (bs_clients s)(i := ?c\<lparr>c_thread := (start_load w)\<lparr>th_pc := pc\<rparr>\<rparr>)\<rparr>" for l pc
  have go: "?R (st l' pc')" if "?R (st l pc)" "in_load pc"
    "load_step t l ((start_load w)\<lparr>th_pc := pc\<rparr>) = (l', (start_load w)\<lparr>th_pc := pc'\<rparr>)" for l pc l' pc'
    using exec_page [of "st l pc" i a t l' "(start_load w)\<lparr>th_pc := pc'\<rparr>" W] that assms(2,4)
    by (intro reach_step [OF that(1)]) (simp add: st_def)
  have heap: "bs_heap s = (bs_heap s)[a := (?p, \<lparr>pte_state = latch_new d\<rparr>)]"
    using assms(4,5) by (metis (full_types) PageTableEntry.surjective list_update_id old.unit.exhaust prod.collapse)
  have "?R (st (latch_new d) AtLoop)"
    using call_page [of s i w W t] assms(2,3,6) heap
    by (intro reach_step [OF assms(1)]) (simp add: st_def start_load_def)
  then have "?R (st (latch_new d) AtCas)" by (rule go) (simp_all add: load_step_def latch_new_def latch_consts start_load_def)
  then have "?R (st ((latch_new d)\<lparr>l_state := PT_LOADING\<rparr>) AtCloneForWork)"
    by (rule go) (simp_all add: load_step_def latch_new_def start_load_def)
  then have "?R (st ((latch_new d)\<lparr>l_state := PT_LOADING\<rparr>) (AtWork d))"
    by (rule go) (simp_all add: load_step_def latch_new_def start_load_def)
  then have "?R (st ((latch_new d)\<lparr>l_state := PT_LOADING\<rparr>) (AtWriteBack v))"
    by (rule go) (simp_all add: load_step_def start_load_def assms(7))
  then have "?R (st ((latch_new d)\<lparr>l_state := PT_LOADING, l_data := v\<rparr>) (AtPublish v))"
    by (rule go) (simp_all add: load_step_def start_load_def)
  then have "?R (st ((latch_new d)\<lparr>l_state := PT_IN_MEMORY, l_data := v\<rparr>) (Returned (Ok v)))"
    by (rule go) (simp_all add: load_step_def start_load_def latch_new_def)
  moreover have "(map fst (bs_heap s))[a := ?p] = map fst (bs_heap s)" using assms(4) by (metis list_update_id nth_map)
  ultimately show ?thesis
    by (intro exI conjI) (assumption, simp_all add: st_def map_update)
qed

definition empty_buffer :: buffer_system where
  "empty_buffer = \<lparr>bs_table = NaiveMappingTable_new, bs_heap = [],
     bs_clients = (\<lambda>_. \<lparr>c_page = PageID 0, c_handle = None, c_thread = idle_thread\<rparr>)\<rparr>"

text \<open>One thread adds a page, and thread \<open>i\<close> finds the entry.\<close>

lemma reach_add_find:
  assumes "reach buffer_init (buffer_step t W) s" and "to_offset t page = (Ok off :: (unit, u64) outcome)"
    and "\<not> in_load (th_pc (c_thread (bs_clients s i)))"
  shows "\<exists>s'. reach buffer_init (buffer_step t W) s' \<and>
    bs_heap s' = bs_heap s @ [(page, \<lparr>pte_state = latch_new (Disk off)\<rparr>)] \<and>
    bs_clients s' = (bs_clients s)(i := \<lparr>c_page = page, c_handle = Some (Arc (length (bs_heap s))), c_thread = idle_thread\<rparr>)"
proof -
  let ?e = "\<lparr>pte_state = latch_new (Disk off)\<rparr>" and ?h = "Arc (length (bs_heap s))"
  have idle: "table_idle (bs_table s)" using buffer.reach_inv [OF assms(1)] by (simp add: buffer_inv_def)
  from naive.insert_content [OF idle, of page ?h] obtain tb where
    tb: "table_insert page ?h (bs_table s) = Some (Ok () :: (unit, unit) outcome, tb)" by blast
  let ?s = "s\<lparr>bs_table := tb, bs_heap := bs_heap s @ [(page, ?e)]\<rparr>"
  have e: "PageTableEntry_new t page = (Ok ?e :: (unit, PageTableEntry) outcome)"
    by (simp add: PageTableEntry_new_def assms(2))
  have r: "reach buffer_init (buffer_step t W) ?s" by (rule reach_step [OF assms(1) add_page [OF e tb]])
  have g: "table_get page tb = Some (Ok (Some ?h) :: (unit, PageTableHandle option) outcome, tb)"
    using naive.get_after_insert [OF idle tb, of page] by simp
  have "reach buffer_init (buffer_step t W) (?s\<lparr>bs_table := tb,
      bs_clients := (bs_clients ?s)(i := \<lparr>c_page = page, c_handle = Some ?h, c_thread = idle_thread\<rparr>)\<rparr>)"
    by (rule reach_step [OF r find_page]) (simp_all add: assms(3) g)
  then show ?thesis by (intro exI conjI) (assumption, simp_all)
qed

lemma reach_empty: "reach buffer_init (buffer_step t W) empty_buffer"
  by (rule reach_init) (simp add: buffer_init_def empty_buffer_def)

section \<open>Properties\<close>

text \<open>
  C13: Loading a page through the table. As long as an entry was made at most once for a page id,
  all threads that looked that id up and loaded it got the same value, and it is what one of the
  closures makes of \<^verbatim>\<open>Disk\<close> of the offset of that page, whatever the threads do with this and
  with other pages.
\<close>

theorem page_load_agreement:
  assumes "reach buffer_init (buffer_step t W) s" and "times_added page s \<le> 1"
    and "c_page (bs_clients s i) = page" and "th_pc (c_thread (bs_clients s i)) = Returned (Ok v)"
    and "c_page (bs_clients s j) = page" and "th_pc (c_thread (bs_clients s j)) = Returned (Ok u)"
  shows "u = v \<and> (\<exists>off. to_offset t page = (Ok off :: (unit, u64) outcome) \<and> (\<exists>w\<in>W. w (Disk off) = Ok v))"
proof -
  obtain a off where a: "a < length (bs_heap s)" "fst (bs_heap s ! a) = page" "to_offset t page = (Ok off :: (unit, u64) outcome)"
    "latch_inv t (Disk off) W (latch_view a s)" "threads (latch_view a s) i = c_thread (bs_clients s i)"
    using client_latch [OF assms(1,4)] assms(3) by metis
  obtain b where b: "b < length (bs_heap s)" "fst (bs_heap s ! b) = page" "threads (latch_view b s) j = c_thread (bs_clients s j)"
    using client_latch [OF assms(1,6)] assms(5) by metis
  have "b = a"
    using filter_at_most_one [OF assms(2) [unfolded times_added_def] b(1) a(1)] b(2) a(2) by simp
  have k: "knows t (Disk off) (th_work (threads (latch_view a s) x)) (latch (latch_view a s)) (th_pc (threads (latch_view a s) x))" for x
    using a(4) by (simp add: latch_inv_def)
  have "l_state (latch (latch_view a s)) = PT_IN_MEMORY" "l_data (latch (latch_view a s)) = v" "l_data (latch (latch_view a s)) = u"
    using k [of i] k [of j] a(5) b(3) assms(4,6) \<open>b = a\<close> by simp_all
  then show ?thesis using a(3,4) by (auto simp: latch_inv_def latch_ok_def latch_consts)
qed

theorem page_load_agreement_witness:
  "\<exists>s. reach buffer_init (buffer_step \<lparr>debug = True, big_endian = False\<rparr> {\<lambda>_. Ok (Memory 7)}) s \<and>
     th_pc (c_thread (bs_clients s 0)) = Returned (Ok (Memory 7)) \<and>
     (\<exists>off. to_offset \<lparr>debug = True, big_endian = False\<rparr> (PageID 2) = (Ok off :: (unit, u64) outcome))"
proof -
  let ?t = "\<lparr>debug = True, big_endian = False\<rparr>" and ?w = "\<lambda>_ :: PageTableResult. (Ok (Memory 7) :: (string, PageTableResult) outcome)"
  have off: "to_offset ?t (PageID 2) = (Ok 8192 :: (unit, u64) outcome)" by (simp add: to_offset_def)
  have "\<not> in_load (th_pc (c_thread (bs_clients empty_buffer 0)))" by (simp add: empty_buffer_def idle_thread_def)
  from reach_add_find [OF reach_empty off this] obtain s where s: "reach buffer_init (buffer_step ?t {?w}) s"
    "bs_heap s = [(PageID 2, \<lparr>pte_state = latch_new (Disk 8192)\<rparr>)]"
    "bs_clients s 0 = \<lparr>c_page = PageID 2, c_handle = Some (Arc 0), c_thread = idle_thread\<rparr>"
    by (fastforce simp: empty_buffer_def)
  from solo_load [OF s(1), of 0 0 "Disk 8192" ?w "Memory 7"] s(2,3) obtain s' where
    s': "reach buffer_init (buffer_step ?t {?w}) s'" "th_pc (c_thread (bs_clients s' 0)) = Returned (Ok (Memory 7))"
    "c_page (bs_clients s' 0) = PageID 2" "map fst (bs_heap s') = [PageID 2]"
    by (auto simp: idle_thread_def)
  have "times_added (PageID 2) s' \<le> 1" using s'(4) by (auto simp: times_added_def)
  from page_load_agreement [OF s'(1) this s'(3,2) s'(3,2)] s'(1,2) show ?thesis by blast
qed

text \<open>
  C38: A page inserted twice is loaded twice. The table has no operation that looks an id up and
  inserts it in one step, and \<^verbatim>\<open>insert\<close> replaces an entry without a check. Two threads that each add
  and look up the same page id get different latches, both run their closure, and they can come
  back with different places for the same page.
\<close>

theorem double_insert_loads_twice:
  assumes "to_offset t page = (Ok off :: (unit, u64) outcome)" and "w\<^sub>1 \<in> W" and "w\<^sub>2 \<in> W"
    and "w\<^sub>1 (Disk off) = Ok v\<^sub>1" and "w\<^sub>2 (Disk off) = Ok v\<^sub>2"
  shows "\<exists>s. reach buffer_init (buffer_step t W) s \<and> times_added page s = 2 \<and>
    c_page (bs_clients s 0) = page \<and> th_pc (c_thread (bs_clients s 0)) = Returned (Ok v\<^sub>1) \<and>
    c_page (bs_clients s 1) = page \<and> th_pc (c_thread (bs_clients s 1)) = Returned (Ok v\<^sub>2)"
proof -
  let ?R = "reach buffer_init (buffer_step t W)"
  have "\<not> in_load (th_pc (c_thread (bs_clients empty_buffer 0)))" by (simp add: empty_buffer_def idle_thread_def)
  from reach_add_find [OF reach_empty assms(1) this] obtain s1 where s1: "?R s1"
    "bs_heap s1 = [(page, \<lparr>pte_state = latch_new (Disk off)\<rparr>)]"
    "bs_clients s1 = (bs_clients empty_buffer)(0 := \<lparr>c_page = page, c_handle = Some (Arc 0), c_thread = idle_thread\<rparr>)"
    by (fastforce simp: empty_buffer_def)
  have "\<not> in_load (th_pc (c_thread (bs_clients s1 1)))" by (simp add: s1(3) empty_buffer_def idle_thread_def)
  from reach_add_find [OF s1(1) assms(1) this] obtain s2 where s2: "?R s2"
    "bs_heap s2 = [(page, \<lparr>pte_state = latch_new (Disk off)\<rparr>), (page, \<lparr>pte_state = latch_new (Disk off)\<rparr>)]"
    "bs_clients s2 0 = \<lparr>c_page = page, c_handle = Some (Arc 0), c_thread = idle_thread\<rparr>"
    "bs_clients s2 1 = \<lparr>c_page = page, c_handle = Some (Arc 1), c_thread = idle_thread\<rparr>"
    by (auto simp: s1(2,3))
  have "c_handle (bs_clients s2 0) = Some (Arc 0)" "\<not> in_load (th_pc (c_thread (bs_clients s2 0)))" "0 < length (bs_heap s2)"
    "pte_state (snd (bs_heap s2 ! 0)) = latch_new (Disk off)"
    by (simp_all add: s2 idle_thread_def)
  from solo_load [OF s2(1) this assms(2,4)] obtain s3 where s3: "?R s3"
    "th_pc (c_thread (bs_clients s3 0)) = Returned (Ok v\<^sub>1)" "c_page (bs_clients s3 0) = c_page (bs_clients s2 0)"
    "\<forall>j. j \<noteq> 0 \<longrightarrow> bs_clients s3 j = bs_clients s2 j" "map fst (bs_heap s3) = map fst (bs_heap s2)"
    "\<forall>b. b \<noteq> 0 \<longrightarrow> bs_heap s3 ! b = bs_heap s2 ! b"
    by blast
  have len: "length (bs_heap s3) = 2" using arg_cong [OF s3(5), of length] by (simp add: s2(2))
  have "c_handle (bs_clients s3 1) = Some (Arc 1)" "\<not> in_load (th_pc (c_thread (bs_clients s3 1)))" "1 < length (bs_heap s3)"
    "pte_state (snd (bs_heap s3 ! 1)) = latch_new (Disk off)"
    using s3(4,6) by (simp_all add: s2(2,4) [simplified] len idle_thread_def)
  from solo_load [OF s3(1) this assms(3,5)] obtain s4 where s4: "?R s4"
    "th_pc (c_thread (bs_clients s4 1)) = Returned (Ok v\<^sub>2)" "c_page (bs_clients s4 1) = c_page (bs_clients s3 1)"
    "\<forall>j. j \<noteq> 1 \<longrightarrow> bs_clients s4 j = bs_clients s3 j" "map fst (bs_heap s4) = map fst (bs_heap s3)"
    by blast
  have m: "map fst (bs_heap s4) = [page, page]" using s4(5) s3(5) by (simp add: s2(2))
  have p: "c_page (bs_clients s4 1) = page" "bs_clients s4 0 = bs_clients s3 0" "c_page (bs_clients s3 0) = page"
    using s4(3,4) s3(3,4) by (simp_all add: s2(3,4) [simplified])
  have "times_added page s4 = 2" using m by (auto simp: times_added_def)
  then show ?thesis using s4(1,2) s3(2) p by (intro exI [of _ s4]) simp
qed

theorem double_insert_loads_twice_witness:
  "\<exists>s. reach buffer_init (buffer_step \<lparr>debug = True, big_endian = False\<rparr> {\<lambda>_. Ok (Memory 7), \<lambda>_. Ok (Memory 8)}) s \<and>
     th_pc (c_thread (bs_clients s 0)) = Returned (Ok (Memory 7)) \<and> th_pc (c_thread (bs_clients s 1)) = Returned (Ok (Memory 8))"
  using double_insert_loads_twice [of "\<lparr>debug = True, big_endian = False\<rparr>" "PageID 2" 8192 "\<lambda>_. Ok (Memory 7)"
      "{\<lambda>_. Ok (Memory 7), \<lambda>_. Ok (Memory 8)}" "\<lambda>_. Ok (Memory 8)" "Memory 7" "Memory 8"]
  by (auto simp: to_offset_def)

end
