(* ===== verification/Repo_Tests.thy ===== *)
theory Repo_Tests
  imports Index_Properties Page_Table
begin

text \<open>
  The unit tests of the repository as definitions, with a proof that each of them passes: in every
  build, on either byte order, and for the concurrent ones under every schedule that lets the
  threads run. A test is a call whose outcome is a panic when one of its assertions fails. Printing
  and timing are left out; what is printed is computed all the same, as a result.
\<close>

section \<open>The tests of the slotted page\<close>

definition op_unwrap :: "('s, 'e, 'a) op \<Rightarrow> ('s, 'e, 'a) op" where
  "op_unwrap f s = (case f s of (Err e, s') \<Rightarrow> (Panic, s') | r \<Rightarrow> r)"

text \<open>A statement that drops the \<^verbatim>\<open>Result\<close> of a call.\<close>

definition op_ignore :: "('s, 'e, 'a) op \<Rightarrow> ('s, 'e, unit) op" where
  "op_ignore f s = (case f s of (Ok a, s') \<Rightarrow> (Ok (), s') | (Err e, s') \<Rightarrow> (Ok (), s') | (Panic, s') \<Rightarrow> (Panic, s') | (UB, s') \<Rightarrow> (UB, s'))"

definition assert_eq :: "'a \<Rightarrow> 'a \<Rightarrow> ('s, 'e, unit) op" where
  "assert_eq a b = op_out (rust_assert (a = b))"

definition getters_and_setters :: "target \<Rightarrow> unit page_op" where
  "getters_and_setters t =
     op_bind (init_new 255) (\<lambda>_.
     op_bind (op_read get_page_type) (\<lambda>c_page_type.
     op_bind (assert_eq c_page_type 255) (\<lambda>_.
     op_bind (set_page_type 1) (\<lambda>_.
     op_bind (op_read get_page_type) (\<lambda>pt.
     op_bind (assert_eq pt 1) (\<lambda>_.
     op_bind (op_read (free_start t)) (\<lambda>c_free_start.
     op_bind (assert_eq c_free_start HEADER_SIZE) (\<lambda>_.
     op_bind (set_free_start t 25) (\<lambda>_.
     op_bind (op_read (free_start t)) (\<lambda>fs.
     op_bind (assert_eq fs 25) (\<lambda>_.
     op_bind (op_read (free_end t)) (\<lambda>c_free_end.
     op_bind (assert_eq c_free_end PAGE_SIZE) (\<lambda>_.
     op_bind (op_ignore (set_free_end t (PAGE_SIZE - 10))) (\<lambda>_.
     op_bind (op_read (free_end t)) (\<lambda>fe.
     assert_eq fe (PAGE_SIZE - 10))))))))))))))))"

text \<open>\<^verbatim>\<open>for (i, se) in sd.iter().enumerate()\<close> with its two assertions.\<close>

fun assert_slots :: "(u16 \<times> u16) list \<Rightarrow> nat \<Rightarrow> SlotEntry list \<Rightarrow> ('e, unit) outcome" where
  "assert_slots assert_vec i [] = Ok ()"
| "assert_slots assert_vec i (se # ses) =
     (if i < length assert_vec
      then obind (rust_assert (fst (assert_vec ! i) = se_length se)) (\<lambda>_.
           obind (rust_assert (snd (assert_vec ! i) = se_offset se)) (\<lambda>_.
           assert_slots assert_vec (i + 1) ses))
      else Panic)"

definition slot_dir :: "target \<Rightarrow> unit page_op" where
  "slot_dir t =
     op_bind (init_new 255) (\<lambda>_.
     op_bind (op_unwrap (append_slot_entry t 100 12)) (\<lambda>_.
     op_bind (op_unwrap (append_slot_entry t 200 21)) (\<lambda>_.
     op_bind (op_unwrap (append_slot_entry t 300 22)) (\<lambda>_.
     op_read (\<lambda>p.
       obind (ref_slot_dir_ref t (ref_from_bytes p)) (\<lambda>sd.
       obind (iter_collect t p (slot_iter sd)) (assert_slots [(100, 12), (200, 21), (300, 22)] 0)))))))"

definition check_undefined_special :: "target \<Rightarrow> unit page_op" where
  "check_undefined_special t =
     op_bind (init_new 255) (\<lambda>_.
     op_read (\<lambda>p. case get_special_mut t p of Ok _ \<Rightarrow> Panic | Err e \<Rightarrow> Ok () | Panic \<Rightarrow> Panic | UB \<Rightarrow> UB))"

text \<open>The loops that print the directory; the entries printed are the result.\<close>

definition print_slots :: "target \<Rightarrow> SlotEntry list page_op" where
  "print_slots t = op_read (\<lambda>p. obind (slot_dir_ref t p) (\<lambda>sd. iter_collect t p (slot_iter sd)))"

definition check_insert_entry_at_index :: "target \<Rightarrow> (SlotEntry list \<times> SlotEntry list) page_op" where
  "check_insert_entry_at_index t =
     op_bind (init_new 255) (\<lambda>_.
     op_bind (op_unwrap (insert_slot_entry_at_index t 0 \<lparr>se_offset = 20, se_length = 10\<rparr>)) (\<lambda>_.
     op_bind (op_unwrap (append_slot_entry t 12 100)) (\<lambda>_.
     op_bind (op_unwrap (append_slot_entry t 15 150)) (\<lambda>_.
     op_bind (op_unwrap (append_slot_entry t 40 200)) (\<lambda>_.
     op_bind (print_slots t) (\<lambda>before.
     op_bind (op_unwrap (insert_slot_entry_at_index t 2 \<lparr>se_offset = 50, se_length = 30\<rparr>)) (\<lambda>_.
     op_bind (print_slots t) (\<lambda>after.
     op_ret (before, after)))))))))"

text \<open>
  What \<^verbatim>\<open>str::from_utf8\<close> accepts: sequences of one to four bytes, with the ranges of the second byte
  that leave out overlong forms, surrogates and what is above U+10FFFF.
\<close>

definition utf8_tail :: "u8 \<Rightarrow> bool" where
  "utf8_tail b \<longleftrightarrow> 128 \<le> b \<and> b < 192"

definition utf8_pair :: "u8 \<Rightarrow> u8 \<Rightarrow> bool" where
  "utf8_pair a b \<longleftrightarrow> 194 \<le> a \<and> a \<le> 223 \<and> utf8_tail b"

definition utf8_triple :: "u8 \<Rightarrow> u8 \<Rightarrow> u8 \<Rightarrow> bool" where
  "utf8_triple a b c \<longleftrightarrow> 224 \<le> a \<and> a \<le> 239 \<and> utf8_tail b \<and> (a = 224 \<longrightarrow> 160 \<le> b) \<and> (a = 237 \<longrightarrow> b < 160) \<and> utf8_tail c"

definition utf8_quad :: "u8 \<Rightarrow> u8 \<Rightarrow> u8 \<Rightarrow> u8 \<Rightarrow> bool" where
  "utf8_quad a b c d \<longleftrightarrow>
     240 \<le> a \<and> a \<le> 244 \<and> utf8_tail b \<and> (a = 240 \<longrightarrow> 144 \<le> b) \<and> (a = 244 \<longrightarrow> b < 144) \<and> utf8_tail c \<and> utf8_tail d"

fun from_utf8_ok :: "block \<Rightarrow> bool" where
  "from_utf8_ok [] \<longleftrightarrow> True"
| "from_utf8_ok (a # bs) \<longleftrightarrow>
     (if a < 128 then from_utf8_ok bs
      else case bs of
        b # cs \<Rightarrow> if utf8_pair a b then from_utf8_ok cs
          else (case cs of
            c # ds \<Rightarrow> if utf8_triple a b c then from_utf8_ok ds
              else (case ds of d # es \<Rightarrow> utf8_quad a b c d \<and> from_utf8_ok es | [] \<Rightarrow> False)
          | [] \<Rightarrow> False)
      | [] \<Rightarrow> False)"

definition test_cell :: block where
  "test_cell = map of_char ''I am a cell''"

text \<open>The result is the contents printed: the cell, or nothing when the lookup fails.\<close>

definition adding_cell_append :: "target \<Rightarrow> block option page_op" where
  "adding_cell_append t =
     op_bind (init_new 255) (\<lambda>_.
     op_bind (op_unwrap (add_cell_append_slot_entry t test_cell)) (\<lambda>_.
     op_read (\<lambda>p. case cell_slice_from_id t p (SlotID 0) of
          Ok cell \<Rightarrow> obind (rust_assert (from_utf8_ok cell)) (\<lambda>_. Ok (Some cell))
        | Err e \<Rightarrow> Ok None | Panic \<Rightarrow> Panic | UB \<Rightarrow> UB)))"

section \<open>The tests of \<^verbatim>\<open>mod.rs\<close> and of the frame\<close>

definition test_bits :: "PageStates list" where
  "test_bits = extract_all_flags (set_flag (PageFlags_new FastParent) HasOverflow)"

definition get_internal_index_page :: "(IndexPageError, PageKind \<times> PageKind) outcome" where
  "get_internal_index_page =
     (case op_bind (lift_page (init_new (PageKind_into_u8 Undefined))) (\<lambda>_.
           op_bind (index_set_page_type IndexInternal) (\<lambda>_.
           op_read (\<lambda>p. index_kind (from_slotted_page p)))) (replicate 4096 0) of
        (Ok printed, raw_page) \<Rightarrow>
          (let fr = PageFrame_new 10 IndexInternal raw_page in
           case frame_read (\<lambda>rp. obind (ref_index_kind (ref_from_slotted_page (ref_from_bytes rp))) (\<lambda>_. Ok () :: (unit, unit) outcome)) fr of
             Some (Ok _, fr') \<Rightarrow> obind (ref_index_kind (raw fr')) (\<lambda>k. Ok (printed, k))
           | Some (r, fr') \<Rightarrow> Panic
           | None \<Rightarrow> Panic)
      | (Err e, p) \<Rightarrow> Err e | (Panic, p) \<Rightarrow> Panic | (UB, p) \<Rightarrow> UB)"

section \<open>Running them\<close>

definition test_page :: RawPage where
  "test_page = init_bytes 255 (replicate 4096 0)"

lemma test_page:
  "init_new 255 (replicate 4096 0) = (Ok (), test_page)" "length test_page = 4096" "wf_cells test_page" "wf_page test_page"
  "fs_of test_page = 24" "fe_of test_page = 4096" "special_of test_page = 0" "count_of test_page = 0"
  "get_page_type test_page = Ok 255" "entries_of test_page = []"
proof -
  note R = init_bytes_reads [OF zero_page(1), of 255, folded test_page_def]
  note F = init_new_fresh [OF zero_page, of 255, folded test_page_def]
  show "init_new 255 (replicate 4096 0) = (Ok (), test_page)" unfolding test_page_def by (rule init_new_exec) simp
  show "length test_page = 4096" "fs_of test_page = 24" "fe_of test_page = 4096" using R by simp_all
  show "special_of test_page = 0" using R zero_page by simp
  show "get_page_type test_page = Ok 255" using R by (simp add: get_page_type_def layout_defs)
  show c: "count_of test_page = 0" and w: "wf_cells test_page" using F by simp_all
  then show "wf_page test_page" by (simp add: wf_cells_def)
  show "entries_of test_page = []" using c by (simp add: entries_of_def)
qed

text \<open>A page used for its slot directory only, with room for more entries.\<close>

definition dir_page :: "SlotEntry list \<Rightarrow> RawPage \<Rightarrow> bool" where
  "dir_page es p \<longleftrightarrow> wf_page p \<and> fe_of p = 4096 \<and> entries_of p = es"

lemma dir_insert:
  assumes "dir_page es p" and "length es < 1000" and "i \<le> length es"
  shows "\<exists>p'. insert_slot_entry_at_index t i e p = (Ok (), p') \<and> dir_page (insert_at i e es) p'"
proof -
  have wf: "wf_page p" and fe: "fe_of p = 4096" and es: "entries_of p = es" using assms(1) by (simp_all add: dir_page_def)
  note D = wf_pageD [OF wf]
  have n: "count_of p = length es" using es length_entries [of p] by simp
  have room: "4 \<le> fe_of p - fs_of p" and i: "i \<le> count_of p" using D(6) n fe assms(2,3) by simp_all
  note F = put_entry_fields [OF wf room i, where e = e]
  have "wf_page (put_entry p i e)"
    using D F(1,2,4) room put_entry_reads(1) [OF wf room i, where e = e] by (simp add: wf_page_def layout_defs)
  then have "dir_page (insert_at i e es) (put_entry p i e)"
    using F(2) fe put_entry_entries [OF wf room i, of e] es by (simp add: dir_page_def)
  then show ?thesis using insert_slot_entry_ok [OF wf room i, of t e] by blast
qed

lemma dir_append:
  assumes "dir_page es p" and "length es < 1000"
  shows "\<exists>p'. append_slot_entry t len off p = (Ok (), p') \<and> dir_page (es @ [\<lparr>se_offset = off, se_length = len\<rparr>]) p'"
proof -
  have wf: "wf_page p" and fe: "fe_of p = 4096" and es: "entries_of p = es" using assms(1) by (simp_all add: dir_page_def)
  have n: "count_of p = length es" using es length_entries [of p] by simp
  have room: "4 \<le> fe_of p - fs_of p" using wf_pageD(6) [OF wf] n fe assms(2) by simp
  show ?thesis
    using dir_insert [OF assms(1,2) le_refl, of t "\<lparr>se_offset = off, se_length = len\<rparr>"]
      append_slot_entry_ok [OF wf room, of t len off] insert_slot_entry_ok [OF wf room, of "length es" t] n
    by (simp add: insert_at_def)
qed

lemma dir_print: "dir_page es p \<Longrightarrow> print_slots t p = (Ok es, p)"
  by (simp add: dir_page_def print_slots_def op_read_def slot_dir_ref_ok slot_iter_def SlotDirIter_new_def
      iter_collect_from [where k = 0])

lemma dir_test_page: "dir_page [] test_page"
  by (simp add: dir_page_def test_page)

lemma getters_and_setters_passes: "fst (getters_and_setters t (replicate 4096 0)) = Ok ()"
proof -
  let ?fs = "\<lambda>p. free_start t p :: (PageError, usize) outcome" and ?fe = "\<lambda>p. free_end t p :: (PageError, usize) outcome"
  define p1 where "p1 = snd (set_page_type 1 test_page)"
  define p2 where "p2 = snd (set_free_start t 25 p1)"
  define p3 where "p3 = snd (set_free_end t 4086 p2)"
  have 1: "set_page_type 1 test_page = (Ok (), p1)" "get_page_type p1 = (Ok 1 :: (PageError, u8) outcome)" "length p1 = 4096"
    "\<And>i. i < 4096 \<Longrightarrow> i \<noteq> 10 \<Longrightarrow> p1 ! i = test_page ! i"
    using sets_bytes(1) [OF test_page(2), of 1] test_page(2)
    by (auto simp: p1_def sets_field_def layout_defs split: prod.splits)
  have h1: "word_at p1 q = word_at test_page q" if "12 \<le> q" "q < 4000" for q
    using 1(3,4) test_page(2) that by (auto simp: word_at_def bytes_at_def intro!: arg_cong [of _ _ from_le_bytes] nth_equalityI)
  have f1: "fs_of p1 = 24" "fe_of p1 = 4096"
    using test_page(5,6) by (simp_all add: fs_of_def fe_of_def layout_defs h1)
  have 2: "set_free_start t 25 p1 = (Ok (), p2)" "?fs p2 = Ok 25" "length p2 = 4096"
    "\<And>i. i < 4096 \<Longrightarrow> i < 12 \<or> 14 \<le> i \<Longrightarrow> p2 ! i = p1 ! i"
    using sets_u16(1) [OF 1(3), of 25 t] 1(3) by (auto simp: p2_def sets_field_def layout_defs split: prod.splits)
  have "word_at p2 14 = word_at p1 14"
    using 1(3) 2(3,4) by (auto simp: word_at_def bytes_at_def intro!: arg_cong [of _ _ from_le_bytes] nth_equalityI)
  then have f2: "fe_of p2 = 4096" "fs_of p2 = 25"
    using f1 2(2) header_reads(1) [of p2 t, where 'a = PageError] 2(3) by (simp_all add: fe_of_def layout_defs)
  have 3: "set_free_end t 4086 p2 = (Ok (), p3)" "?fe p3 = Ok 4086"
    using sets_u16(2) [OF 2(3), of 4086 t] f2 by (auto simp: p3_def sets_field_def layout_defs split: prod.splits)
  have r: "?fs p1 = Ok 24" "?fe p2 = Ok 4096" using f1 f2 1(3) 2(3) by (simp_all add: header_reads layout_defs)
  show ?thesis
    using 1(1,2) 2(1,2) 3 r
    by (simp add: getters_and_setters_def op_bind_def op_read_def op_out_def op_ignore_def assert_eq_def rust_assert_def
        test_page(1,9) layout_defs)
qed

lemma slot_dir_passes: "fst (slot_dir t (replicate 4096 0)) = Ok ()"
proof -
  obtain p1 where 1: "append_slot_entry t 100 12 test_page = (Ok (), p1)" "dir_page [\<lparr>se_offset = 12, se_length = 100\<rparr>] p1"
    using dir_append [OF dir_test_page, of t 100 12] by auto
  obtain p2 where 2: "append_slot_entry t 200 21 p1 = (Ok (), p2)"
    "dir_page [\<lparr>se_offset = 12, se_length = 100\<rparr>, \<lparr>se_offset = 21, se_length = 200\<rparr>] p2"
    using dir_append [OF 1(2), of t 200 21] by auto
  obtain p3 where 3: "append_slot_entry t 300 22 p2 = (Ok (), p3)"
    "dir_page [\<lparr>se_offset = 12, se_length = 100\<rparr>, \<lparr>se_offset = 21, se_length = 200\<rparr>, \<lparr>se_offset = 22, se_length = 300\<rparr>] p3"
    using dir_append [OF 2(2), of t 300 22] by auto
  have w: "wf_page p3" using 3(2) by (simp add: dir_page_def)
  have it: "obind (slot_dir_ref t p3) (\<lambda>sd. iter_collect t p3 (slot_iter sd)) = (Ok (entries_of p3) :: (PageError, SlotEntry list) outcome)"
    by (simp add: slot_dir_ref_ok [OF w] slot_iter_def SlotDirIter_new_def iter_collect_from [OF w, of 0])
  show ?thesis
    using 3(2) it
    by (simp add: slot_dir_def op_bind_def op_unwrap_def test_page(1) 1(1) 2(1) 3(1)
        op_read_def ref_view_eqs ref_from_bytes_def slot_dir_ref_ok [OF w] dir_page_def rust_assert_def)
qed

lemma check_undefined_special_passes: "fst (check_undefined_special t (replicate 4096 0)) = Ok ()"
proof -
  have "get_special_mut t test_page = Err SpecialOffsetIsZero"
    using test_page(2,7) by (simp add: get_special_mut_def header_reads layout_defs special_of_def Let_def)
  then show ?thesis by (simp add: check_undefined_special_def op_bind_def op_unwrap_def test_page(1) op_read_def)
qed

lemma check_insert_entry_at_index_result:
  "fst (check_insert_entry_at_index t (replicate 4096 0)) =
     Ok ([\<lparr>se_offset = 20, se_length = 10\<rparr>, \<lparr>se_offset = 100, se_length = 12\<rparr>, \<lparr>se_offset = 150, se_length = 15\<rparr>,
          \<lparr>se_offset = 200, se_length = 40\<rparr>],
         [\<lparr>se_offset = 20, se_length = 10\<rparr>, \<lparr>se_offset = 100, se_length = 12\<rparr>, \<lparr>se_offset = 50, se_length = 30\<rparr>,
          \<lparr>se_offset = 150, se_length = 15\<rparr>, \<lparr>se_offset = 200, se_length = 40\<rparr>])"
proof -
  let ?a = "\<lparr>se_offset = 20, se_length = 10\<rparr> :: SlotEntry" and ?b = "\<lparr>se_offset = 100, se_length = 12\<rparr> :: SlotEntry"
  let ?c = "\<lparr>se_offset = 150, se_length = 15\<rparr> :: SlotEntry" and ?d = "\<lparr>se_offset = 200, se_length = 40\<rparr> :: SlotEntry"
  let ?e = "\<lparr>se_offset = 50, se_length = 30\<rparr> :: SlotEntry"
  obtain p1 where 1: "insert_slot_entry_at_index t 0 ?a test_page = (Ok (), p1)" "dir_page [?a] p1"
    using dir_insert [OF dir_test_page, of 0 t ?a] by (auto simp: insert_at_def)
  obtain p2 where 2: "append_slot_entry t 12 100 p1 = (Ok (), p2)" "dir_page [?a, ?b] p2"
    using dir_append [OF 1(2), of t 12 100] by auto
  obtain p3 where 3: "append_slot_entry t 15 150 p2 = (Ok (), p3)" "dir_page [?a, ?b, ?c] p3"
    using dir_append [OF 2(2), of t 15 150] by auto
  obtain p4 where 4: "append_slot_entry t 40 200 p3 = (Ok (), p4)" "dir_page [?a, ?b, ?c, ?d] p4"
    using dir_append [OF 3(2), of t 40 200] by auto
  obtain p5 where 5: "insert_slot_entry_at_index t 2 ?e p4 = (Ok (), p5)" "dir_page [?a, ?b, ?e, ?c, ?d] p5"
    using dir_insert [OF 4(2), of 2 t ?e] by (auto simp: insert_at_def)
  show ?thesis
    by (simp add: check_insert_entry_at_index_def op_bind_def op_unwrap_def test_page(1) 1(1) 2(1)
        3(1) 4(1) 5(1) dir_print [OF 4(2)]
        dir_print [OF 5(2)] op_ret_def)
qed

lemma adding_cell_append_passes: "fst (adding_cell_append t (replicate 4096 0)) = Ok (Some test_cell)"
proof -
  note W = test_page(3,4)
  have len: "length test_cell = 11" by (simp add: test_cell_def)
  have room: "length test_cell + 4 \<le> fe_of test_page - fs_of test_page" using test_page(5,6) by (simp add: len)
  let ?p = "put_cell test_page 0 test_cell"
  have X: "add_cell_append_slot_entry t test_cell test_page = (Ok (), ?p)"
    using add_cell_append_exec [OF W(2), of test_cell t] room test_page(8) by (simp add: len)
  have "cell_slice_from_id t ?p (SlotID 0) = Ok test_cell"
    using cell_slice_from_id_ok [OF wf_cells_put_cell [OF W(1) room, of 0], of t "SlotID 0"]
      cells_put_cell [OF W(1) room, of 0] test_page(8)
    by (simp add: abs_lookup_def abs_of_def insert_at_def cells_Nil_iff)
  moreover have "from_utf8_ok test_cell" by (simp add: test_cell_def)
  ultimately show ?thesis
    by (simp add: adding_cell_append_def op_bind_def op_unwrap_def test_page(1) X op_read_def rust_assert_def)
qed

lemma get_internal_index_page_result: "get_internal_index_page = Ok (IndexInternal, IndexInternal)"
proof -
  let ?p0 = "init_bytes (PageKind_into_u8 Undefined) (replicate 4096 0)"
  let ?p1 = "patch ?p0 10 [PageKind_into_u8 IndexInternal]"
  have l: "length ?p0 = 4096" by (rule init_bytes_reads(1)) simp
  have i: "lift_page (init_new (PageKind_into_u8 Undefined)) (replicate 4096 0) = (Ok (), ?p0)"
    using init_new_exec [of "replicate 4096 0" "PageKind_into_u8 Undefined"] by (simp add: lift_page_eq)
  have s: "index_set_page_type IndexInternal ?p0 = (Ok (), ?p1)"
    using l by (simp add: index_set_page_type_def lift_page_eq set_page_type_def rust_simps layout_defs)
  have b: "get_page_type ?p1 = Ok (PageKind_into_u8 IndexInternal)"
    using l by (simp add: get_page_type_def rust_simps layout_defs length_patch nth_patch)
  have k: "index_kind ?p1 = Ok IndexInternal"
    using page_kind_from_kind [of IndexInternal] by (simp add: index_kind_def index_get_page_type_def b del: PageKind_into_u8.simps)
  have r: "ref_index_kind ?p1 = Ok IndexInternal"
    using page_kind_from_kind [of IndexInternal] by (simp add: ref_index_kind_def ref_index_get_page_type_def ref_view_eqs b del: PageKind_into_u8.simps)
  show ?thesis
    by (simp add: get_internal_index_page_def op_bind_def op_unwrap_def i s op_read_def from_slotted_page_def
        k r frame_read_ok [OF unlocked_new(1)] unlocked_new(2) ref_from_slotted_page_def ref_from_bytes_def Let_def
        del: PageKind_into_u8.simps)
qed

section \<open>The concurrent tests\<close>

text \<open>The threads of a test: \<open>n\<close> calls of \<^verbatim>\<open>load\<close> with the same closure on one latch, started together.\<close>

definition spawn_loads :: "nat \<Rightarrow> ('a \<Rightarrow> (string, 'a) outcome) \<Rightarrow> 'a PageTableLatch \<Rightarrow> 'a shared" where
  "spawn_loads n work l = \<lparr>latch = l, threads = (\<lambda>i. if i < n then start_load work else idle_thread)\<rparr>"

text \<open>
  \<^verbatim>\<open>test_naive_map\<close>: two entries are inserted, then every thread looks the first one up and loads it.
  All threads do the same lookup in a table that nobody changes any more, so it is done once; the
  result is the system after the scheduler ran the threads.
\<close>

definition test_naive_map :: "target \<Rightarrow> nat list \<Rightarrow> (unit, PageTableResult shared) outcome" where
  "test_naive_map t sched =
     obind (PageTableEntry_new t (PageID 1234)) (\<lambda>entry1.
     obind (PageTableEntry_new t (PageID 5678)) (\<lambda>entry2.
     case insert_all [(PageID 1234, Arc 0), (PageID 5678, Arc 1)] NaiveMappingTable_new of
       Some (Ok _, naive) \<Rightarrow>
         (case (table_get (PageID 1234) naive :: ((unit, PageTableHandle option) outcome \<times> NaiveMappingTable) option) of
            Some (Ok (Some first), _) \<Rightarrow>
              Ok (run t sched (spawn_loads 10 (\<lambda>data. Ok (Memory (PageID_into (PageID 1234))))
                                 (pte_state ([entry1, entry2] ! arc_addr first))))
          | _ \<Rightarrow> Panic)
     | _ \<Rightarrow> Panic))"

text \<open>
  The end of a thread of the benchmark: its value is the time it took, since \<^verbatim>\<open>.ok()\<close> drops the result
  of \<^verbatim>\<open>load\<close>; a panic ends it too, and before either it is still running, so that a join waits.
\<close>

fun thread_end :: "nat \<Rightarrow> u32 pc \<Rightarrow> (unit, nat) outcome option" where
  "thread_end time (Returned (Ok v)) = Some (Ok time)"
| "thread_end time (Returned (Err e)) = Some (Ok time)"
| "thread_end time (Returned Panic) = Some Panic"
| "thread_end time (Returned UB) = Some UB"
| "thread_end time _ = None"

text \<open>\<^verbatim>\<open>times.push(t.join().unwrap())\<close> for every handle in order; \<open>None\<close> when a join waits.\<close>

fun join_all :: "(unit, nat) outcome option list \<Rightarrow> (unit, nat list) outcome option" where
  "join_all [] = Some (Ok [])"
| "join_all (None # handles) = None"
| "join_all (Some h # handles) =
     (case h of
        Ok t \<Rightarrow> map_option (\<lambda>r. obind r (\<lambda>ts. Ok (t # ts))) (join_all handles)
      | UB \<Rightarrow> Some UB | _ \<Rightarrow> Some Panic)"

text \<open>
  The report: the times, \<^verbatim>\<open>u128\<close> nanoseconds, sorted for the minimum, the percentiles and the maximum.
\<close>

definition get_or_0 :: "nat list \<Rightarrow> usize \<Rightarrow> nat" where
  "get_or_0 results i = (if i < length results then results ! i else 0)"

definition bench_report :: "nat list \<Rightarrow> nat \<times> nat \<times> nat \<times> nat \<times> nat" where
  "bench_report ts =
     (let results = sort ts in
      (get_or_0 results 0,
       get_or_0 results (length results div 2),
       get_or_0 results (length results * 9 div 10),
       get_or_0 results (length results * 99 div 100),
       case results of [] \<Rightarrow> 0 | _ \<Rightarrow> last results))"

text \<open>
  \<^verbatim>\<open>page_latch_thread_benches\<close>: one latch for all rounds, set back to \<^verbatim>\<open>PT_ON_DISK\<close> before each. A round
  is the number of its threads, the schedule they run under and the times they measure; its threads are
  joined, and only then its report is made and the next round started. The result has the outcomes of
  the calls of each round with its report.
\<close>

type_synonym bench_round = "nat \<times> nat list \<times> (nat \<Rightarrow> nat)"
type_synonym bench_result = "u32 pc list \<times> (nat \<times> nat \<times> nat \<times> nat \<times> nat)"

fun page_latch_thread_benches ::
    "target \<Rightarrow> bench_round list \<Rightarrow> u32 PageTableLatch \<Rightarrow> (unit, bench_result list) outcome option" where
  "page_latch_thread_benches t [] l = Some (Ok [])"
| "page_latch_thread_benches t ((n, sched, took) # rest) l =
     (let s = run t sched (spawn_loads n (\<lambda>_. Ok 10) (l\<lparr>l_state := PT_ON_DISK\<rparr>));
          pcs = map (\<lambda>i. th_pc (threads s i)) [0..<n]
      in case join_all (map (\<lambda>i. thread_end (took i) (pcs ! i)) [0..<n]) of
           Some (Ok ts) \<Rightarrow>
             map_option (\<lambda>r. obind r (\<lambda>results. Ok ((pcs, bench_report ts) # results)))
               (page_latch_thread_benches t rest (latch s))
         | Some Panic \<Rightarrow> Some Panic
         | Some (Err e) \<Rightarrow> Some (Err e)
         | Some UB \<Rightarrow> Some UB
         | None \<Rightarrow> None)"

definition THREADS :: "nat list" where
  "THREADS = [1, 2, 10, 20, 50, 100, 250, 500, 750, 1000]"

text \<open>
  A schedule that lets \<open>n\<close> threads run: nine rounds with every thread in each, and in a debug build
  no thread so often that its back-off counter could reach 255.
\<close>

definition fair_sched :: "target \<Rightarrow> nat \<Rightarrow> nat list \<Rightarrow> bool" where
  "fair_sched t n sched \<longleftrightarrow>
     (\<exists>rounds. sched = concat rounds \<and> length rounds = 9 \<and> (\<forall>r\<in>set rounds. {..<n} \<subseteq> set r)) \<and>
     (debug t \<longrightarrow> (\<forall>i. count_list sched i \<le> 255))"

text \<open>Below that bound the build makes no difference.\<close>

lemma exec_build:
  assumes "unat (spin_count (threads s i)) < 255"
  shows "exec t i s = exec (t\<lparr>debug := b\<rparr>) i s"
    and "unat (spin_count (threads (exec t i s) j)) \<le> unat (spin_count (threads s j)) + (if j = i then 1 else 0)"
proof -
  have n: "spin_count (threads s i) \<noteq> 255" using assms by auto
  show "exec t i s = exec (t\<lparr>debug := b\<rparr>) i s" by (simp add: exec_def load_step_def n cong: pc.case_cong)
  have "unat (spin_count (threads s i) + 1) \<le> unat (spin_count (threads s i)) + 1"
    by (simp add: unat_word_ariths)
  then show "unat (spin_count (threads (exec t i s) j)) \<le> unat (spin_count (threads s j)) + (if j = i then 1 else 0)"
    by (auto simp: exec_def load_step_def peek_step_def Let_def split: pc.splits outcome.splits)
qed

lemma run_build:
  assumes "\<And>i. unat (spin_count (threads s i)) + count_list js i \<le> 255"
  shows "run t js s = run (t\<lparr>debug := b\<rparr>) js s"
  using assms
proof (induction js arbitrary: s)
  case Nil
  then show ?case by simp
next
  case (Cons j js)
  have j: "unat (spin_count (threads s j)) < 255" using Cons.prems [of j] by simp
  have "unat (spin_count (threads (exec t j s) i)) + count_list js i \<le> 255" for i
    using exec_build(2) [OF j, of t i] Cons.prems [of i] by (auto split: if_splits)
  from Cons.IH [OF this] show ?case using exec_build(1) [OF j, of t b] by simp
qed

lemma reach_spawn:
  assumes "w \<in> W"
  shows "reach (latch_init d) (load_system t W) (spawn_loads n w (latch_new d))"
proof (induction n)
  case 0
  show ?case by (rule reach_init) (simp add: latch_init_def spawn_loads_def idle_thread_def)
next
  case (Suc n)
  let ?s = "spawn_loads n w (latch_new d)"
  have "load_system t W ?s (?s\<lparr>threads := (threads ?s)(n := start_load w)\<rparr>)"
    by (rule call_load) (simp_all add: spawn_loads_def idle_thread_def assms)
  moreover have "?s\<lparr>threads := (threads ?s)(n := start_load w)\<rparr> = spawn_loads (Suc n) w (latch_new d)"
    by (auto simp: spawn_loads_def less_Suc_eq)
  ultimately show ?case using reach_step [OF Suc.IH] by metis
qed

text \<open>All threads of a test come back with what the closure makes of the data.\<close>

lemma spawned_loads_complete:
  assumes "fair_sched t n sched" and "w d = Ok v" and "i < n"
  shows "th_pc (threads (run t sched (spawn_loads n w (latch_new d))) i) = Returned (Ok v) \<and>
    latch (run t sched (spawn_loads n w (latch_new d))) = \<lparr>l_state = PT_IN_MEMORY, l_data = v\<rparr>"
proof -
  let ?t = "t\<lparr>debug := False\<rparr>" and ?s = "spawn_loads n w (latch_new d)"
  obtain rounds where rounds: "sched = concat rounds" "length rounds = 9" "\<forall>r\<in>set rounds. {..<n} \<subseteq> set r"
    using assms(1) by (auto simp: fair_sched_def)
  have "unat (spin_count (threads ?s j)) = 0" for j by (simp add: spawn_loads_def start_load_def idle_thread_def)
  then have "debug t \<Longrightarrow> run t sched ?s = run ?t sched ?s"
    using assms(1) by (intro run_build) (simp add: fair_sched_def)
  moreover have "\<not> debug t \<Longrightarrow> ?t = t" by simp
  ultimately have eq: "run t sched ?s = run ?t sched ?s" by metis
  have r: "reach (latch_init d) (latch_system ?t {w}) ?s" by (intro load_reach reach_spawn) simp
  have e: "reach (latch_init d) (latch_system ?t {w}) (run ?t sched ?s)" by (intro load_reach reach_run reach_spawn) simp
  have "\<forall>r\<in>set rounds. \<forall>q. in_load (th_pc (threads ?s q)) \<longrightarrow> q \<in> set r"
    using rounds(3) by (auto simp: spawn_loads_def idle_thread_def)
  then obtain u where u: "th_pc (threads (run ?t sched ?s) i) = Returned (Ok u)"
    "latch (run ?t sched ?s) = \<lparr>l_state = PT_IN_MEMORY, l_data = u\<rparr>"
    using fair_completes [OF r, of i rounds] assms(2,3) rounds(1,2) by (auto simp: spawn_loads_def start_load_def)
  have "latch_ok d {w} (latch (run ?t sched ?s))" using page_latch.reach_inv [OF e] by (simp add: latch_inv_def)
  then have "u = v" using u(2) assms(2) by (simp add: latch_ok_def latch_consts)
  then show ?thesis unfolding eq using u by simp
qed

lemma test_naive_map_run:
  "test_naive_map t sched =
     Ok (run t sched (spawn_loads 10 (\<lambda>_. Ok (Memory 1234)) (latch_new (Disk 5054464))))"
proof -
  have e: "PageTableEntry_new t (PageID 1234) = (Ok \<lparr>pte_state = latch_new (Disk 5054464)\<rparr> :: (unit, PageTableEntry) outcome)"
    "\<exists>e. PageTableEntry_new t (PageID 5678) = (Ok e :: (unit, PageTableEntry) outcome)"
    by (simp_all add: PageTableEntry_new_def to_offset_def)
  from insert_all_content [OF new_table(1), of "[(PageID 1234, Arc 0), (PageID 5678, Arc 1)]"] obtain tb where
    tb: "insert_all [(PageID 1234, Arc 0), (PageID 5678, Arc 1)] NaiveMappingTable_new = Some (Ok (), tb)" "table_idle tb"
      "table_content tb (PageID 1234) = Some (Arc 0)"
    by (auto simp: new_table(2))
  have "table_get (PageID 1234) tb = Some (Ok (Some (Arc 0)) :: (unit, PageTableHandle option) outcome, tb)"
    using naive.get_content [OF tb(2), of "PageID 1234"] tb(3) by simp
  then show ?thesis using e tb(1) by (auto simp: test_naive_map_def PageID_into_def)
qed

lemma join_all_Ok: "join_all (map (\<lambda>i. Some (Ok (f i))) is) = Some (Ok (map f is))"
  by (induction "is") simp_all

lemma benches_complete:
  assumes "\<forall>(n, sched, took) \<in> set rs. 0 < n \<and> fair_sched t n sched" and "l_data l = 10"
  shows "page_latch_thread_benches t rs l =
    Some (Ok (map (\<lambda>(n, sched, took). (replicate n (Returned (Ok 10)), bench_report (map took [0..<n]))) rs))"
  using assms
proof (induction rs arbitrary: l)
  case Nil
  then show ?case by simp
next
  case (Cons r rs)
  obtain n sched took where r: "r = (n, sched, took)" by (cases r)
  have n: "0 < n" "fair_sched t n sched" using Cons.prems(1) r by auto
  let ?w = "\<lambda>_ :: u32. (Ok 10 :: (string, u32) outcome)"
  have l: "l\<lparr>l_state := PT_ON_DISK\<rparr> = latch_new 10" using Cons.prems(2) by (simp add: latch_new_def PageTableLatch.equality)
  let ?s = "run t sched (spawn_loads n ?w (latch_new 10))"
  note S = spawned_loads_complete [OF n(2), of ?w 10 10]
  have "l_data (latch ?s) = 10" using S [of 0] n(1) by simp
  then have IH: "page_latch_thread_benches t rs (latch ?s) =
      Some (Ok (map (\<lambda>(n, sched, took). (replicate n (Returned (Ok 10)), bench_report (map took [0..<n]))) rs))"
    using Cons.IH [of "latch ?s"] Cons.prems(1) by auto
  have p: "map (\<lambda>i. th_pc (threads ?s i)) [0..<n] = replicate n (Returned (Ok 10))"
    using S by (intro nth_equalityI) simp_all
  have "map (\<lambda>i. thread_end (took i) (replicate n (Returned (Ok 10)) ! i)) [0..<n] = map (\<lambda>i. Some (Ok (took i))) [0..<n]"
    by simp
  then have j: "join_all (map (\<lambda>i. thread_end (took i) (replicate n (Returned (Ok 10)) ! i)) [0..<n]) = Some (Ok (map took [0..<n]))"
    unfolding join_all_Ok [symmetric] by (rule arg_cong)
  show ?case unfolding r page_latch_thread_benches.simps l Let_def p j by (simp add: IH)
qed

lemma fair_round_robin: "fair_sched t n (concat (replicate 9 [0..<n]))"
proof -
  have one: "count_list [0..<n] i \<le> 1" for i by (induction n) (auto simp: count_list_0_iff)
  have rep: "count_list (concat (replicate k xs)) i = k * count_list xs i" for k xs and i :: nat
    by (induction k) simp_all
  have "count_list (concat (replicate 9 [0..<n])) i \<le> 255" for i
    unfolding rep using one [of i] by simp
  then show ?thesis unfolding fair_sched_def
    by (intro conjI exI [of _ "replicate 9 [0..<n]"]) auto
qed

section \<open>The report of the benchmark\<close>

lemma get_or_0_mono: "i \<le> j \<Longrightarrow> j < length xs \<Longrightarrow> get_or_0 (sort xs) i \<le> get_or_0 (sort xs) j"
  by (simp add: get_or_0_def sorted_nth_mono)

lemma bench_report_ordered:
  assumes "ts \<noteq> []" and "bench_report ts = (lo, p50, p90, p99, hi)"
  shows "lo \<le> p50 \<and> p50 \<le> p90 \<and> p90 \<le> p99 \<and> p99 \<le> hi \<and> lo = Min (set ts) \<and> hi = Max (set ts) \<and>
    {p50, p90, p99} \<subseteq> set ts"
proof -
  let ?n = "length ts" and ?g = "get_or_0 (sort ts)"
  have n: "0 < ?n" using assms(1) by simp
  have last: "(case sort ts of [] \<Rightarrow> 0 | _ \<Rightarrow> last (sort ts)) = ?g (?n - 1)"
  proof -
    have ne: "sort ts \<noteq> []" using n by (metis length_greater_0_conv length_sort)
    then have "(case sort ts of [] \<Rightarrow> 0 | _ \<Rightarrow> last (sort ts)) = last (sort ts)" by (simp split: list.split)
    also have "\<dots> = ?g (?n - 1)" using n last_conv_nth [OF ne] by (simp add: get_or_0_def)
    finally show ?thesis .
  qed
  have e: "lo = ?g 0" "p50 = ?g (?n div 2)" "p90 = ?g (?n * 9 div 10)" "p99 = ?g (?n * 99 div 100)" "hi = ?g (?n - 1)"
    using assms(2) by (simp_all add: bench_report_def Let_def last)
  have i: "?n div 2 \<le> ?n * 9 div 10" "?n * 9 div 10 \<le> ?n * 99 div 100" "?n * 99 div 100 \<le> ?n - 1" "?n - 1 < ?n"
    using n by linarith+
  have mem: "?g k \<in> set ts" if "k < ?n" for k using that nth_mem [of k "sort ts"] by (simp add: get_or_0_def)
  have between: "?g 0 \<le> x \<and> x \<le> ?g (?n - 1)" if x: "x \<in> set ts" for x
  proof -
    obtain k where "k < ?n" "x = ?g k" using x by (metis get_or_0_def in_set_conv_nth length_sort set_sort)
    then show ?thesis using get_or_0_mono [of 0 k ts] get_or_0_mono [of k "?n - 1" ts] by simp
  qed
  have "?g 0 = Min (set ts)" "?g (?n - 1) = Max (set ts)"
    using between mem [OF n] mem [OF i(4)] by (auto intro!: Min_eqI [symmetric] Max_eqI [symmetric])
  moreover have r: "?n div 2 < ?n" "?n * 9 div 10 < ?n" "?n * 99 div 100 < ?n" using i n by linarith+
  moreover note get_or_0_mono [OF i(1) r(2)] get_or_0_mono [OF i(2) r(3)]
  ultimately show ?thesis unfolding e using between [OF mem] mem by auto
qed

section \<open>Properties\<close>

text \<open>
  The sequential tests of the repository pass, in every build and on either byte order: no
  assertion of \<^verbatim>\<open>getters_and_setters\<close>, \<^verbatim>\<open>slot_dir\<close> and \<^verbatim>\<open>check_undefined_special\<close> fails, \<^verbatim>\<open>adding_cell_append\<close> prints the cell it added,
  \<^verbatim>\<open>check_insert_entry_at_index\<close> prints the four entries and then the five with the new one at index
  2, \<^verbatim>\<open>test_bits\<close> prints both flags, and \<^verbatim>\<open>get_internal_index_page\<close> sees the kind it set before and
  inside the frame.
\<close>

theorem sequential_tests_pass:
  "fst (getters_and_setters t (replicate 4096 0)) = Ok () \<and>
   fst (slot_dir t (replicate 4096 0)) = Ok () \<and>
   fst (check_undefined_special t (replicate 4096 0)) = Ok () \<and>
   fst (adding_cell_append t (replicate 4096 0)) = Ok (Some (map of_char ''I am a cell'')) \<and>
   fst (check_insert_entry_at_index t (replicate 4096 0)) =
     Ok ([\<lparr>se_offset = 20, se_length = 10\<rparr>, \<lparr>se_offset = 100, se_length = 12\<rparr>, \<lparr>se_offset = 150, se_length = 15\<rparr>,
          \<lparr>se_offset = 200, se_length = 40\<rparr>],
         [\<lparr>se_offset = 20, se_length = 10\<rparr>, \<lparr>se_offset = 100, se_length = 12\<rparr>, \<lparr>se_offset = 50, se_length = 30\<rparr>,
          \<lparr>se_offset = 150, se_length = 15\<rparr>, \<lparr>se_offset = 200, se_length = 40\<rparr>]) \<and>
   test_bits = [FastParent, HasOverflow] \<and>
   get_internal_index_page = Ok (IndexInternal, IndexInternal)"
proof -
  have "test_bits = [FastParent, HasOverflow]" by code_simp
  then show ?thesis
    using getters_and_setters_passes slot_dir_passes check_undefined_special_passes adding_cell_append_passes [unfolded test_cell_def]
      check_insert_entry_at_index_result get_internal_index_page_result by blast
qed

text \<open>
  C29: The concurrent tests of the repository pass. In \<^verbatim>\<open>test_naive_map\<close> no setup step panics and all
  ten threads get \<^verbatim>\<open>Memory(1234)\<close>; in \<^verbatim>\<open>page_latch_thread_benches\<close> every call of every round, with 1 to
  1000 threads on the same latch, returns \<^verbatim>\<open>Ok(10)\<close>, every join returns, so that the test ends, and the
  report of a round is made of the times of all its threads. This holds for every schedule that gives each
  thread a step in each of nine rounds, and in a debug build gives no thread more than 255 steps.
\<close>

theorem concurrent_tests_pass:
  assumes "fair_sched t 10 sched" and "map fst rounds = THREADS" and "\<forall>(n, sched, took) \<in> set rounds. fair_sched t n sched"
  shows "(\<exists>s. test_naive_map t sched = Ok s \<and> (\<forall>i<10. th_pc (threads s i) = Returned (Ok (Memory 1234)))) \<and>
    page_latch_thread_benches t rounds \<lparr>l_state = PT_IN_MEMORY, l_data = 10\<rparr> =
      Some (Ok (map (\<lambda>(n, sched, took). (replicate n (Returned (Ok 10)), bench_report (map took [0..<n]))) rounds))"
proof
  have "th_pc (threads (run t sched (spawn_loads 10 (\<lambda>_. Ok (Memory 1234)) (latch_new (Disk 5054464)))) i) =
      Returned (Ok (Memory 1234))" if "i < 10" for i
    using spawned_loads_complete [OF assms(1), of "\<lambda>_. Ok (Memory 1234)" "Disk 5054464" "Memory 1234" i] that by simp
  then show "\<exists>s. test_naive_map t sched = Ok s \<and> (\<forall>i<10. th_pc (threads s i) = Returned (Ok (Memory 1234)))"
    by (simp add: test_naive_map_run)
  have "0 < n" if "n \<in> set (map fst rounds)" for n using that unfolding assms(2) by (auto simp: THREADS_def)
  then have "\<forall>(n, sched, took) \<in> set rounds. 0 < n \<and> fair_sched t n sched" using assms(3) by force
  then show "page_latch_thread_benches t rounds \<lparr>l_state = PT_IN_MEMORY, l_data = 10\<rparr> =
      Some (Ok (map (\<lambda>(n, sched, took). (replicate n (Returned (Ok 10)), bench_report (map took [0..<n]))) rounds))"
    by (rule benches_complete) simp
qed

theorem concurrent_tests_pass_witness:
  "(\<exists>s. test_naive_map \<lparr>debug = True, big_endian = False\<rparr> (concat (replicate 9 [0..<10])) = Ok s \<and>
     th_pc (threads s 7) = Returned (Ok (Memory 1234))) \<and>
   page_latch_thread_benches \<lparr>debug = True, big_endian = False\<rparr> (map (\<lambda>n. (n, concat (replicate 9 [0..<n]), \<lambda>i. i)) THREADS)
     \<lparr>l_state = PT_IN_MEMORY, l_data = 10\<rparr> =
     Some (Ok (map (\<lambda>n. (replicate n (Returned (Ok 10)), bench_report [0..<n])) THREADS))"
proof -
  let ?t = "\<lparr>debug = True, big_endian = False\<rparr>"
  let ?rs = "map (\<lambda>n. (n, concat (replicate 9 [0..<n]), \<lambda>i. i)) THREADS :: bench_round list"
  have "map fst ?rs = THREADS" by (simp add: comp_def)
  moreover have "\<forall>(n, sched, took) \<in> set ?rs. fair_sched ?t n sched" using fair_round_robin by auto
  ultimately have T: "(\<exists>s. test_naive_map ?t (concat (replicate 9 [0..<10])) = Ok s \<and> (\<forall>i<10. th_pc (threads s i) = Returned (Ok (Memory 1234)))) \<and>
    page_latch_thread_benches ?t ?rs \<lparr>l_state = PT_IN_MEMORY, l_data = 10\<rparr> =
      Some (Ok (map (\<lambda>(n, sched, took). (replicate n (Returned (Ok 10)), bench_report (map took [0..<n]))) ?rs))"
    by (rule concurrent_tests_pass [OF fair_round_robin])
  moreover have "map (\<lambda>(n, sched, took). (replicate n (Returned (Ok 10)), bench_report (map took [0..<n]))) ?rs =
      map (\<lambda>n. (replicate n (Returned (Ok 10) :: u32 pc), bench_report [0..<n])) THREADS"
    by simp
  moreover have "(7 :: nat) < 10" by simp
  ultimately show ?thesis by (metis (no_types, lifting))
qed

end
