(* ===== verification/Tree_Base.thy ===== *)
theory Tree_Base
  imports Index_Page Page_Frame
begin

text \<open>
  The parts of the tree, transaction, meta and cache modules that exist so far:
  \<^verbatim>\<open>tree/btree_base.rs\<close>, \<^verbatim>\<open>transaction/tx_memory.rs\<close>, \<^verbatim>\<open>meta/meta.rs\<close> and the constructor in
  \<^verbatim>\<open>buffer/page_cache.rs\<close>. The unit inside the \<^verbatim>\<open>Arc\<close> of a transaction carries no state; the
  mutex of the file cache is modelled by its value, as nothing locks it yet.
\<close>

section \<open>Transaction memory and meta page\<close>

record TxMemory =
  tx_cache :: unit
  tx_id :: u64

definition new_fake_tx :: "u64 \<Rightarrow> unit \<Rightarrow> TxMemory" where
  "new_fake_tx id' cache = \<lparr>tx_cache = cache, tx_id = id'\<rparr>"

record BTreeMetaPage =
  mp_version :: u64
  mp_checksum :: u64
  mp_root :: PageID

section \<open>The base of the B-link tree\<close>

datatype BTreeInnerError = BTreeIndexPageError IndexPageError

definition BTreeInnerError_from :: "IndexPageError \<Rightarrow> BTreeInnerError" where
  "BTreeInnerError_from err = BTreeIndexPageError err"

record BInner =
  bi_tx :: TxMemory

definition BInner_new :: "TxMemory \<Rightarrow> BInner" where
  "BInner_new tx = \<lparr>bi_tx = tx\<rparr>"

text \<open>The descent is not written yet: the method returns page 0 whatever it is given.\<close>

definition traverse :: "BInner \<Rightarrow> PageID \<Rightarrow> block \<Rightarrow> (BTreeInnerError, PageID) outcome" where
  "traverse self page key = Ok (PageID 0)"

section \<open>The file cache\<close>

datatype PageCacheError = PageAllocationFailed

record BaseFileCache =
  bfc_cache :: "PageID \<rightharpoonup> unit"

definition BaseFileCache_new :: BaseFileCache where
  "BaseFileCache_new = \<lparr>bfc_cache = Map.empty\<rparr>"

end
