(* ===== verification/Spec2Isabelle.thy ===== *)
theory Spec2Isabelle
  imports Page_Shape Page_Limits Corrupt_Pages Memory_Liveness Guarded_Page Shared_Index Buffer_System Repo_Tests Tree_Base
begin

text \<open>
  A verification library for InkDB, a storage engine in Rust under construction: a buffer
  layer (page table, latch, frames) over 4096-byte pages, slotted pages on those bytes, and
  B-link index pages on the slotted ones. Source paths are under \<^verbatim>\<open>src/src\<close>.

  \<^bold>\<open>The parts and how they interact.\<close> A page id names a page of the file
  (\<^verbatim>\<open>page/mod.rs\<close>, offset \<^verbatim>\<open>id * 4096\<close>). The page table (\<^verbatim>\<open>buffer/page_table.rs\<close>) maps ids to shared
  handles; a handle's entry is a latch (\<^verbatim>\<open>buffer/page_table_latch.rs\<close>) over where the page is, which
  the first of many threads loads. A loaded page lives in a frame (\<^verbatim>\<open>buffer/page_frame.rs\<close>) behind
  a reader-writer lock, whose guards give slotted views of the bytes (\<^verbatim>\<open>page/slotted_page.rs\<close>);
  index pages (\<^verbatim>\<open>page/internal_page.rs\<close>) interpret the cells of a slotted page as separators with
  child page ids, and search them. The tree that would descend through them
  (\<^verbatim>\<open>tree/btree_base.rs\<close>) is a stub.

  \<^bold>\<open>The theories.\<close>

  \<^item> \<open>Rust_Prelude\<close>: machine integers as words, \<^verbatim>\<open>usize\<close> as naturals with the 64-bit limits
    written out, the result of a call (\<open>Ok\<close>, \<open>Err\<close>, \<open>Panic\<close>, and \<open>UB\<close> for an access through a raw
    pointer outside its block), state-passing operations, byte blocks with raw and checked
    accesses, and the little-endian codecs as interpretations of the locale \<open>byte_codec\<close>. The
    record \<open>target\<close> has what the meaning of the code depends on outside the source: a debug or a
    release build (overflow checks and \<^verbatim>\<open>debug_assert!\<close>), and the byte order of the machine.
    Every theorem holds for each target unless it says otherwise.
  \<^item> \<open>Page_Mod\<close>: \<^verbatim>\<open>page/mod.rs\<close>, all of it. The codec round trip, the two nibbles of the
    page-type byte, the flags byte as a set of states, the file ranges of pages.
  \<^item> \<open>Slotted_Page\<close>: \<^verbatim>\<open>page/slotted_page.rs\<close> on lists of bytes, pointer writes and bounds checks
    included; the mutable and the read-only view have their own definitions, as in the code.
    \<open>Slotted_Cells\<close>: what a page means (its cells in slot order, its free space, the bytes no
    operation may touch), the invariants \<open>wf_page\<close> and \<open>wf_cells\<close>, the execution of each
    operation, and the locales \<open>cell_store\<close>, \<open>framed_cell_store\<close> and \<open>typed_cell_store\<close> that state
    what the index page needs, interpreted on the slotted page. \<open>Slotted_Properties\<close>: refinement
    of the abstract page by the insertions, lookup, iteration, capacity, memory safety for any
    contents under a sane header, the header fields.
  \<^item> \<open>Index_Page\<close>: \<^verbatim>\<open>page/internal_page.rs\<close>, with \<open>wf_index\<close> (a well-formed page with the 16-byte
    special area and well-formed cells), the decoded entries and the node search a B-link node
    specifies. \<open>Index_Properties\<close>: \<^verbatim>\<open>find_child_ptr\<close> is that search, insertion changes the search
    exactly where it should, cell round trip, initialisation, level, kind and sibling.
    \<open>Page_Shape\<close>: the loops over the slot directory end on any contents.
  \<^item> \<open>Slotted_Machine\<close> and \<open>Index_Machine\<close>: the interfaces of the two page types. A command
    for each operation of the mutable and the read-only view that keeps a page well formed (\<open>slotted_exec\<close>, \<open>index_exec\<close>), an
    abstract store of cells and an abstract node with the same commands (\<open>store_exec\<close>, \<open>node_exec\<close>),
    and the data refinement between them: any sequence of operations answers on the bytes what it
    answers on the abstract state. \<open>Page_Limits\<close>: the accounting of the bytes of a page, how many keys
    fit, that cells tile their area, and a page that is initialised again. \<open>Slotted_Safety\<close>: all of the
    slotted interface, the raw setters of the header and single slot entries too, on arbitrary bytes: which commands
    are safe where, and which keep a header sane. \<open>Corrupt_Pages\<close>: the index interface on damaged pages, where
    only the header is sane: no sequence of operations leaves the page's memory, with the exceptions of the release
    build named there.
  \<^item> \<open>Transition\<close>: reachability and the locales \<open>invariant_system\<close>, \<open>guarantee_system\<close> and
    \<open>refinement_mapping\<close>; runs of commands and the locales \<open>data_refinement\<close> and \<open>safe_machine\<close>.
    \<open>Page_Table_Latch\<close>: \<^verbatim>\<open>load\<close> and \<^verbatim>\<open>peek\<close> as steps of any number of threads, one per access to
    shared memory, and the invariant, interpreted in those locales. \<open>Latch_Properties\<close>: mutual
    exclusion, data-race freedom, agreement, refinement of a once cell, completion under fair
    schedules, and the three places where the latch does not do what it means to.
    \<open>Latch_Memory\<close>: the same program on a release/acquire memory, with the orderings the code
    names: a thread may read old states, and a data access that is not ordered by happens-before is
    undefined. \<open>Memory_Properties\<close>: race freedom and agreement for \<^verbatim>\<open>load\<close> there; \<^verbatim>\<open>peek\<close> is sound once it
    has read \<^verbatim>\<open>PT_IN_MEMORY\<close>, the states it returns never go back, and before that it races.
    \<open>Memory_Refinement\<close>: in a release build the executions of \<^verbatim>\<open>load\<close> there map, each step to none, one or several, to
    interleavings with the same memory and results. \<open>Memory_Liveness\<close>: completion there, once reads
    of the state byte are fresh, and that stale reads can go on for ever otherwise.
  \<^item> \<open>Page_Frame\<close>: the frame, its lock with poisoning, its guards as a state machine, and \<^verbatim>\<open>read\<close>
    and \<^verbatim>\<open>write\<close> with closures. \<open>Page_Table\<close>: entries, handles and the naive table; the trait
    \<^verbatim>\<open>PageTable\<close> is the locale \<open>page_table\<close>. \<open>Tree_Base\<close>: the small types of the tree,
    transaction, meta and cache modules.
  \<^item> Compositions. \<open>Guarded_Page\<close>: threads that run the commands of a page type through the guards of
    one frame. A command is not atomic: it starts, writes arbitrary bytes or reads the page any number of times, and ends.
    The locale \<open>guarded_object\<close> shows once that by the exclusion of the lock every execution answers as the specification,
    one command after the other, and is interpreted on both page types. \<open>Shared_Index\<close>: threads that insert and search through the guards of one frame;
    the page is the replay of the successful insertions, and a search sees the node its guard
    protects. \<open>Buffer_System\<close>: a page table, its entries and threads that look pages up and load
    them; agreement for a page that was inserted once, and what happens when it is inserted twice.
  \<^item> \<open>Repo_Tests\<close>: the unit tests of the repository as definitions, with proofs that they pass in
    every build, the concurrent ones under every fair schedule, joins and report of the benchmark included.
  \<^item> This theory: properties that span components, below.

  \<^bold>\<open>Parameters and bounds.\<close> Closures (\<^verbatim>\<open>work\<close> of the latch, the arguments of \<^verbatim>\<open>read\<close> and \<^verbatim>\<open>write\<close>)
  are arguments of the model; a thread's closure may succeed, fail or panic. No definition uses
  fuel: the loops over the slot directory are functions with a measure on the iterator's
  position, and \<^verbatim>\<open>load\<close>, which can wait for ever, is a step relation whose completion is a theorem
  about schedules (nine rounds are enough, one per step left on the longest path of a waiting
  thread and of the thread it waits for). Slices passed in are assumed shorter than \<^verbatim>\<open>2^63\<close> bytes,
  which Rust guarantees of every slice.

  The memory model of \<open>Latch_Memory\<close> is the release/acquire fragment that the orderings of the code
  belong to: a store goes to the end of the modification order, which loses nothing here because
  the only plain store is made by a thread that has seen the last one. The schedules of the tests
  are bounded by 255 steps per thread in a debug build, below which the back-off counter cannot
  overflow.

  \<^bold>\<open>Not modelled.\<close> \<^verbatim>\<open>memory_used\<close>, whose body is missing; the trait \<^verbatim>\<open>PageCache\<close>, which has no
  implementation; empty modules (buffer manager, pager, leaf, index); printing and timing in the
  tests (the report of the benchmark is a function of the times). Of an execution with a data race
  only the racing call is undefined in the model, which is enough to show where races are and are
  not. The reader-writer lock is modelled by its interface, without queueing order; allocation
  failure and thread spawning are left out. What is left of the source besides is module
  declarations, type aliases and imports.
\<close>

section \<open>Building a node\<close>

text \<open>Appending entries one by one, the way a node is filled in key order.\<close>

fun append_entries :: "target \<Rightarrow> (block \<times> PageID) list \<Rightarrow> unit index_op" where
  "append_entries t [] p = (Ok (), p)"
| "append_entries t ((k, c) # es) p =
     (case (IndexCellOwned_new t k c :: (IndexPageError, IndexCellOwned) outcome) of
        Ok cell \<Rightarrow> op_bind (index_add_cell_append_slot_entry t cell) (\<lambda>_. append_entries t es) p
      | Err e \<Rightarrow> (Err e, p) | Panic \<Rightarrow> (Panic, p) | UB \<Rightarrow> (UB, p))"

definition entries_size :: "(block \<times> PageID) list \<Rightarrow> nat" where
  "entries_size es = sum_list (map (\<lambda>e. length (fst e) + 14) es)"

text \<open>Appending one entry that fits, and one that does not.\<close>

lemma append_entry_fits:
  assumes "wf_index p" and "length k + 14 \<le> room_of p"
  shows "\<exists>p1. (\<forall>es. append_entries t ((k, c) # es) p = append_entries t es p1) \<and> wf_index p1 \<and>
    index_entries p1 = index_entries p @ [(k, c)] \<and> sibling_of p1 = sibling_of p \<and> room_of p1 = room_of p - (length k + 14)"
proof -
  note D = wf_indexD [OF assms(1)]
  have "room_of p \<le> 4056" using wf_pageD [OF D(2)] D(4) by (simp add: room_of_def)
  then have small: "10 + length k < 4068" and key: "length k < 65536" using assms(2) by simp_all
  from index_insert_fits [OF assms(1) key assms(2) le_refl, of t c] obtain p1 where
    p1: "index_add_cell_at_slot_entry_index t (count_of p) (IndexCellOwned (encode_cell k c)) p = (Ok (), p1)"
      "wf_index p1" "index_entries p1 = insert_at (count_of p) (k, c) (index_entries p)" "sibling_of p1 = sibling_of p"
      "room_of p1 = room_of p - (length k + 14)" by blast
  have app: "index_add_cell_append_slot_entry t (IndexCellOwned (encode_cell k c)) p = (Ok (), p1)"
    using index_append_is_insert [OF assms(1), of "IndexCellOwned (encode_cell k c)" t] small p1(1) by simp
  show ?thesis
    using p1 by (intro exI [of _ p1]) (simp add: IndexCellOwned_new_ok [OF small] op_bind_def app insert_at_def)
qed


lemma append_entries_fit:
  assumes "wf_index p" and "entries_size es \<le> room_of p"
  shows "\<exists>p'. append_entries t es p = (Ok (), p') \<and> wf_index p' \<and> index_entries p' = index_entries p @ es \<and>
    sibling_of p' = sibling_of p"
  using assms
proof (induction es arbitrary: p)
  case (Cons e es)
  obtain k c where e: "e = (k, c)" by (cases e)
  have room: "length k + 14 \<le> room_of p" and rest: "entries_size es \<le> room_of p - (length k + 14)"
    using Cons.prems(2) by (simp_all add: entries_size_def e)
  from append_entry_fits [OF Cons.prems(1) room, of t c] obtain p1 where
    p1: "append_entries t ((k, c) # es) p = append_entries t es p1" "wf_index p1" "index_entries p1 = index_entries p @ [(k, c)]"
      "sibling_of p1 = sibling_of p" "room_of p1 = room_of p - (length k + 14)" by blast
  from Cons.IH [OF p1(2), unfolded p1(5), OF rest] p1(1,3,4) show ?case by (auto simp: e)
qed simp



section \<open>Properties across components\<close>

text \<open>
  C9: A node filled in key order routes every key. From any page, \<^verbatim>\<open>init_in_place\<close> and appending
  entries in strictly increasing key order succeeds whenever they fit into 4056 bytes, the
  entries read back are those appended, and \<^verbatim>\<open>find_child_ptr\<close> then returns the child of the least
  separator greater than the key, or none when there is no greater one.
\<close>

theorem filled_node_routes:
  assumes "length p = 4096" and "sorted_wrt (<) (map fst es)" and "entries_size es \<le> 4056"
  shows "\<exists>p1 p2. init_in_place t lsn p = (Ok (), p1) \<and> append_entries t es p1 = (Ok (), p2) \<and>
    index_entries p2 = es \<and>
    (\<forall>key. (\<forall>c. find_child_ptr t p2 key = Ok (Some c) \<longleftrightarrow>
               (\<exists>k. (k, c) \<in> set es \<and> key < k \<and> (\<forall>k'\<in>fst ` set es. key < k' \<longrightarrow> k \<le> k'))) \<and>
           (find_child_ptr t p2 key = Ok None \<longleftrightarrow> (\<forall>k\<in>fst ` set es. k \<le> key)))"
proof -
  let ?p1 = "init_index_bytes lsn"
  note F = fresh_index [of lsn]
  from append_entries_fit [OF F(1), of es t] assms(3) F obtain p2 where
    p2: "append_entries t es ?p1 = (Ok (), p2)" "wf_index p2" "index_entries p2 = es" "sibling_of p2 = None" by auto
  have find: "find_child_ptr t p2 key = Ok (first_above key es)" for key
    by (simp add: find_child_ptr_exec [OF p2(2)] p2(3,4) search_node_def)
  have "first_above key es = None \<longleftrightarrow> (\<forall>k\<in>fst ` set es. k \<le> key)" for key
    by (simp add: first_above_None split_def)
  then show ?thesis
    using p2(1,3) init_index_exec [OF assms(1), of t lsn]
    by (intro exI [of _ ?p1] exI [of _ p2]) (simp add: find first_above_Some [OF assms(2)])
qed

theorem filled_node_routes_witness:
  "\<exists>p1 p2. init_in_place dev 1 (replicate 4096 0) = (Ok (), p1) \<and>
     append_entries dev [([1], PageID 4), ([2, 7], PageID 5)] p1 = (Ok (), p2) \<and>
     index_entries p2 = [([1], PageID 4), ([2, 7], PageID 5)]"
  using filled_node_routes [of "replicate 4096 0" "[([1], PageID 4), ([2, 7], PageID 5)]" dev 1]
  by (auto simp: entries_size_def)

text \<open>
  C23: A linked node moves right. A node filled with a high key first and then its separators,
  and given a right sibling, sends every key above the high key to the sibling and every other
  key to the first separator greater than it.
\<close>

theorem linked_node_routes:
  assumes "length p = 4096" and "entries_size ((high, c) # es) \<le> 4056" and "pid r \<noteq> 0"
  shows "\<exists>p1 p2 p3. init_in_place t lsn p = (Ok (), p1) \<and> append_entries t ((high, c) # es) p1 = (Ok (), p2) \<and>
    set_right_sibling t r p2 = (Ok (), p3) \<and>
    (\<forall>key. find_child_ptr t p3 key = (if high < key then Ok (Some r) else Ok (first_above key es)))"
proof -
  let ?p1 = "init_index_bytes lsn"
  note F = fresh_index [of lsn]
  from append_entries_fit [OF F(1), of "(high, c) # es" t] assms(2) F obtain p2 where
    p2: "append_entries t ((high, c) # es) ?p1 = (Ok (), p2)" "wf_index p2" "index_entries p2 = (high, c) # es" by auto
  let ?p3 = "patch p2 4088 (to_le_bytes (pid r))"
  note D = wf_indexD [OF p2(2)]
  note P = patch_outside [OF D(1), of 4088 "to_le_bytes (pid r)"]
  have "wf_index ?p3" "index_entries ?p3 = (high, c) # es"
    using P D p2(2,3) by (simp_all add: wf_index_def index_entries_def)
  moreover have "sibling_of ?p3 = Some r"
    using D(3) assms(3) by (simp add: sibling_of_def u64_codec.get_put_same)
  ultimately have "find_child_ptr t ?p3 key = (if high < key then Ok (Some r) else Ok (first_above key es))" for key
    by (simp add: find_child_ptr_exec search_node_def)
  then show ?thesis
    using p2(1) init_index_exec [OF assms(1), of t lsn] set_right_sibling_exec [OF D(3,5), of t r]
    by (intro exI [of _ ?p1] exI [of _ p2] exI [of _ ?p3]) simp
qed

theorem linked_node_routes_witness:
  "\<exists>p3. find_child_ptr dev p3 [9] = Ok (Some (PageID 77)) \<and> find_child_ptr dev p3 [2] = Ok (Some (PageID 5))"
proof -
  obtain p3 where "\<forall>key. find_child_ptr dev p3 key =
      (if [8] < key then Ok (Some (PageID 77)) else Ok (first_above key [([1], PageID 4), ([3], PageID 5)]))"
    using linked_node_routes [of "replicate 4096 0" "[8]" "PageID 0" "[([1], PageID 4), ([3], PageID 5)]" "PageID 77" dev 1]
    by (auto simp: entries_size_def)
  then show ?thesis by (intro exI [of _ p3]) simp
qed



text \<open>
  Searching under a read guard. While a thread holds a guard of a frame that holds a
  well-formed index page, \<^verbatim>\<open>find_child_ptr\<close> on the guarded page returns the search result of the
  node as it was when the guard was taken, whatever the other threads do in between.
\<close>

theorem guarded_search_stable:
  assumes "reach frame_init any_step s" and "held_by s i = Reading g" and "wf_index (raw (frame s))"
    and "(others_step i)\<^sup>*\<^sup>* s s'"
  shows "find_child_ptr t (raw (frame s')) key =
    search_node key (index_entries (raw (frame s))) (sibling_of (raw (frame s)))"
proof -
  have "holder_inv i s" using frame_lock.reach_inv [OF assms(1)] assms(2) by (simp add: holder_inv_def)
  from frame_holder.steps_guar [OF assms(4) this] have "raw (frame s') = raw (frame s)" by (simp add: page_kept_def)
  then show ?thesis using find_child_ptr_exec [OF assms(3)] by simp
qed

lemma reach_index_reader:
  defines "fr \<equiv> PageFrame_new 10 IndexInternal demo_index1"
  shows "reach frame_init any_step \<lparr>frame = fr\<lparr>f_latch := (f_latch fr)\<lparr>rw_readers := 1\<rparr>\<rparr>,
    held_by = (\<lambda>_. NoGuard)(0 := Reading (FrameReadGuard IndexInternal))\<rparr>"
proof -
  let ?s = "\<lparr>frame = fr, held_by = (\<lambda>_. NoGuard)\<rparr>"
  have r: "reach frame_init any_step ?s" by (rule reach_init) (auto simp: frame_init_def fr_def)
  have "frame_step 0 ?s \<lparr>frame = fr\<lparr>f_latch := (f_latch fr)\<lparr>rw_readers := 1\<rparr>\<rparr>,
      held_by = (held_by ?s)(0 := Reading (FrameReadGuard IndexInternal))\<rparr>"
    by (rule take_read) (simp_all add: guards_ok fr_def PageFrame_new_def rwlock_new_def)
  then have "any_step ?s \<lparr>frame = fr\<lparr>f_latch := (f_latch fr)\<lparr>rw_readers := 1\<rparr>\<rparr>,
      held_by = (\<lambda>_. NoGuard)(0 := Reading (FrameReadGuard IndexInternal))\<rparr>" by (auto simp: any_step_def)
  then show ?thesis by (rule reach_step [OF r])
qed

theorem guarded_search_stable_witness:
  "find_child_ptr dev (raw (PageFrame_new 10 IndexInternal demo_index1)) [3] = Ok (Some (PageID 9))"
proof -
  let ?fr = "PageFrame_new 10 IndexInternal demo_index1"
  let ?s = "\<lparr>frame = ?fr\<lparr>f_latch := (f_latch ?fr)\<lparr>rw_readers := 1\<rparr>\<rparr>,
    held_by = (\<lambda>_. NoGuard)(0 := Reading (FrameReadGuard IndexInternal))\<rparr>"
  have raw: "raw (frame ?s) = demo_index1" by (simp add: raw_def PageFrame_new_def rwlock_new_def)
  have "held_by ?s 0 = Reading (FrameReadGuard IndexInternal)" by simp
  moreover have "wf_index (raw (frame ?s))" unfolding raw by (rule demo_index1)
  ultimately have "find_child_ptr dev (raw (frame ?s)) [3] =
      search_node [3] (index_entries (raw (frame ?s))) (sibling_of (raw (frame ?s)))"
    by (rule guarded_search_stable [OF reach_index_reader _ _ rtranclp.rtrancl_refl])
  then show ?thesis unfolding raw by (simp add: unlocked_new demo_index1(2,3) search_node_def)
qed

text \<open>
  Inserting through the frame. On an unlocked frame that holds a well-formed index page,
  \<^verbatim>\<open>write\<close> with a closure that inserts a cell leaves the frame unlocked and the page well formed
  with the entry at its place; when the cell does not fit, the page is the one before, and a
  closure that unwraps the error poisons the frame for good.
\<close>

theorem frame_index_insert:
  assumes "unlocked fr" and "wf_index (raw fr)" and "length key < 65536" and "i \<le> length (index_entries (raw fr))"
  shows "\<exists>fr'. frame_write (\<lambda>p. case index_add_cell_at_slot_entry_index t i (IndexCellOwned (encode_cell key c)) p of
              (Ok _, p') \<Rightarrow> (Ok () :: (unit, unit) outcome, p') | (_, p') \<Rightarrow> (Panic, p')) fr =
        Some (if length key + 14 \<le> room_of (raw fr) then Ok () else Panic, fr') \<and>
    (if length key + 14 \<le> room_of (raw fr)
     then unlocked fr' \<and> wf_index (raw fr') \<and>
       index_entries (raw fr') = insert_at i (key, c) (index_entries (raw fr)) \<and> sibling_of (raw fr') = sibling_of (raw fr)
     else raw fr' = raw fr \<and> (\<forall>f. frame_read f fr' = Some (Panic :: (unit, unit) outcome, fr')))"
proof (cases "length key + 14 \<le> room_of (raw fr)")
  case True
  have i: "i \<le> count_of (raw fr)" using assms(4) by simp
  from index_insert_fits [OF assms(2,3) True i, of t c] obtain p' where
    p': "index_add_cell_at_slot_entry_index t i (IndexCellOwned (encode_cell key c)) (raw fr) = (Ok (), p')"
      "wf_index p'" "index_entries p' = insert_at i (key, c) (index_entries (raw fr))" "sibling_of p' = sibling_of (raw fr)"
    by blast
  have eq: "drop_write_guard False (set_raw p' (fr\<lparr>f_latch := (f_latch fr)\<lparr>rw_writer := True\<rparr>\<rparr>)) = set_raw p' fr"
    using assms(1) by (simp add: drop_write_guard_def rw_drop_write_def set_raw_def unlocked_def)
  have "unlocked (set_raw p' fr)" "raw (set_raw p' fr) = p'"
    using assms(1) by (simp_all add: unlocked_def set_raw_def raw_def)
  then show ?thesis
    using True p' frame_write_ok [OF assms(1), where r = "Ok () :: (unit, unit) outcome" and p = p'
        and f = "\<lambda>p. case index_add_cell_at_slot_entry_index t i (IndexCellOwned (encode_cell key c)) p of
              (Ok _, p') \<Rightarrow> (Ok (), p') | (_, p') \<Rightarrow> (Panic, p')"]
    by (intro exI [of _ "set_raw p' fr"]) (simp add: eq)
next
  case False
  then have full: "room_of (raw fr) < length key + 14" by simp
  let ?fr = "drop_write_guard True (set_raw (raw fr) (fr\<lparr>f_latch := (f_latch fr)\<lparr>rw_writer := True\<rparr>\<rparr>))"
  have "raw ?fr = raw fr \<and> (\<forall>f. frame_read f ?fr = Some (Panic :: (unit, unit) outcome, ?fr))"
    by (simp add: raw_def frame_read_def read_guard_def rw_read_unwrap_def drop_write_guard_def rw_drop_write_def set_raw_def)
  then show ?thesis
    using False index_insert_refused(1) [OF assms(2,3) full, of t i c]
      frame_write_ok [OF assms(1), where r = "Panic :: (unit, unit) outcome" and p = "raw fr"
        and f = "\<lambda>p. case index_add_cell_at_slot_entry_index t i (IndexCellOwned (encode_cell key c)) p of
              (Ok _, p') \<Rightarrow> (Ok (), p') | (_, p') \<Rightarrow> (Panic, p')"]
    by (intro exI [of _ ?fr]) simp
qed

theorem frame_index_insert_witness:
  "\<exists>fr'. frame_write (\<lambda>p. case index_add_cell_at_slot_entry_index dev 0 (IndexCellOwned (encode_cell [2] (PageID 4))) p of
       (Ok _, p') \<Rightarrow> (Ok () :: (unit, unit) outcome, p') | (_, p') \<Rightarrow> (Panic, p')) (PageFrame_new 10 IndexInternal demo_index1) =
     Some (Ok (), fr') \<and> index_entries (raw fr') = [([2], PageID 4), ([5], PageID 9)]"
  using frame_index_insert [of "PageFrame_new 10 IndexInternal demo_index1" "[2]" 0 dev "PageID 4"]
  by (simp add: unlocked_new demo_index1 insert_at_def) blast

end
